(* ===== verification/Prelude.thy ===== *)
theory Prelude
  imports Main "HOL-Library.Signed_Division"
begin

text \<open>
  Shared by every component of the tinyim model: how an operation fails, the 64-bit and
  32-bit integers of the C++ code, the early-return pattern of the handlers, and the fate
  of a remote call. An operation that changes state returns the new state paired with its
  result, because a handler that fails half-way keeps what it has already changed.
\<close>

section \<open>Failures\<close>

text \<open>
  \<open>fault\<close> is what ends the process or leaves the language's defined behaviour;
  \<open>Failed c t\<close> is \<^verbatim>\<open>cntl->SetFailed(c, t)\<close>, an ordinary error answer.
\<close>

datatype fault =
    Overflow
  | OutOfBounds
  | DivByZero
  | NullDeref
  | DoubleFree
  | UseAfterFree
  | CheckFailed
  | AssertFailed
  | Uncaught string

datatype err = Failed int string | Fault fault

type_synonym 'a result = "err + 'a"

abbreviation EINVAL :: int where
  "EINVAL \<equiv> 22"

named_theorems model_defs "definitions of the operations that a component's proofs unfold"
named_theorems keeps "frame and preservation facts of the operations"

section \<open>Machine integers\<close>

text \<open>
  Signed overflow is undefined in C++, so the operations that can overflow return a
  result. \<open>to_i32\<close> is the narrowing of \<^verbatim>\<open>static_cast<int>\<close>, which keeps the low 32 bits.
\<close>

definition in_i64 :: "int \<Rightarrow> bool" where
  "in_i64 x \<longleftrightarrow> - (2 ^ 63) \<le> x \<and> x < 2 ^ 63"

definition in_i32 :: "int \<Rightarrow> bool" where
  "in_i32 x \<longleftrightarrow> - (2 ^ 31) \<le> x \<and> x < 2 ^ 31"

definition to_i32 :: "int \<Rightarrow> int" where
  "to_i32 x = (x + 2 ^ 31) mod 2 ^ 32 - 2 ^ 31"

definition i64 :: "int \<Rightarrow> fault + int" where
  "i64 x = (if in_i64 x then Inr x else Inl Overflow)"

definition i32 :: "int \<Rightarrow> fault + int" where
  "i32 x = (if in_i32 x then Inr x else Inl Overflow)"

lemma to_i32_id [simp]: "in_i32 x \<Longrightarrow> to_i32 x = x"
  by (simp add: to_i32_def in_i32_def)

lemma to_i32_range [simp, intro]: "in_i32 (to_i32 x)"
proof -
  have "0 \<le> (x + 2 ^ 31) mod 2 ^ 32" and "(x + 2 ^ 31) mod 2 ^ 32 < 2 ^ 32"
    by simp_all
  then show ?thesis by (simp add: to_i32_def in_i32_def)
qed

lemma i64_Inr [simp]: "i64 x = Inr y \<longleftrightarrow> in_i64 x \<and> y = x"
  by (auto simp: i64_def)

lemma i32_Inr [simp]: "i32 x = Inr y \<longleftrightarrow> in_i32 x \<and> y = x"
  by (auto simp: i32_def)

lemma i64_ok: "in_i64 x \<Longrightarrow> i64 x = Inr x"
  by simp

lemma in_i64_small [simp]: "in_i64 0" "in_i64 1"
  by (simp_all add: in_i64_def)

lemma in_i64_between: "in_i64 a \<Longrightarrow> in_i64 b \<Longrightarrow> a \<le> x \<Longrightarrow> x \<le> b \<Longrightarrow> in_i64 x"
  by (simp add: in_i64_def)

text \<open>Sequencing of computations that may fault, without a state.\<close>

definition fbind :: "'e + 'a \<Rightarrow> ('a \<Rightarrow> 'e + 'b) \<Rightarrow> 'e + 'b" where
  "fbind r k = (case r of Inl e \<Rightarrow> Inl e | Inr x \<Rightarrow> k x)"

lemma fbind_simps [simp]:
  "fbind (Inl e) k = Inl e" "fbind (Inr x) k = k x"
  by (simp_all add: fbind_def)

lemma fbind_Inr: "fbind r k = Inr y \<longleftrightarrow> (\<exists>x. r = Inr x \<and> k x = Inr y)"
  by (cases r) auto

section \<open>Early returns\<close>

text \<open>
  \<open>and_then m k\<close> is the shape of every handler of the servers: run a call, and if it
  failed (\<^verbatim>\<open>if (cntl.Failed()) { SetFailed(...); return; }\<close>) stop with its error and with
  the state the call left; otherwise go on with its answer.
\<close>

fun and_then :: "'w \<times> 'a result \<Rightarrow> ('w \<Rightarrow> 'a \<Rightarrow> 'w \<times> 'b result) \<Rightarrow> 'w \<times> 'b result" where
  "and_then (w, Inl e) k = (w, Inl e)"
| "and_then (w, Inr x) k = k w x"

lemma and_then_case: "and_then m k = (case m of (w, Inl e) \<Rightarrow> (w, Inl e) | (w, Inr x) \<Rightarrow> k w x)"
  by (cases "(m, k)" rule: and_then.cases) auto

lemma and_then_Inr:
  "and_then m k = (w', Inr y) \<longleftrightarrow> (\<exists>w x. m = (w, Inr x) \<and> k w x = (w', Inr y))"
  by (cases "(m, k)" rule: and_then.cases) auto

lemma and_then_InrE:
  assumes "and_then m k = (w', Inr y)"
  obtains w x where "m = (w, Inr x)" and "k w x = (w', Inr y)"
  using assms by (auto simp: and_then_Inr)

lemma and_then_keeps:
  assumes "P (fst m)" and "\<And>w x. m = (w, Inr x) \<Longrightarrow> P w \<Longrightarrow> P (fst (k w x))"
  shows "P (fst (and_then m k))"
  using assms by (cases "(m, k)" rule: and_then.cases) auto

section \<open>Remote calls\<close>

text \<open>
  What the transport does with one remote call: the answer arrives, the request never
  reaches the server, or the server runs the handler and its answer is lost. The caller
  sees the last two as the same failure.
\<close>

datatype fate = Delivered | RequestLost int string | ReplyLost int string

fun rpc :: "fate \<Rightarrow> ('w \<Rightarrow> 'w \<times> 'a result) \<Rightarrow> 'w \<Rightarrow> 'w \<times> 'a result" where
  "rpc Delivered h w = h w"
| "rpc (RequestLost c t) h w = (w, Inl (Failed c t))"
| "rpc (ReplyLost c t) h w = (fst (h w), Inl (Failed c t))"

lemma rpc_Inr: "rpc f h w = (w', Inr y) \<longleftrightarrow> f = Delivered \<and> h w = (w', Inr y)"
  by (cases f) auto

lemma rpc_keeps [keeps]: "P w \<Longrightarrow> P (fst (h w)) \<Longrightarrow> P (fst (rpc f h w))"
  by (cases f) auto

section \<open>Buckets\<close>

text \<open>
  The access server and the id generator spread their tables over
  \<^verbatim>\<open>enum { kBucketNum = 16 }\<close> buckets, chosen by \<^verbatim>\<open>user_id % kBucketNum\<close>. C++ rounds the
  quotient towards zero, so a negative \<open>user_id\<close> that is not a multiple of 16 gives a
  negative index, outside of the bucket array.
\<close>

definition kBucketNum :: int where
  "kBucketNum = 16"

definition bucket_of :: "int \<Rightarrow> fault + nat" where
  "bucket_of user_id =
     (let bucket = user_id smod kBucketNum
      in if bucket < 0 then Inl OutOfBounds else Inr (nat bucket))"

lemma bucket_of_nonneg:
  assumes "0 \<le> u"
  shows "bucket_of u = Inr (nat (u mod 16))"
  using assms
  by (simp add: bucket_of_def kBucketNum_def smod_int_alt_def Let_def sgn_if not_less)

lemma bucket_of_lt: "bucket_of u = Inr b \<Longrightarrow> b < 16"
proof -
  assume a: "bucket_of u = Inr b"
  have "u smod 16 < 16"
    using pos_mod_bound [of 16 "\<bar>u\<bar>"] pos_mod_sign [of 16 "\<bar>u\<bar>"]
    by (auto simp: smod_int_alt_def sgn_if)
  with a show ?thesis
    by (auto simp: bucket_of_def kBucketNum_def Let_def split: if_splits)
qed

lemma bucket_of_negative: "bucket_of u = Inl OutOfBounds" if "u < 0" "\<not> 16 dvd u"
proof -
  have "0 < \<bar>u\<bar> mod 16" using that by presburger
  with that(1) show ?thesis
    by (simp add: bucket_of_def kBucketNum_def smod_int_alt_def sgn_if Let_def)
qed

section \<open>Lists\<close>

lemma filter_all_distinct_keys:
  assumes "distinct (map f xs)" and "x \<in> set xs"
  shows "filter (\<lambda>y. f y = f x) xs = [x]"
  using assms by (induction xs) (auto simp: filter_empty_conv image_iff)

lemma sorted_wrt_less_append:
  assumes "sorted_wrt (<) xs" "sorted_wrt (<) ys" "\<And>x y. x \<in> set xs \<Longrightarrow> y \<in> set ys \<Longrightarrow> x < (y::int)"
  shows "sorted_wrt (<) (xs @ ys)"
  using assms by (simp add: sorted_wrt_append)

section \<open>Paths\<close>

text \<open>The runs of a step relation with labels, used for every component that is interleaved.\<close>

inductive path :: "('s \<Rightarrow> 'o \<Rightarrow> 's \<Rightarrow> bool) \<Rightarrow> 's \<Rightarrow> 'o list \<Rightarrow> 's \<Rightarrow> bool" for step where
  path_Nil: "path step s [] s"
| path_Cons: "step s o1 s1 \<Longrightarrow> path step s1 os s' \<Longrightarrow> path step s (o1 # os) s'"

inductive_cases path_NilE: "path step s [] s'"
inductive_cases path_ConsE: "path step s (o1 # os) s'"
inductive_simps path_simps: "path step s [] s'" "path step s (o1 # os) s'"

lemma path1: "step s o1 s' \<Longrightarrow> path step s [o1] s'"
  by (simp add: path_simps)

lemma path_append: "path step s os s1 \<Longrightarrow> path step s1 os' s' \<Longrightarrow> path step s (os @ os') s'"
  by (induction rule: path.induct) (auto intro: path_Cons)

text \<open>A refinement mapping \<open>h\<close> that follows every step from a good state follows every run.\<close>

lemma path_refines:
  assumes "path step s os s'" "I s" and "\<And>s o1 s1. step s o1 s1 \<Longrightarrow> I s \<Longrightarrow> I s1 \<and> astep (h s) (p o1) (h s1)"
  shows "path astep (h s) (map p os) (h s')"
  using assms(1,2) by (induction rule: path.induct) (auto intro: path_Nil path_Cons dest: assms(3))

lemma path_keeps:
  assumes "path step s os s'" and "P s" and "\<And>s o1 s1. step s o1 s1 \<Longrightarrow> P s \<Longrightarrow> P s1"
  shows "P s'"
  using assms by (induction rule: path.induct) auto

end
