(* ===== verification/Decimal.thy ===== *)
theory Decimal
  imports Prelude
begin

text \<open>
  Decimal numbers as text, the way the servers read and write them: \<^verbatim>\<open>std::to_string\<close>
  and the stream operator (\<open>to_string\<close>), \<^verbatim>\<open>std::stoll\<close> (\<open>stoll\<close>, used by the id
  generator on what it stored in leveldb), \<^verbatim>\<open>strtoll\<close> (\<open>strtoll\<close>, used by the command
  line client) and \<^verbatim>\<open>sscanf\<close> with the format \<open>[%ld,%d,%d]\<close> (\<open>sscanf_last\<close>, used by the
  database proxy on what it stored in redis). The main facts are the round trips.
\<close>

section \<open>Writing\<close>

definition digit_char :: "nat \<Rightarrow> char" where
  "digit_char d = char_of (48 + d)"

fun nat_str :: "nat \<Rightarrow> string" where
  "nat_str n = (if n < 10 then [digit_char n] else nat_str (n div 10) @ [digit_char (n mod 10)])"

declare nat_str.simps [simp del]

definition to_string :: "int \<Rightarrow> string" where
  "to_string i = (if i < 0 then CHR ''-'' # nat_str (nat (- i)) else nat_str (nat i))"

section \<open>Reading\<close>

definition is_digit :: "char \<Rightarrow> bool" where
  "is_digit c \<longleftrightarrow> 48 \<le> (of_char c :: nat) \<and> (of_char c :: nat) \<le> 57"

definition digit_val :: "char \<Rightarrow> nat" where
  "digit_val c = of_char c - 48"

definition is_space :: "char \<Rightarrow> bool" where
  "is_space c \<longleftrightarrow> (of_char c :: nat) = 32 \<or> 9 \<le> (of_char c :: nat) \<and> (of_char c :: nat) \<le> 13"

fun scan_digits :: "nat \<Rightarrow> string \<Rightarrow> nat \<times> string" where
  "scan_digits acc [] = (acc, [])"
| "scan_digits acc (c # cs) =
     (if is_digit c then scan_digits (10 * acc + digit_val c) cs else (acc, c # cs))"

text \<open>Unsigned digits, at least one.\<close>

definition scan_nat :: "string \<Rightarrow> (nat \<times> string) option" where
  "scan_nat s = (case s of [] \<Rightarrow> None
     | c # cs \<Rightarrow> if is_digit c then Some (scan_digits 0 s) else None)"

text \<open>
  What \<^verbatim>\<open>strtoll\<close>, \<^verbatim>\<open>std::stoll\<close> and the integer conversions of \<^verbatim>\<open>sscanf\<close> share: skip
  white space, an optional sign, then digits. \<open>None\<close> when there is no digit.
\<close>

definition scan_int :: "string \<Rightarrow> (int \<times> string) option" where
  "scan_int s = (case dropWhile is_space s of [] \<Rightarrow> None
     | c # cs \<Rightarrow>
         if c = CHR ''-'' then map_option (\<lambda>(n, r). (- int n, r)) (scan_nat cs)
         else if c = CHR ''+'' then map_option (\<lambda>(n, r). (int n, r)) (scan_nat cs)
         else map_option (\<lambda>(n, r). (int n, r)) (scan_nat (c # cs)))"

definition stoll :: "string \<Rightarrow> fault + int" where
  "stoll s = (case scan_int s of
      None \<Rightarrow> Inl (Uncaught ''invalid_argument'')
    | Some (v, r) \<Rightarrow> if in_i64 v then Inr v else Inl (Uncaught ''out_of_range''))"

text \<open>\<^verbatim>\<open>strtoll\<close> answers 0 without a number and clamps what does not fit.\<close>

definition strtoll :: "string \<Rightarrow> int" where
  "strtoll s = (case scan_int s of
      None \<Rightarrow> 0
    | Some (v, r) \<Rightarrow> max (- (2 ^ 63)) (min (2 ^ 63 - 1) v))"

text \<open>
  One conversion of \<^verbatim>\<open>sscanf\<close>: a literal character that has to match, then a number of
  the given range. \<open>Inr None\<close> stops the scan, an unrepresentable number is undefined.
\<close>

definition scan_field :: "(int \<Rightarrow> bool) \<Rightarrow> char \<Rightarrow> string \<Rightarrow> fault + (int \<times> string) option" where
  "scan_field fits lit s = (case s of [] \<Rightarrow> Inr None
     | c # cs \<Rightarrow>
         if c \<noteq> lit then Inr None
         else (case scan_int cs of
             None \<Rightarrow> Inr None
           | Some (v, r) \<Rightarrow> if fits v then Inr (Some (v, r)) else Inl Overflow))"

text \<open>
  \<^verbatim>\<open>sscanf(s, "[%ld,%d,%d]", &msg_id, &client_time, &msg_time)\<close> on variables that hold 0:
  the scan stops at the first mismatch and leaves the later variables as they are.
\<close>

definition sscanf_last :: "string \<Rightarrow> fault + int \<times> int \<times> int" where
  "sscanf_last s = fbind (scan_field in_i64 (CHR ''['') s) (\<lambda>a. case a of
      None \<Rightarrow> Inr (0, 0, 0)
    | Some (msg_id, s1) \<Rightarrow> fbind (scan_field in_i32 (CHR '','') s1) (\<lambda>b. case b of
        None \<Rightarrow> Inr (msg_id, 0, 0)
      | Some (client_time, s2) \<Rightarrow> fbind (scan_field in_i32 (CHR '','') s2) (\<lambda>c. case c of
          None \<Rightarrow> Inr (msg_id, client_time, 0)
        | Some (msg_time, s3) \<Rightarrow> Inr (msg_id, client_time, msg_time))))"

section \<open>Round trips\<close>

lemma of_char_digit: "d < 10 \<Longrightarrow> (of_char (digit_char d) :: nat) = 48 + d"
  by (simp add: digit_char_def of_char_of)

lemma digit_char_digit [simp]: "d < 10 \<Longrightarrow> is_digit (digit_char d)"
  by (simp add: is_digit_def of_char_digit)

lemma digit_val_char [simp]: "d < 10 \<Longrightarrow> digit_val (digit_char d) = d"
  by (simp add: digit_val_def of_char_digit)

lemma nat_str_digits: "c \<in> set (nat_str n) \<Longrightarrow> is_digit c"
proof (induction n rule: nat_str.induct)
  case (1 n)
  then show ?case by (subst (asm) nat_str.simps) (auto split: if_splits)
qed

lemma nat_str_Cons: "\<exists>c cs. nat_str n = c # cs \<and> is_digit c"
proof -
  have "nat_str n \<noteq> []" by (subst nat_str.simps) simp
  then obtain c cs where "nat_str n = c # cs" by (cases "nat_str n") auto
  then show ?thesis using nat_str_digits [of c n] by simp
qed

definition no_digit_first :: "string \<Rightarrow> bool" where
  "no_digit_first s \<longleftrightarrow> (case s of [] \<Rightarrow> True | c # _ \<Rightarrow> \<not> is_digit c)"

lemma no_digit_first_simps [simp]:
  "no_digit_first []" "no_digit_first (c # cs) \<longleftrightarrow> \<not> is_digit c"
  by (simp_all add: no_digit_first_def)

lemma scan_digits_stop: "no_digit_first r \<Longrightarrow> scan_digits acc r = (acc, r)"
  by (cases r) auto

lemma scan_digits_snoc:
  assumes "\<And>c. c \<in> set xs \<Longrightarrow> is_digit c" "is_digit d"
  shows "scan_digits acc (xs @ d # r) =
    scan_digits (10 * fst (scan_digits acc xs) + digit_val d) r"
  using assms by (induction xs arbitrary: acc) auto

lemma scan_digits_nat_str:
  "scan_digits 0 (nat_str n @ r) = scan_digits n r"
proof (induction n arbitrary: r rule: nat_str.induct)
  case (1 n)
  show ?case
  proof (cases "n < 10")
    case True
    then show ?thesis by (subst nat_str.simps) simp
  next
    case False
    have "scan_digits 0 (nat_str (n div 10)) = (n div 10, [])"
      using "1.IH" [OF False, of "[]"] by simp
    with False show ?thesis
      by (subst nat_str.simps) (simp add: scan_digits_snoc nat_str_digits)
  qed
qed

lemma scan_nat_nat_str:
  assumes "no_digit_first r"
  shows "scan_nat (nat_str n @ r) = Some (n, r)"
proof -
  obtain c cs where c: "nat_str n = c # cs" "is_digit c" using nat_str_Cons by blast
  then show ?thesis
    using scan_digits_nat_str [of n r] assms by (simp add: scan_nat_def scan_digits_stop)
qed

lemma is_digit_no_sign: "is_digit c \<Longrightarrow> \<not> is_space c \<and> c \<noteq> CHR ''-'' \<and> c \<noteq> CHR ''+''"
  by (auto simp: is_digit_def is_space_def)

lemma scan_int_to_string:
  assumes "no_digit_first r"
  shows "scan_int (to_string i @ r) = Some (i, r)"
proof (cases "i < 0")
  case True
  have "\<not> is_space (CHR ''-'')" by (simp add: is_space_def)
  with True assms show ?thesis
    by (simp add: scan_int_def to_string_def scan_nat_nat_str)
next
  case False
  obtain c cs where c: "nat_str (nat i) = c # cs" "is_digit c" using nat_str_Cons by blast
  from c(1) have "scan_nat (c # cs @ r) = Some (nat i, r)"
    using scan_nat_nat_str [OF assms, of "nat i"] by simp
  with False c is_digit_no_sign [OF c(2)] show ?thesis
    by (simp add: scan_int_def to_string_def)
qed

lemma stoll_to_string [simp]: "in_i64 i \<Longrightarrow> stoll (to_string i) = Inr i"
  using scan_int_to_string [of "[]" i] by (simp add: stoll_def)

lemma strtoll_to_string: "in_i64 i \<Longrightarrow> no_digit_first r \<Longrightarrow> strtoll (to_string i @ r) = i"
  by (simp add: strtoll_def scan_int_to_string in_i64_def)

lemma to_string_inject [simp]: "to_string i = to_string j \<longleftrightarrow> i = j"
proof
  assume "to_string i = to_string j"
  then have "Some (i, [] :: string) = Some (j, [])"
    using scan_int_to_string [of "[]" i] scan_int_to_string [of "[]" j]
    by (simp only: no_digit_first_simps append_Nil2 True_implies_equals)
  then show "i = j" by simp
qed simp

lemma to_string_chars: "c \<in> set (to_string i) \<Longrightarrow> is_digit c \<or> c = CHR ''-''"
  by (auto simp: to_string_def nat_str_digits split: if_splits)

lemma scan_field_to_string:
  "no_digit_first r \<Longrightarrow> fits i \<Longrightarrow> scan_field fits lit (lit # to_string i @ r) = Inr (Some (i, r))"
  by (simp add: scan_field_def scan_int_to_string)

lemma sscanf_last_roundtrip:
  assumes "in_i64 m" "in_i32 c" "in_i32 t"
  shows "sscanf_last (''['' @ to_string m @ '','' @ to_string c @ '','' @ to_string t @ '']'')
    = Inr (m, c, t)"
proof -
  have comma: "\<not> is_digit (CHR '','')" and close: "\<not> is_digit (CHR '']'')"
    by (simp_all add: is_digit_def)
  with assms show ?thesis
    by (simp add: sscanf_last_def scan_field_to_string)
qed

text \<open>A bracket followed by a quote is not a number: nothing is assigned.\<close>

lemma sscanf_last_quoted: "sscanf_last (''['' @ CHR 0x22 # s) = Inr (0, 0, 0)"
  by (simp add: sscanf_last_def scan_field_def scan_int_def scan_nat_def is_space_def is_digit_def)

end
