(* ===== verification/IdGen.thy ===== *)
theory IdGen
  imports Decimal
begin

text \<open>
  The id generator (\<^verbatim>\<open>server/idgen\<close>): \<open>IdGenerate\<close> is \<^verbatim>\<open>LevelDbIdGen::IdGenerate\<close>, which
  reserves ids in leveldb a block of \<open>each_gen_id_num\<close> at a time and hands them out from
  a cache, and \<open>IdGenService\<close> is the handler \<^verbatim>\<open>IdGenServiceImpl::IdGenerate\<close>, which serves
  a whole request. leveldb is not part of the sources: its two operations are the fields
  of the parameter \<open>leveldb\<close>, and \<open>leveldb_ok\<close> says what its documentation promises.
\<close>

section \<open>leveldb\<close>

datatype status = StatusOK | NotFound | StatusError string

record 'd leveldb =
  ldb_Get :: "'d \<Rightarrow> string \<Rightarrow> status \<times> string \<times> 'd"
  ldb_Put :: "'d \<Rightarrow> string \<Rightarrow> string \<Rightarrow> status \<times> 'd"

text \<open>
  The documented behaviour, over a view \<open>contents\<close> of the stored pairs. A \<open>Get\<close> reads; a
  \<open>Put\<close> that reports success has stored the pair; a \<open>Put\<close> that reports an error has
  stored it or not (the error may come from the synchronisation).
\<close>

definition leveldb_ok :: "'d leveldb \<Rightarrow> ('d \<Rightarrow> string \<Rightarrow> string option) \<Rightarrow> bool" where
  "leveldb_ok ops contents \<longleftrightarrow>
     (\<forall>d k st v d'. ldb_Get ops d k = (st, v, d') \<longrightarrow> contents d' = contents d \<and>
        (st = StatusOK \<longrightarrow> contents d k = Some v) \<and> (st = NotFound \<longrightarrow> contents d k = None)) \<and>
     (\<forall>d k v st d'. ldb_Put ops d k v = (st, d') \<longrightarrow>
        (st = StatusOK \<and> contents d' = (contents d)(k \<mapsto> v)) \<or>
        (st \<noteq> StatusOK \<and> (contents d' = contents d \<or> contents d' = (contents d)(k \<mapsto> v))))"

section \<open>State and operations\<close>

record 'd idgen =
  id_cache :: "nat \<Rightarrow> int \<Rightarrow> int option"
  ldb :: 'd

definition set_cache :: "nat \<Rightarrow> int \<Rightarrow> int \<Rightarrow> 'd idgen \<Rightarrow> 'd idgen" where
  "set_cache b u i s = s\<lparr>id_cache := (id_cache s)(b := (id_cache s b)(u \<mapsto> i))\<rparr>"

text \<open>
  The first request for a user reads the reserved id back. The result is the status and
  the value of \<open>original_id\<close>; an absent key is an ordinary answer, 0.
\<close>

definition load_id :: "'d leveldb \<Rightarrow> nat \<Rightarrow> int \<Rightarrow> 'd idgen \<Rightarrow> 'd idgen \<times> (fault + status \<times> int)" where
  "load_id ops b user_id s =
     (case ldb_Get ops (ldb s) (to_string user_id) of (st, db_id, d) \<Rightarrow>
       (let s' = s\<lparr>ldb := d\<rparr> in
        case st of
          StatusOK \<Rightarrow> (case stoll db_id of
              Inl f \<Rightarrow> (s', Inl f)
            | Inr i \<Rightarrow> (set_cache b user_id i s', Inr (StatusOK, i)))
        | NotFound \<Rightarrow> (set_cache b user_id 0 s', Inr (StatusOK, 0))
        | StatusError e \<Rightarrow> (s', Inr (StatusError e, 0))))"

text \<open>
  \<^verbatim>\<open>int64_t& original_id = id_cache[user_id]\<close> creates an entry 0 for a new user; the rest
  of the first half of the function fills it from leveldb when it is 0.
\<close>

definition fetch_id :: "'d leveldb \<Rightarrow> nat \<Rightarrow> int \<Rightarrow> 'd idgen \<Rightarrow> 'd idgen \<times> (fault + status \<times> int)" where
  "fetch_id ops b user_id s =
     (let original_id = (case id_cache s b user_id of None \<Rightarrow> 0 | Some i \<Rightarrow> i);
          s0 = set_cache b user_id original_id s
      in if original_id = 0 then load_id ops b user_id s0
         else (s0, Inr (StatusOK, original_id)))"

text \<open>
  The test for a new reservation,
  \<^verbatim>\<open>update_db || (original_id % FLAGS_each_gen_id_num + need_msgid_num > FLAGS_each_gen_id_num)\<close>,
  and the end of the block that is reserved.
\<close>

definition needs_put :: "int \<Rightarrow> bool \<Rightarrow> int \<Rightarrow> int \<Rightarrow> fault + bool" where
  "needs_put N update_db original_id need =
     (if update_db then Inr True
      else if N = 0 then Inl DivByZero
      else fbind (i64 (original_id smod N + need)) (\<lambda>x. Inr (x > N)))"

definition block_end :: "int \<Rightarrow> int \<Rightarrow> int \<Rightarrow> fault + int" where
  "block_end N original_id need =
     fbind (i64 (original_id + need)) (\<lambda>a.
     fbind (i64 (a + N)) (\<lambda>b.
     fbind (i64 (b - 1)) (\<lambda>c.
     if N = 0 then Inl DivByZero
     else fbind (i64 (c sdiv N)) (\<lambda>q. i64 (q * N)))))"

definition reserve :: "'d leveldb \<Rightarrow> int \<Rightarrow> int \<Rightarrow> int \<Rightarrow> int \<Rightarrow> 'd idgen \<Rightarrow> 'd idgen \<times> (fault + status)" where
  "reserve ops N user_id original_id need s =
     (case block_end N original_id need of
        Inl f \<Rightarrow> (s, Inl f)
      | Inr db_id \<Rightarrow>
          (case ldb_Put ops (ldb s) (to_string user_id) (to_string db_id) of
             (st, d) \<Rightarrow> (s\<lparr>ldb := d\<rparr>, Inr st)))"

definition hand_out :: "nat \<Rightarrow> int \<Rightarrow> int \<Rightarrow> int \<Rightarrow> 'd idgen \<Rightarrow> 'd idgen \<times> (fault + status \<times> int)" where
  "hand_out b user_id original_id need s =
     (case fbind (i64 (original_id + 1)) (\<lambda>start_id.
           fbind (i64 (original_id + need)) (\<lambda>last_id. Inr (start_id, last_id))) of
        Inl f \<Rightarrow> (s, Inl f)
      | Inr (start_id, last_id) \<Rightarrow> (set_cache b user_id last_id s, Inr (StatusOK, start_id)))"

definition IdGenerate ::
  "'d leveldb \<Rightarrow> int \<Rightarrow> 'd idgen \<Rightarrow> int \<Rightarrow> int \<Rightarrow> 'd idgen \<times> (fault + status \<times> int)" where
  "IdGenerate ops N s user_id need =
     (case bucket_of user_id of
        Inl f \<Rightarrow> (s, Inl f)
      | Inr b \<Rightarrow>
          (let update_db = (case id_cache s b user_id of None \<Rightarrow> True | Some i \<Rightarrow> i = 0)
           in case fetch_id ops b user_id s of
                (s1, Inl f) \<Rightarrow> (s1, Inl f)
              | (s1, Inr (st, i)) \<Rightarrow>
                  if st \<noteq> StatusOK then (s1, Inr (st, 0))
                  else (case needs_put N update_db i need of
                      Inl f \<Rightarrow> (s1, Inl f)
                    | Inr put \<Rightarrow>
                        if \<not> put then hand_out b user_id i need s1
                        else (case reserve ops N user_id i need s1 of
                            (s2, Inl f) \<Rightarrow> (s2, Inl f)
                          | (s2, Inr st2) \<Rightarrow>
                              if st2 \<noteq> StatusOK then (s2, Inr (st2, 0))
                              else hand_out b user_id i need s2))))"

text \<open>
  The messages of \<^verbatim>\<open>idgen.proto\<close> and the handler of the service: one block per entry of
  the request, in its order, stopping at the first failure.
\<close>

record UserAndIdNum =
  un_user_id :: int
  un_need_msgid_num :: int

record MsgIds =
  mi_user_id :: int
  mi_start_msg_id :: int
  mi_msg_id_num :: int

definition status_text :: "status \<Rightarrow> string" where
  "status_text st = (case st of StatusOK \<Rightarrow> ''OK'' | NotFound \<Rightarrow> ''NotFound'' | StatusError e \<Rightarrow> e)"

fun IdGenService ::
  "'d leveldb \<Rightarrow> int \<Rightarrow> 'd idgen \<Rightarrow> UserAndIdNum list \<Rightarrow> 'd idgen \<times> MsgIds list result" where
  "IdGenService ops N s [] = (s, Inr [])"
| "IdGenService ops N s (r # rs) =
     (case IdGenerate ops N s (un_user_id r) (un_need_msgid_num r) of
        (s', Inl f) \<Rightarrow> (s', Inl (Fault f))
      | (s', Inr (st, start_msgid)) \<Rightarrow>
          if st \<noteq> StatusOK then (s', Inl (Failed (-1) (status_text st)))
          else and_then (IdGenService ops N s' rs)
            (\<lambda>w reply. (w, Inr (\<lparr>mi_user_id = un_user_id r, mi_start_msg_id = start_msgid,
                                  mi_msg_id_num = un_need_msgid_num r\<rparr> # reply))))"

text \<open>A fresh process: what leveldb holds survives, the cache does not.\<close>

definition idgen_restart :: "'d idgen \<Rightarrow> 'd idgen" where
  "idgen_restart s = s\<lparr>id_cache := (\<lambda>_ _. None)\<rparr>"

section \<open>What a call does\<close>

definition cached :: "'d idgen \<Rightarrow> int \<Rightarrow> int" where
  "cached s u = (case bucket_of u of Inl f \<Rightarrow> 0
     | Inr b \<Rightarrow> (case id_cache s b u of None \<Rightarrow> 0 | Some i \<Rightarrow> i))"

definition stored :: "('d \<Rightarrow> string \<Rightarrow> string option) \<Rightarrow> 'd idgen \<Rightarrow> int \<Rightarrow> int" where
  "stored contents s u = (case contents (ldb s) (to_string u) of None \<Rightarrow> 0
     | Some v \<Rightarrow> (case stoll v of Inl f \<Rightarrow> 0 | Inr i \<Rightarrow> i))"

definition id_issued :: "fault + status \<times> int \<Rightarrow> int option" where
  "id_issued r = (case r of Inl f \<Rightarrow> None
     | Inr (st, i) \<Rightarrow> if st = StatusOK then Some i else None)"

lemma id_issued_Some [simp]: "id_issued r = Some i \<longleftrightarrow> r = Inr (StatusOK, i)"
  by (auto simp: id_issued_def split: sum.splits if_splits)

lemma id_issued_OK [simp]: "id_issued (Inr (StatusOK, i)) = Some i"
  by simp

lemma id_issued_None: "id_issued r = None \<longleftrightarrow> (\<forall>i. r \<noteq> Inr (StatusOK, i))"
  by (auto simp: id_issued_def split: sum.splits if_splits)

text \<open>The invariant: leveldb and the cache hold non-negative 64-bit numbers only.\<close>

definition good_id :: "int \<Rightarrow> bool" where
  "good_id i \<longleftrightarrow> 0 \<le> i \<and> in_i64 i"

definition idgen_inv :: "'d leveldb \<Rightarrow> ('d \<Rightarrow> string \<Rightarrow> string option) \<Rightarrow> 'd idgen \<Rightarrow> bool" where
  "idgen_inv ops contents s \<longleftrightarrow> leveldb_ok ops contents \<and>
     (\<forall>k v. contents (ldb s) k = Some v \<longrightarrow> (\<exists>i. good_id i \<and> v = to_string i)) \<and>
     (\<forall>b u i. id_cache s b u = Some i \<longrightarrow> good_id i)"

lemma good_id_0 [simp]: "good_id 0"
  by (simp add: good_id_def)

lemma good_idD: "good_id i \<Longrightarrow> 0 \<le> i" "good_id i \<Longrightarrow> in_i64 i"
  by (simp_all add: good_id_def)

lemma leveldb_GetD:
  assumes "leveldb_ok ops contents" "ldb_Get ops d k = (st, v, d')"
  shows "contents d' = contents d" "st = StatusOK \<Longrightarrow> contents d k = Some v"
    "st = NotFound \<Longrightarrow> contents d k = None"
  using assms unfolding leveldb_ok_def by blast+

lemma leveldb_PutD:
  assumes "leveldb_ok ops contents" "ldb_Put ops d k v = (st, d')"
  shows "contents d' = contents d \<and> st \<noteq> StatusOK \<or> contents d' = (contents d)(k \<mapsto> v)"
  using assms unfolding leveldb_ok_def by blast

lemma ldb_set_cache [simp]: "ldb (set_cache b u i s) = ldb s"
  by (simp add: set_cache_def)

lemma id_cache_set_cache [simp]:
  "id_cache (set_cache b u i s) b' u' = (if b' = b \<and> u' = u then Some i else id_cache s b' u')"
  by (simp add: set_cache_def)

lemma stored_set_cache [simp]: "stored contents (set_cache b u i s) v = stored contents s v"
  by (simp add: stored_def)

lemma cached_set_cache:
  "bucket_of u = Inr b \<Longrightarrow> cached (set_cache b u i s) v = (if v = u then i else cached s v)"
  by (auto simp: cached_def split: sum.splits)

lemma cached_ldb [simp]: "cached (s\<lparr>ldb := d\<rparr>) = cached s"
  by (rule ext) (simp add: cached_def split: sum.split)

lemma set_cache_ldb: "set_cache b u i (s\<lparr>ldb := d\<rparr>) = (set_cache b u i s)\<lparr>ldb := d\<rparr>"
  by (simp add: set_cache_def)

lemma idgen_inv_set_cache: "idgen_inv ops contents s \<Longrightarrow> good_id i \<Longrightarrow> idgen_inv ops contents (set_cache b u i s)"
  by (auto simp: idgen_inv_def)

lemma idgen_inv_ldb:
  "idgen_inv ops contents s \<Longrightarrow> contents d = contents (ldb s) \<Longrightarrow> idgen_inv ops contents (s\<lparr>ldb := d\<rparr>)"
  by (simp add: idgen_inv_def)

lemma idgen_inv_ldb_upd:
  "idgen_inv ops contents s \<Longrightarrow> contents d = (contents (ldb s))(k \<mapsto> to_string i) \<Longrightarrow> good_id i \<Longrightarrow>
   idgen_inv ops contents (s\<lparr>ldb := d\<rparr>)"
  by (auto simp: idgen_inv_def)

lemma idgen_inv_ok: "idgen_inv ops contents s \<Longrightarrow> leveldb_ok ops contents"
  by (simp add: idgen_inv_def)

lemma idgen_inv_stoll:
  assumes "idgen_inv ops contents s" "contents (ldb s) (to_string u) = Some v"
  shows "stoll v = Inr (stored contents s u)" "good_id (stored contents s u)"
proof -
  obtain i where i: "good_id i" "v = to_string i"
    using assms unfolding idgen_inv_def by blast
  then have "stoll v = Inr i" by (simp add: good_idD)
  then show "stoll v = Inr (stored contents s u)" "good_id (stored contents s u)"
    using assms(2) i(1) by (simp_all add: stored_def)
qed

lemma good_id_stored [simp]: "idgen_inv ops contents s \<Longrightarrow> good_id (stored contents s u)"
  by (cases "contents (ldb s) (to_string u)") (auto simp: idgen_inv_stoll(2), simp add: stored_def)

lemma good_id_cached [simp]: "idgen_inv ops contents s \<Longrightarrow> good_id (cached s u)"
  unfolding idgen_inv_def cached_def by (auto split: sum.split option.split)

lemma load_id_spec:
  assumes inv: "idgen_inv ops contents s" and eq: "load_id ops b u s = (s', r)"
  shows "contents (ldb s') = contents (ldb s) \<and> idgen_inv ops contents s' \<and>
    (case id_issued r of Some i \<Rightarrow> i = stored contents s u \<and> id_cache s' = id_cache (set_cache b u i s)
      | None \<Rightarrow> id_cache s' = id_cache s)"
proof -
  obtain st v d where g: "ldb_Get ops (ldb s) (to_string u) = (st, v, d)" by (metis prod_cases3)
  note D = leveldb_GetD [OF idgen_inv_ok [OF inv] g]
  show ?thesis
  proof (cases st)
    case StatusOK
    note v = idgen_inv_stoll [OF inv D(2) [OF StatusOK]]
    from eq g StatusOK v show ?thesis
      by (auto simp: load_id_def id_issued_def set_cache_ldb D(1) inv
          intro!: idgen_inv_ldb idgen_inv_set_cache)
  next
    case NotFound
    then have "stored contents s u = 0" using D(3) by (simp add: stored_def)
    with eq g NotFound show ?thesis
      by (auto simp: load_id_def id_issued_def set_cache_ldb D(1) inv
          intro!: idgen_inv_ldb idgen_inv_set_cache)
  next
    case (StatusError e)
    with eq g show ?thesis
      by (auto simp: load_id_def id_issued_def D(1) inv intro!: idgen_inv_ldb)
  qed
qed

lemma stored_cong: "contents (ldb s) = contents (ldb s') \<Longrightarrow> stored contents s = stored contents s'"
  by (simp add: stored_def fun_eq_iff)

lemma cached_cong: "id_cache s = id_cache s' \<Longrightarrow> cached s = cached s'"
  by (rule ext) (simp only: cached_def)

lemma fetch_id_spec:
  assumes inv: "idgen_inv ops contents s" and b: "bucket_of u = Inr b"
    and eq: "fetch_id ops b u s = (s', r)"
  shows "contents (ldb s') = contents (ldb s)" "idgen_inv ops contents s'"
    "v \<noteq> u \<Longrightarrow> cached s' v = cached s v"
    "id_issued r = Some i \<Longrightarrow> cached s' u = i \<and> i = (if cached s u = 0 then stored contents s u else cached s u)"
    "id_issued r = None \<Longrightarrow> cached s' u = cached s u"
proof -
  let ?i = "case id_cache s b u of None \<Rightarrow> 0 | Some i \<Rightarrow> i"
  let ?s0 = "set_cache b u ?i s"
  have c: "?i = cached s u" by (simp add: cached_def b)
  have inv0: "idgen_inv ops contents ?s0" using inv c by (simp add: idgen_inv_set_cache)
  have "contents (ldb s') = contents (ldb s) \<and> idgen_inv ops contents s' \<and>
    (\<forall>v. v \<noteq> u \<longrightarrow> cached s' v = cached s v) \<and>
    (case id_issued r of Some i \<Rightarrow> cached s' u = i \<and> i = (if cached s u = 0 then stored contents s u else cached s u)
      | None \<Rightarrow> cached s' u = cached s u)"
  proof (cases "?i = 0")
    case True
    then have l: "load_id ops b u ?s0 = (s', r)" using eq by (simp add: fetch_id_def Let_def)
    from load_id_spec [OF inv0 l] True c show ?thesis
      by (auto simp: cached_set_cache [OF b] dest!: cached_cong split: option.splits)
  next
    case False
    then have "s' = ?s0" "r = Inr (StatusOK, ?i)" using eq by (simp_all add: fetch_id_def Let_def)
    with inv0 False c show ?thesis by (simp add: cached_set_cache [OF b] id_issued_def)
  qed
  then show "contents (ldb s') = contents (ldb s)" "idgen_inv ops contents s'"
    "v \<noteq> u \<Longrightarrow> cached s' v = cached s v"
    "id_issued r = Some i \<Longrightarrow> cached s' u = i \<and> i = (if cached s u = 0 then stored contents s u else cached s u)"
    "id_issued r = None \<Longrightarrow> cached s' u = cached s u"
    by auto
qed

lemma smod_nonneg: "0 \<le> (a::int) \<Longrightarrow> 1 \<le> N \<Longrightarrow> a smod N = a mod N"
  by (simp add: smod_int_alt_def sgn_if)

lemma sdiv_nonneg: "0 \<le> (a::int) \<Longrightarrow> 1 \<le> N \<Longrightarrow> a sdiv N = a div N"
  by (cases "a = 0") (simp_all add: signed_divide_int_def sgn_if)

lemma block_end_eq: "block_end N i n = Inr e \<Longrightarrow> e = (i + n + N - 1) sdiv N * N \<and> in_i64 e"
  unfolding block_end_def fbind_def i64_def
  by (simp split: if_split_asm)

lemma round_up:
  assumes "e = x div N * N" "1 \<le> (N::int)"
  shows "x - N < e" "e \<le> x" "N dvd e"
proof -
  have m: "x = e + x mod N" unfolding assms(1) by (simp only: div_mult_mod_eq)
  have b: "0 \<le> x mod N" "x mod N < N" using assms(2) by simp_all
  show "x - N < e" "e \<le> x" using m b by linarith+
  show "N dvd e" by (simp add: assms(1))
qed

lemma block_end_Inr:
  assumes eq: "block_end N i n = Inr e" and p: "0 \<le> i" "1 \<le> n" "1 \<le> N"
  shows "e = (i + n + N - 1) div N * N" "i + n \<le> e" "e < i + n + N" "N dvd e" "good_id e"
proof -
  have x: "0 \<le> i + n + N - 1" using p by linarith
  have e: "e = (i + n + N - 1) div N * N"
    using conjunct1 [OF block_end_eq [OF eq]] unfolding sdiv_nonneg [OF x p(3)] .
  note r = conjunct2 [OF block_end_eq [OF eq]]
  note u = round_up [OF e p(3)]
  show "e = (i + n + N - 1) div N * N" by (rule e)
  show lo: "i + n \<le> e" using u by linarith
  show "e < i + n + N" using u by linarith
  show "N dvd e" by (rule u)
  show "good_id e" using r lo p unfolding good_id_def by linarith
qed
lemma hand_out_spec:
  assumes inv: "idgen_inv ops contents s" and b: "bucket_of u = Inr b" and i: "0 \<le> i" and n: "1 \<le> n"
    and eq: "hand_out b u i n s = (s', r)"
  shows "idgen_inv ops contents s' \<and> ldb s' = ldb s \<and> (\<forall>v. v \<noteq> u \<longrightarrow> cached s' v = cached s v) \<and>
    (case id_issued r of Some start \<Rightarrow> start = i + 1 \<and> cached s' u = i + n | None \<Rightarrow> s' = s)"
proof (cases "in_i64 (i + 1) \<and> in_i64 (i + n)")
  case True
  then have "hand_out b u i n s = (set_cache b u (i + n) s, Inr (StatusOK, i + 1))"
    by (simp add: hand_out_def i64_def)
  with eq have "s' = set_cache b u (i + n) s" "r = Inr (StatusOK, i + 1)" by simp_all
  moreover have "good_id (i + n)" using True i n by (simp add: good_id_def)
  ultimately show ?thesis using inv by (simp add: cached_set_cache [OF b] idgen_inv_set_cache)
next
  case False
  then have "s' = s" "id_issued r = None"
    using eq by (auto simp: hand_out_def i64_def id_issued_def split: if_splits)
  with inv show ?thesis by simp
qed

lemma reserve_spec:
  assumes inv: "idgen_inv ops contents s" and "0 \<le> i" "1 \<le> n" "1 \<le> N"
    and eq: "reserve ops N u i n s = (s', r)"
  shows "idgen_inv ops contents s' \<and> id_cache s' = id_cache s \<and>
    (contents (ldb s') = contents (ldb s) \<and> r \<noteq> Inr StatusOK \<or>
     (\<exists>e. block_end N i n = Inr e \<and>
       contents (ldb s') = (contents (ldb s))(to_string u \<mapsto> to_string e)))"
proof (cases "block_end N i n")
  case (Inl f)
  with eq inv show ?thesis by (auto simp: reserve_def)
next
  case (Inr e)
  obtain st d where p: "ldb_Put ops (ldb s) (to_string u) (to_string e) = (st, d)" by fastforce
  then have s': "s' = s\<lparr>ldb := d\<rparr>" and r: "r = Inr st"
    using eq Inr by (auto simp: reserve_def)
  note e = block_end_Inr [OF Inr assms(2-4)]
  from leveldb_PutD [OF idgen_inv_ok [OF inv] p] show ?thesis
  proof
    assume "contents d = contents (ldb s) \<and> st \<noteq> StatusOK"
    then show ?thesis using inv s' r by (auto intro: idgen_inv_ldb)
  next
    assume "contents d = (contents (ldb s))(to_string u \<mapsto> to_string e)"
    then show ?thesis using inv s' r Inr e(5) by (auto intro: idgen_inv_ldb_upd)
  qed
qed

definition next_base :: "('d \<Rightarrow> string \<Rightarrow> string option) \<Rightarrow> 'd idgen \<Rightarrow> int \<Rightarrow> int" where
  "next_base contents s u = (if cached s u = 0 then stored contents s u else cached s u)"

definition reserves :: "int \<Rightarrow> 'd idgen \<Rightarrow> int \<Rightarrow> int \<Rightarrow> bool" where
  "reserves N s u need \<longleftrightarrow> cached s u = 0 \<or> cached s u mod N + need > N"

lemma needs_put_Inr:
  assumes "needs_put N (cached s u = 0) i n = Inr p" "cached s u \<noteq> 0 \<Longrightarrow> i = cached s u" "0 \<le> i" "1 \<le> N"
  shows "p \<longleftrightarrow> reserves N s u n"
  using assms by (auto simp: needs_put_def reserves_def fbind_Inr smod_nonneg split: if_splits)

lemma update_db_cached:
  "bucket_of u = Inr b \<Longrightarrow>
   (case id_cache s b u of None \<Rightarrow> True | Some i \<Rightarrow> i = 0) \<longleftrightarrow> cached s u = 0"
  by (simp add: cached_def split: option.split)

text \<open>
  The complete description of one call: the invariant, the frame, the block that is
  handed out, and what the call leaves in leveldb.
\<close>

definition call_spec ::
  "'d leveldb \<Rightarrow> ('d \<Rightarrow> string \<Rightarrow> string option) \<Rightarrow> int \<Rightarrow> 'd idgen \<Rightarrow> int \<Rightarrow> int \<Rightarrow>
   'd idgen \<Rightarrow> fault + status \<times> int \<Rightarrow> bool" where
  "call_spec ops contents N s u n s' r \<longleftrightarrow>
     idgen_inv ops contents s' \<and>
     (\<forall>v. v \<noteq> u \<longrightarrow> cached s' v = cached s v) \<and>
     (case id_issued r of
        Some start \<Rightarrow> start = next_base contents s u + 1 \<and> cached s' u = next_base contents s u + n
      | None \<Rightarrow> cached s' u = cached s u \<or> cached s' u = next_base contents s u) \<and>
     (contents (ldb s') = contents (ldb s) \<and> (id_issued r \<noteq> None \<longrightarrow> \<not> reserves N s u n) \<or>
      (\<exists>e. block_end N (next_base contents s u) n = Inr e \<and> reserves N s u n \<and>
        contents (ldb s') = (contents (ldb s))(to_string u \<mapsto> to_string e)))"

lemma call_specD:
  assumes "call_spec ops contents N s u n s' r"
  shows "idgen_inv ops contents s'" "v \<noteq> u \<Longrightarrow> cached s' v = cached s v"
    "id_issued r = Some start \<Longrightarrow> start = next_base contents s u + 1"
    "id_issued r = Some start \<Longrightarrow> cached s' u = next_base contents s u + n"
    "id_issued r = None \<Longrightarrow> cached s' u = cached s u \<or> cached s' u = next_base contents s u"
  using assms by (auto simp: call_spec_def)

lemma IdGenerate_spec:
  assumes inv: "idgen_inv ops contents s" and n: "1 \<le> n" and N: "1 \<le> N"
    and eq: "IdGenerate ops N s u n = (s', r)"
  shows "call_spec ops contents N s u n s' r"
proof (cases "bucket_of u")
  case (Inl f)
  with eq inv show ?thesis by (auto simp: IdGenerate_def call_spec_def id_issued_def)
next
  case (Inr b)
  obtain s1 q where f: "fetch_id ops b u s = (s1, q)" by fastforce
  note F = fetch_id_spec [OF inv Inr f]
  show ?thesis
  proof (cases "id_issued q")
    case None
    then have "s' = s1" "id_issued r = None"
      using eq Inr f
      by (auto simp: IdGenerate_def update_db_cached [OF Inr] id_issued_def split: sum.splits if_splits)
    with F None show ?thesis by (simp add: call_spec_def)
  next
    case (Some i)
    then have q: "q = Inr (StatusOK, i)" by simp
    have i: "cached s1 u = i" "i = next_base contents s u"
      using F(4) [OF Some] by (simp_all add: next_base_def)
    have i0: "0 \<le> i" using F(2) i(1) good_id_cached good_idD(1) by blast
    have base: "cached s u \<noteq> 0 \<Longrightarrow> i = cached s u" using i(2) by (simp add: next_base_def)
    show ?thesis
    proof (cases "needs_put N (cached s u = 0) i n")
      case (Inl f')
      then have "s' = s1" "id_issued r = None"
        using eq Inr f q by (auto simp: IdGenerate_def update_db_cached [OF Inr] id_issued_def)
      with F i show ?thesis by (simp add: call_spec_def)
    next
      case p: (Inr p)
      note res = needs_put_Inr [OF p base i0 N]
      show ?thesis
      proof (cases p)
        case False
        then have "hand_out b u i n s1 = (s', r)"
          using eq Inr f q p by (simp add: IdGenerate_def update_db_cached [OF Inr])
        from hand_out_spec [OF F(2) Inr i0 n this] F(1,3) i False res show ?thesis
          by (auto simp: call_spec_def split: option.splits)
      next
        case True
        obtain s2 q2 where r2: "reserve ops N u i n s1 = (s2, q2)" by fastforce
        from reserve_spec [OF F(2) i0 n N r2]
        have R: "idgen_inv ops contents s2" "cached s2 = cached s1"
          "contents (ldb s2) = contents (ldb s) \<and> q2 \<noteq> Inr StatusOK \<or>
           (\<exists>e. block_end N i n = Inr e \<and> contents (ldb s2) = (contents (ldb s))(to_string u \<mapsto> to_string e))"
          using F(1) by (auto dest: cached_cong)
        show ?thesis
        proof (cases "q2 = Inr StatusOK")
          case True
          then have "hand_out b u i n s2 = (s', r)"
            using eq Inr f q p \<open>p\<close> r2 by (simp add: IdGenerate_def update_db_cached [OF Inr])
          from hand_out_spec [OF R(1) Inr i0 n this] R F(3) i True res \<open>p\<close> show ?thesis
            by (auto simp: call_spec_def split: option.splits)
        next
          case False
          then have "s' = s2" "id_issued r = None"
            using eq Inr f q p \<open>p\<close> r2
            by (auto simp: IdGenerate_def update_db_cached [OF Inr] id_issued_def
                split: sum.splits if_splits)
          with R F(3) i res \<open>p\<close> show ?thesis by (auto simp: call_spec_def)
        qed
      qed
    qed
  qed
qed

section \<open>The interface of an id allocator\<close>

text \<open>
  What the callers of the generator rely on: \<open>last_id s u\<close> never decreases, a block that
  is handed out starts above it and moves it to the block's end, and other users are not
  touched. \<open>run_requests\<close> is a sequence of calls to one process, with its log.
\<close>

fun run_requests :: "('s \<Rightarrow> int \<Rightarrow> int \<Rightarrow> 's \<times> 'r) \<Rightarrow> 's \<Rightarrow> (int \<times> int) list \<Rightarrow> 's \<times> (int \<times> int \<times> 'r) list" where
  "run_requests gen s [] = (s, [])"
| "run_requests gen s ((u, n) # rs) =
     (case gen s u n of (s', r) \<Rightarrow>
       (case run_requests gen s' rs of (s'', log) \<Rightarrow> (s'', (u, n, r) # log)))"

definition block_ids :: "int \<Rightarrow> int \<Rightarrow> int list" where
  "block_ids start n = [start..start + n - 1]"

fun ids_of :: "('r \<Rightarrow> int option) \<Rightarrow> int \<Rightarrow> (int \<times> int \<times> 'r) list \<Rightarrow> int list" where
  "ids_of issued u [] = []"
| "ids_of issued u ((v, n, r) # log) =
     (case issued r of None \<Rightarrow> [] | Some i \<Rightarrow> if v = u then block_ids i n else []) @ ids_of issued u log"

locale id_allocator =
  fixes gen :: "'s \<Rightarrow> int \<Rightarrow> int \<Rightarrow> 's \<times> 'r"
    and issued :: "'r \<Rightarrow> int option"
    and last_id :: "'s \<Rightarrow> int \<Rightarrow> int"
    and inv :: "'s \<Rightarrow> bool"
  assumes gen_inv: "inv s \<Longrightarrow> 1 \<le> n \<Longrightarrow> gen s u n = (s', r) \<Longrightarrow> inv s'"
    and gen_issue: "inv s \<Longrightarrow> 1 \<le> n \<Longrightarrow> gen s u n = (s', r) \<Longrightarrow> issued r = Some i \<Longrightarrow>
      last_id s u < i \<and> last_id s' u = i + n - 1"
    and gen_frame: "inv s \<Longrightarrow> 1 \<le> n \<Longrightarrow> gen s u n = (s', r) \<Longrightarrow> v \<noteq> u \<Longrightarrow> last_id s' v = last_id s v"
    and gen_mono: "inv s \<Longrightarrow> 1 \<le> n \<Longrightarrow> gen s u n = (s', r) \<Longrightarrow> last_id s u \<le> last_id s' u"
begin

lemma run_inv:
  "inv s \<Longrightarrow> \<forall>(u, n) \<in> set rs. 1 \<le> n \<Longrightarrow> run_requests gen s rs = (s', log) \<Longrightarrow> inv s'"
proof (induction rs arbitrary: s log)
  case (Cons a rs)
  obtain u n where a: "a = (u, n)" by fastforce
  obtain s1 r where g: "gen s u n = (s1, r)" by fastforce
  obtain log' where l: "run_requests gen s1 rs = (s', log')"
    using Cons.prems(3) a g by (auto split: prod.splits)
  show ?case
    using Cons.IH [OF gen_inv [OF Cons.prems(1) _ g] _ l] Cons.prems(2) a by simp
qed simp

lemma run_mono:
  "inv s \<Longrightarrow> \<forall>(u, n) \<in> set rs. 1 \<le> n \<Longrightarrow> run_requests gen s rs = (s', log) \<Longrightarrow> last_id s v \<le> last_id s' v"
proof (induction rs arbitrary: s log)
  case (Cons a rs)
  obtain u n where a: "a = (u, n)" by fastforce
  obtain s1 r where g: "gen s u n = (s1, r)" by fastforce
  obtain log' where l: "run_requests gen s1 rs = (s', log')"
    using Cons.prems(3) a g by (auto split: prod.splits)
  have n: "1 \<le> n" using Cons.prems(2) a by simp
  have "last_id s v \<le> last_id s1 v"
    using gen_mono [OF Cons.prems(1) n g] gen_frame [OF Cons.prems(1) n g, of v] by (cases "v = u") auto
  also have "\<dots> \<le> last_id s' v"
    using Cons.IH [OF gen_inv [OF Cons.prems(1) n g] _ l] Cons.prems(2) by simp
  finally show ?case .
qed simp

lemma run_ids:
  "inv s \<Longrightarrow> \<forall>(u, n) \<in> set rs. 1 \<le> n \<Longrightarrow> run_requests gen s rs = (s', log) \<Longrightarrow>
   sorted_wrt (<) (ids_of issued v log) \<and> (\<forall>x \<in> set (ids_of issued v log). last_id s v < x \<and> x \<le> last_id s' v)"
proof (induction rs arbitrary: s log)
  case (Cons a rs)
  obtain u n where a: "a = (u, n)" by fastforce
  obtain s1 r where g: "gen s u n = (s1, r)" by fastforce
  obtain log' where l: "run_requests gen s1 rs = (s', log')" and log: "log = (u, n, r) # log'"
    using Cons.prems(3) a g by (auto split: prod.splits)
  have n: "1 \<le> n" and rs: "\<forall>(u, n) \<in> set rs. 1 \<le> n" using Cons.prems(2) a by simp_all
  note i1 = gen_inv [OF Cons.prems(1) n g]
  note IH = Cons.IH [OF i1 rs l]
  note m = run_mono [OF i1 rs l, of v]
  note m0 = gen_mono [OF Cons.prems(1) n g]
  show ?case
  proof (cases "v = u \<and> issued r \<noteq> None")
    case True
    then obtain i where i: "issued r = Some i" and v: "v = u" by blast
    note I = gen_issue [OF Cons.prems(1) n g i]
    have "sorted_wrt (<) (block_ids i n)" by (simp add: block_ids_def)
    moreover have "\<forall>x \<in> set (block_ids i n). last_id s u < x \<and> x \<le> last_id s1 u"
      using I by (auto simp: block_ids_def)
    ultimately show ?thesis using IH m I n unfolding log v ids_of.simps i
      by (fastforce simp: sorted_wrt_append)
  next
    case False
    then have "ids_of issued v log = ids_of issued v log'"
      unfolding log by (auto split: option.splits)
    moreover have "last_id s v \<le> last_id s1 v"
      using m0 gen_frame [OF Cons.prems(1) n g, of v] by (cases "v = u") auto
    ultimately show ?thesis using IH by fastforce
  qed
qed simp

end

lemma IdGenerate_mono:
  assumes "idgen_inv ops contents s" "1 \<le> n" "1 \<le> N" "IdGenerate ops N s u n = (s', r)"
  shows "cached s u \<le> cached s' u"
proof (cases "id_issued r")
  case None
  with call_specD(5) [OF IdGenerate_spec [OF assms] None] show ?thesis
    using good_idD(1) [OF good_id_stored [OF assms(1), of u]] by (auto simp: next_base_def)
next
  case (Some i)
  with call_specD(4) [OF IdGenerate_spec [OF assms] Some] show ?thesis
    using good_idD(1) [OF good_id_stored [OF assms(1), of u]] assms(2) by (auto simp: next_base_def)
qed

lemma next_base_ge: "idgen_inv ops contents s \<Longrightarrow> cached s u \<le> next_base contents s u"
  using good_idD(1) [OF good_id_stored [of ops contents s u]] by (simp add: next_base_def)

interpretation idg: id_allocator "IdGenerate ops N" id_issued cached
  "\<lambda>s. idgen_inv ops contents s \<and> 1 \<le> N" for ops N contents
proof unfold_locales
  fix s s' :: "'a idgen" and n u v i r
  assume inv: "idgen_inv ops contents s \<and> 1 \<le> N" and n: "1 \<le> n" and g: "IdGenerate ops N s u n = (s', r)"
  note C = IdGenerate_spec [OF conjunct1 [OF inv] n conjunct2 [OF inv] g]
  show "idgen_inv ops contents s' \<and> 1 \<le> N" using call_specD(1) [OF C] inv by simp
  show "cached s u \<le> cached s' u" using inv by (auto intro: IdGenerate_mono [OF _ n _ g])
  show "v \<noteq> u \<Longrightarrow> cached s' v = cached s v" by (rule call_specD(2) [OF C])
  show "id_issued r = Some i \<Longrightarrow> cached s u < i \<and> cached s' u = i + n - 1"
    using call_specD(3,4) [OF C, of i] next_base_ge [OF conjunct1 [OF inv], of u] by simp
qed

end
