(* ===== verification/Messages.thy ===== *)
theory Messages
  imports Prelude
begin

text \<open>
  The messages that the servers exchange (\<^verbatim>\<open>common/messages.proto\<close>, \<^verbatim>\<open>dbproxy.proto\<close>), one
  record per message, and the rows of the tables of \<^verbatim>\<open>db.sql\<close>. A proto3 field that is not
  set reads as 0, the empty string or the empty list, which is what the handlers that leave
  a field alone write here.
\<close>

type_synonym user_id_t = int
type_synonym msg_id_t = int
type_synonym group_id_t = int

datatype MsgType = PRIVATE | GROUP

record SigninData =
  sd_user_id :: user_id_t
  sd_password :: string
  sd_client_timestamp :: int
  sd_access_addr :: string

record UserLastSendData =
  ul_user_id :: user_id_t
  ul_msg_id :: msg_id_t
  ul_client_time :: int
  ul_msg_time :: int

record NewMsg =
  nm_user_id :: user_id_t
  nm_peer_id :: int
  nm_msg_type :: MsgType
  nm_message :: string
  nm_client_time :: int
  nm_msg_time :: int

record UserInfo =
  ui_user_id :: user_id_t
  ui_name :: string

record GroupInfo =
  gi_group_id :: group_id_t
  gi_name :: string

record UserAndMsgId =
  um_user_id :: user_id_t
  um_msg_id :: msg_id_t

record NewPrivateMsg =
  npm_sender :: user_id_t
  npm_sender_msg_id :: msg_id_t
  npm_receiver :: user_id_t
  npm_receiver_msg_id :: msg_id_t
  npm_message :: string
  npm_msg_time :: int
  npm_client_time :: int

record NewGroupMsg =
  ngm_group_id :: group_id_t
  ngm_user_and_msgids :: "UserAndMsgId list"
  ngm_sender_user_id :: user_id_t
  ngm_sender_msg_id :: msg_id_t
  ngm_message :: string
  ngm_msg_time :: int
  ngm_client_time :: int

record Msg =
  m_user_id :: user_id_t
  m_msg_id :: msg_id_t
  m_sender :: user_id_t
  m_receiver :: int
  m_message :: string
  m_group_id :: group_id_t
  m_client_time :: int
  m_msg_time :: int

record MsgReply =
  mr_msg_id :: msg_id_t
  mr_last_msg_id :: msg_id_t
  mr_msg_time :: int

record MsgIdRange =
  ra_user_id :: user_id_t
  ra_start_msg_id :: msg_id_t
  ra_end_msg_id :: msg_id_t

record Session =
  se_has_session :: bool
  se_user_id :: user_id_t
  se_addr :: string

section \<open>Rows\<close>

record msg_row =
  r_user_id :: user_id_t
  r_sender :: user_id_t
  r_receiver :: int
  r_msg_id :: msg_id_t
  r_group_id :: group_id_t
  r_message :: string
  r_deleted :: int
  r_client_time :: int
  r_msg_time :: int

record friend_row =
  f_user_id :: user_id_t
  f_peer_id :: user_id_t
  f_peer_name :: string
  f_deleted :: int

record member_row =
  g_group_id :: group_id_t
  g_group_name :: string
  g_user_id :: user_id_t
  g_user_name :: string

record tables =
  t_messages :: "msg_row list"
  t_friends :: "friend_row list"
  t_members :: "member_row list"

text \<open>\<^verbatim>\<open>UNIQUE key (user_id, sender, client_time)\<close> of the table \<^verbatim>\<open>messages\<close>.\<close>

definition unique_key :: "msg_row \<Rightarrow> user_id_t \<times> user_id_t \<times> int" where
  "unique_key r = (r_user_id r, r_sender r, r_client_time r)"

definition unique_rows :: "msg_row list \<Rightarrow> bool" where
  "unique_rows rs \<longleftrightarrow> distinct (map unique_key rs)"

definition keys_free :: "msg_row list \<Rightarrow> msg_row list \<Rightarrow> bool" where
  "keys_free old new \<longleftrightarrow> unique_rows new \<and> set (map unique_key new) \<inter> set (map unique_key old) = {}"

lemma unique_rows_append: "unique_rows (old @ new) \<longleftrightarrow> unique_rows old \<and> keys_free old new"
  by (auto simp: unique_rows_def keys_free_def)

lemma keys_free_Cons_clash: "unique_key r \<in> unique_key ` set old \<Longrightarrow> \<not> keys_free old (r # new)"
  by (simp add: keys_free_def)

end
