(* ===== verification/Logic.thy ===== *)
theory Logic
  imports IdGen Messages
begin

text \<open>
  The logic server (\<^verbatim>\<open>server/logic/logic_service.cc\<close>). The servers it calls are the fields of
  \<open>stubs\<close>, over the state \<open>'w\<close> of everything behind them. \<open>SendMsg\<close> answers the access server
  and leaves the arguments of the background thread that pushes the message to the
  receivers; \<open>SendtoPeers\<close> is that thread.
\<close>

record 'w stubs =
  st_GetUserLastSendData :: "user_id_t \<Rightarrow> 'w \<Rightarrow> 'w \<times> UserLastSendData result"
  st_IdGenerate :: "UserAndIdNum list \<Rightarrow> 'w \<Rightarrow> 'w \<times> MsgIds list result"
  st_GetGroupMembers :: "group_id_t \<Rightarrow> 'w \<Rightarrow> 'w \<times> UserInfo list result"
  st_SavePrivateMsg :: "NewPrivateMsg \<Rightarrow> 'w \<Rightarrow> 'w \<times> unit result"
  st_SaveGroupMsg :: "NewGroupMsg \<Rightarrow> 'w \<Rightarrow> 'w \<times> unit result"
  st_GetSessions :: "user_id_t list \<Rightarrow> 'w \<Rightarrow> 'w \<times> Session list result"
  st_GetMsgs :: "MsgIdRange \<Rightarrow> 'w \<Rightarrow> 'w \<times> Msg list result"
  st_GetFriends :: "user_id_t \<Rightarrow> 'w \<Rightarrow> 'w \<times> UserInfo list result"
  st_GetGroups :: "user_id_t \<Rightarrow> 'w \<Rightarrow> 'w \<times> GroupInfo list result"

record SendtoPeersArgs =
  pa_id_request :: "UserAndIdNum list"
  pa_id_reply :: "MsgIds list"
  pa_new_msg :: NewMsg
  pa_sender :: user_id_t

section \<open>Sending a message\<close>

definition one_id :: "user_id_t \<Rightarrow> UserAndIdNum" where
  "one_id u = \<lparr>un_user_id = u, un_need_msgid_num = 1\<rparr>"

text \<open>
  The request for ids: the sender first, then the receiver of a private message or the
  members of the group other than the sender.
\<close>

definition id_request_of ::
  "'w stubs \<Rightarrow> NewMsg \<Rightarrow> 'w \<Rightarrow> 'w \<times> UserAndIdNum list result" where
  "id_request_of st new_msg w =
     (case nm_msg_type new_msg of
        PRIVATE \<Rightarrow> (w, Inr [one_id (nm_user_id new_msg), one_id (nm_peer_id new_msg)])
      | GROUP \<Rightarrow> and_then (st_GetGroupMembers st (nm_peer_id new_msg) w)
          (\<lambda>w user_infos. (w, Inr (one_id (nm_user_id new_msg) #
             map (one_id \<circ> ui_user_id) (filter (\<lambda>i. ui_user_id i \<noteq> nm_user_id new_msg) user_infos)))))"

text \<open>\<^verbatim>\<open>id_reply.msg_ids(i)\<close>: an index past the end is undefined.\<close>

definition msg_ids :: "MsgIds list \<Rightarrow> nat \<Rightarrow> fault + MsgIds" where
  "msg_ids reply i = (if i < length reply then Inr (reply ! i) else Inl OutOfBounds)"

definition new_private_msg :: "NewMsg \<Rightarrow> int \<Rightarrow> msg_id_t \<Rightarrow> msg_id_t \<Rightarrow> NewPrivateMsg" where
  "new_private_msg new_msg msg_time sender_msg_id receiver_msg_id =
     \<lparr>npm_sender = nm_user_id new_msg, npm_sender_msg_id = sender_msg_id,
      npm_receiver = nm_peer_id new_msg, npm_receiver_msg_id = receiver_msg_id,
      npm_message = nm_message new_msg, npm_msg_time = msg_time,
      npm_client_time = nm_client_time new_msg\<rparr>"

definition save_private ::
  "'w stubs \<Rightarrow> NewMsg \<Rightarrow> int \<Rightarrow> MsgIds list \<Rightarrow> 'w \<Rightarrow> 'w \<times> MsgReply result" where
  "save_private st new_msg msg_time id_reply w =
     (case (msg_ids id_reply 0, msg_ids id_reply 1) of
        (Inr sender_ids, Inr receiver_ids) \<Rightarrow>
          and_then (st_SavePrivateMsg st
              (new_private_msg new_msg msg_time (mi_start_msg_id sender_ids) (mi_start_msg_id receiver_ids)) w)
            (\<lambda>w _. (w, Inr \<lparr>mr_msg_id = mi_start_msg_id sender_ids,
               mr_last_msg_id = mi_start_msg_id sender_ids, mr_msg_time = msg_time\<rparr>))
      | _ \<Rightarrow> (w, Inl (Fault OutOfBounds)))"

text \<open>The loop keeps the id of the last entry of the sender, 0 without one.\<close>

definition sender_id_of :: "user_id_t \<Rightarrow> MsgIds list \<Rightarrow> msg_id_t" where
  "sender_id_of user_id id_reply =
     fold (\<lambda>r msg_id. if user_id = mi_user_id r then mi_start_msg_id r else msg_id) id_reply 0"

definition new_group_msg :: "NewMsg \<Rightarrow> int \<Rightarrow> MsgIds list \<Rightarrow> NewGroupMsg" where
  "new_group_msg new_msg msg_time id_reply =
     \<lparr>ngm_group_id = nm_peer_id new_msg,
      ngm_user_and_msgids = map (\<lambda>r. \<lparr>um_user_id = mi_user_id r, um_msg_id = mi_start_msg_id r\<rparr>) id_reply,
      ngm_sender_user_id = nm_user_id new_msg,
      ngm_sender_msg_id = sender_id_of (nm_user_id new_msg) id_reply,
      ngm_message = nm_message new_msg, ngm_msg_time = msg_time,
      ngm_client_time = nm_client_time new_msg\<rparr>"

text \<open>
  A failed save reports \<^verbatim>\<open>id_cntl\<close>, the controller of the call before, which has not failed:
  the code 0 and no text. (That is what the code hands to brpc; what brpc makes of the code 0 is not
  in the repository, and no theorem depends on it: an answer that failed has failed.)
\<close>

definition save_group ::
  "'w stubs \<Rightarrow> NewMsg \<Rightarrow> int \<Rightarrow> MsgIds list \<Rightarrow> 'w \<Rightarrow> 'w \<times> MsgReply result" where
  "save_group st new_msg msg_time id_reply w =
     (let msg_id = sender_id_of (nm_user_id new_msg) id_reply in
      case st_SaveGroupMsg st (new_group_msg new_msg msg_time id_reply) w of
        (w1, Inl (Fault f)) \<Rightarrow> (w1, Inl (Fault f))
      | (w1, Inl (Failed _ _)) \<Rightarrow> (w1, Inl (Failed 0 []))
      | (w1, Inr _) \<Rightarrow>
          if msg_id = 0 then (w1, Inl (Fault CheckFailed))
          else (w1, Inr \<lparr>mr_msg_id = msg_id, mr_last_msg_id = msg_id, mr_msg_time = msg_time\<rparr>))"

text \<open>
  \<open>now\<close> is \<^verbatim>\<open>std::time\<close>, kept in 32 bits. The result has the arguments of \<open>SendtoPeers\<close>, none
  for a message that was recognised as sent before.
\<close>

definition SendMsg ::
  "'w stubs \<Rightarrow> int \<Rightarrow> NewMsg \<Rightarrow> 'w \<Rightarrow> 'w \<times> (MsgReply \<times> SendtoPeersArgs option) result" where
  "SendMsg st now new_msg w =
     and_then (st_GetUserLastSendData st (nm_user_id new_msg) w) (\<lambda>w last_send_data.
       if ul_client_time last_send_data = nm_client_time new_msg
       then (w, Inr (\<lparr>mr_msg_id = ul_msg_id last_send_data, mr_last_msg_id = 0,
                      mr_msg_time = ul_msg_time last_send_data\<rparr>, None))
       else
         and_then (id_request_of st new_msg w) (\<lambda>w id_request.
         and_then (st_IdGenerate st id_request w) (\<lambda>w id_reply.
         let msg_time = to_i32 now in
         and_then (case nm_msg_type new_msg of
             PRIVATE \<Rightarrow> save_private st new_msg msg_time id_reply w
           | GROUP \<Rightarrow> save_group st new_msg msg_time id_reply w) (\<lambda>w reply.
         (w, Inr (reply, Some \<lparr>pa_id_request = id_request, pa_id_reply = id_reply,
            pa_new_msg = new_msg\<lparr>nm_msg_time := msg_time\<rparr>, pa_sender = nm_user_id new_msg\<rparr>))))))"

section \<open>Pushing it to the receivers\<close>

text \<open>
  \<^verbatim>\<open>access_map_\<close> holds a channel per address; here it is the set of addresses, and a channel
  is its address. The vector has one channel per session that is there, in order.
\<close>

fun channels_for :: "Session list \<Rightarrow> string set \<Rightarrow> string list \<times> string set" where
  "channels_for [] access_map = ([], access_map)"
| "channels_for (s # ss) access_map =
     (if se_has_session s
      then (case channels_for ss (insert (se_addr s) access_map) of (vec, m) \<Rightarrow> (se_addr s # vec, m))
      else channels_for ss access_map)"

definition c_str :: "string \<Rightarrow> string" where
  "c_str s = takeWhile (\<lambda>c. c \<noteq> CHR 0x00) s"

definition peer_msg :: "NewMsg \<Rightarrow> user_id_t \<Rightarrow> user_id_t \<Rightarrow> msg_id_t \<Rightarrow> Msg" where
  "peer_msg new_msg sender user_id msg_id =
     \<lparr>m_user_id = user_id, m_msg_id = msg_id, m_sender = sender, m_receiver = user_id,
      m_message = c_str (nm_message new_msg),
      m_group_id = (case nm_msg_type new_msg of PRIVATE \<Rightarrow> 0 | GROUP \<Rightarrow> nm_peer_id new_msg),
      m_client_time = nm_client_time new_msg, m_msg_time = nm_msg_time new_msg\<rparr>"

text \<open>
  The second loop: \<open>i\<close> goes over the sessions, \<open>j\<close> over the channels, and the ids of the
  receivers start at 1. Each call is asynchronous; the result is the calls, in order.
\<close>

fun send_loop ::
  "SendtoPeersArgs \<Rightarrow> user_id_t list \<Rightarrow> 'c list \<Rightarrow> nat \<Rightarrow> nat \<Rightarrow> Session list \<Rightarrow>
   fault + ('c \<times> Msg) list" where
  "send_loop args user_ids channel_vec i j [] = Inr []"
| "send_loop args user_ids channel_vec i j (s # ss) =
     (if \<not> se_has_session s then send_loop args user_ids channel_vec (Suc i) j ss
      else if length user_ids \<le> i then Inl OutOfBounds
      else fbind (msg_ids (pa_id_reply args) (i + 1)) (\<lambda>ids.
        if length channel_vec \<le> j then Inl OutOfBounds
        else fbind (send_loop args user_ids channel_vec (Suc i) (Suc j) ss) (\<lambda>calls.
          Inr ((channel_vec ! j, peer_msg (pa_new_msg args) (pa_sender args) (user_ids ! i) (mi_start_msg_id ids))
               # calls))))"

text \<open>A failed \<open>GetSessions\<close> ends the thread.\<close>

definition SendtoPeers ::
  "'w stubs \<Rightarrow> SendtoPeersArgs \<Rightarrow> 'w \<Rightarrow> string set \<Rightarrow> 'w \<times> string set \<times> (fault + (string \<times> Msg) list)" where
  "SendtoPeers st args w access_map =
     (let user_ids = map un_user_id (drop 1 (pa_id_request args)) in
      case st_GetSessions st user_ids w of
        (w1, Inl (Fault f)) \<Rightarrow> (w1, access_map, Inl f)
      | (w1, Inl (Failed _ _)) \<Rightarrow> (w1, access_map, Inr [])
      | (w1, Inr sessions) \<Rightarrow>
          (case channels_for sessions access_map of (channel_vec, access_map1) \<Rightarrow>
            (w1, access_map1, send_loop args user_ids channel_vec 0 0 sessions)))"

section \<open>The handlers that forward\<close>

text \<open>\<^verbatim>\<open>PullData\<close> is a TODO that answers nothing.\<close>

definition logic_PullData :: "user_id_t \<Rightarrow> 'w \<Rightarrow> 'w \<times> Msg list result" where
  "logic_PullData user_id w = (w, Inr [])"

definition logic_GetMsgs :: "'w stubs \<Rightarrow> MsgIdRange \<Rightarrow> 'w \<Rightarrow> 'w \<times> Msg list result" where
  "logic_GetMsgs st msg_range w = st_GetMsgs st msg_range w"

definition logic_GetFriends :: "'w stubs \<Rightarrow> user_id_t \<Rightarrow> 'w \<Rightarrow> 'w \<times> UserInfo list result" where
  "logic_GetFriends st user_id w = st_GetFriends st user_id w"

definition logic_GetGroups :: "'w stubs \<Rightarrow> user_id_t \<Rightarrow> 'w \<Rightarrow> 'w \<times> GroupInfo list result" where
  "logic_GetGroups st user_id w = st_GetGroups st user_id w"

definition logic_GetGroupMembers :: "'w stubs \<Rightarrow> group_id_t \<Rightarrow> 'w \<Rightarrow> 'w \<times> UserInfo list result" where
  "logic_GetGroupMembers st group_id w = st_GetGroupMembers st group_id w"

end
