(* ===== verification/DbProxy.thy ===== *)
theory DbProxy
  imports Decimal Messages "HOL-Library.Multiset"
begin

text \<open>
  The database proxy (\<^verbatim>\<open>server/dbproxy/dbproxy_service.cc\<close>): every handler of
  \<^verbatim>\<open>DbproxyServiceImpl\<close> over a redis and a MySQL server. The two servers and redis's
  \<^verbatim>\<open>cjson\<close> are not part of the sources: their operations are the fields of the parameters
  \<open>redis\<close>, \<open>mysql\<close> and \<open>cjson\<close>, with what their documentation promises in \<open>redis_ok\<close>,
  \<open>mysql_ok\<close> and \<open>cjson_ok\<close>. The statements that the code sends them (the \<^verbatim>\<open>INSERT\<close>s, the
  \<^verbatim>\<open>WHERE\<close> clauses, the Lua script, the keys) are translated.
\<close>

section \<open>MySQL\<close>

text \<open>
  One \<^verbatim>\<open>INSERT\<close> statement carries a list of rows; a \<^verbatim>\<open>SELECT\<close> carries its \<^verbatim>\<open>WHERE\<close> clause
  as a predicate, which may also look at the whole table (for a subquery). An error is the
  text of the exception.
\<close>

record 'q mysql =
  sql_insert :: "'q \<Rightarrow> msg_row list \<Rightarrow> 'q \<times> string option"
  sql_messages :: "'q \<Rightarrow> (msg_row list \<Rightarrow> msg_row \<Rightarrow> bool) \<Rightarrow> 'q \<times> (string + msg_row list)"
  sql_friends :: "'q \<Rightarrow> (friend_row \<Rightarrow> bool) \<Rightarrow> 'q \<times> (string + friend_row list)"
  sql_members :: "'q \<Rightarrow> (member_row \<Rightarrow> bool) \<Rightarrow> 'q \<times> (string + member_row list)"

text \<open>
  A statement is atomic: it adds all of its rows, which then clash with no unique key, or
  none. A statement that reports an error may still have been carried out (the connection
  may break before the answer), one that reports success has been.
\<close>

definition insert_ok :: "'q mysql \<Rightarrow> ('q \<Rightarrow> tables) \<Rightarrow> bool" where
  "insert_ok ops view \<longleftrightarrow> (\<forall>q rs q' e. sql_insert ops q rs = (q', e) \<longrightarrow>
     (view q' = view q \<and> e \<noteq> None) \<or>
     (view q' = (view q)\<lparr>t_messages := t_messages (view q) @ rs\<rparr> \<and> keys_free (t_messages (view q)) rs))"

definition select_ok :: "'q mysql \<Rightarrow> ('q \<Rightarrow> tables) \<Rightarrow> bool" where
  "select_ok ops view \<longleftrightarrow>
     (\<forall>q P q' r. sql_messages ops q P = (q', r) \<longrightarrow> view q' = view q \<and>
        (\<forall>rs. r = Inr rs \<longrightarrow> mset rs = mset (filter (P (t_messages (view q))) (t_messages (view q))))) \<and>
     (\<forall>q P q' r. sql_friends ops q P = (q', r) \<longrightarrow> view q' = view q \<and>
        (\<forall>rs. r = Inr rs \<longrightarrow> mset rs = mset (filter P (t_friends (view q))))) \<and>
     (\<forall>q P q' r. sql_members ops q P = (q', r) \<longrightarrow> view q' = view q \<and>
        (\<forall>rs. r = Inr rs \<longrightarrow> mset rs = mset (filter P (t_members (view q)))))"

definition mysql_ok :: "'q mysql \<Rightarrow> ('q \<Rightarrow> tables) \<Rightarrow> bool" where
  "mysql_ok ops view \<longleftrightarrow> insert_ok ops view \<and> select_ok ops view"

section \<open>Redis\<close>

datatype redis_reply =
    RString string
  | RNil
  | RInt int
  | RStatus string
  | RError string
  | RArray "redis_reply list"

text \<open>
  What happens to one command: the server answers, it answers with an error without
  running the command, it is not reached, or its answer is lost.
\<close>

datatype link = Answered | Refused string | Unreached int string | AnswerLost int string

record 'r redis =
  rd_get :: "'r \<Rightarrow> string \<Rightarrow> string option"
  rd_setex :: "'r \<Rightarrow> string \<Rightarrow> int \<Rightarrow> string \<Rightarrow> 'r"
  rd_del :: "'r \<Rightarrow> string \<Rightarrow> 'r"
  rd_link :: "'r \<Rightarrow> link \<times> 'r"

text \<open>Between two commands time passes, so a key may have expired.\<close>

definition redis_ok :: "'r redis \<Rightarrow> bool" where
  "redis_ok ops \<longleftrightarrow>
     (\<forall>r k t v k'. rd_get ops (rd_setex ops r k t v) k' = (if k' = k then Some v else rd_get ops r k')) \<and>
     (\<forall>r k k'. rd_get ops (rd_del ops r k) k' = (if k' = k then None else rd_get ops r k')) \<and>
     (\<forall>r l r' k. rd_link ops r = (l, r') \<longrightarrow> rd_get ops r' k = rd_get ops r k \<or> rd_get ops r' k = None)"

definition redis_call :: "'r redis \<Rightarrow> ('r \<Rightarrow> 'r \<times> redis_reply) \<Rightarrow> 'r \<Rightarrow> 'r \<times> redis_reply result" where
  "redis_call ops cmd r =
     (case rd_link ops r of (l, r1) \<Rightarrow>
       (case l of
          Answered \<Rightarrow> (fst (cmd r1), Inr (snd (cmd r1)))
        | Refused e \<Rightarrow> (r1, Inr (RError e))
        | Unreached c t \<Rightarrow> (r1, Inl (Failed c t))
        | AnswerLost c t \<Rightarrow> (fst (cmd r1), Inl (Failed c t))))"

definition bulk :: "string option \<Rightarrow> redis_reply" where
  "bulk v = (case v of None \<Rightarrow> RNil | Some s \<Rightarrow> RString s)"

definition cmd_set_ex :: "'r redis \<Rightarrow> string \<Rightarrow> string \<Rightarrow> int \<Rightarrow> 'r \<Rightarrow> 'r \<times> redis_reply" where
  "cmd_set_ex ops key value ttl r = (rd_setex ops r key ttl value, RStatus ''OK'')"

definition cmd_get :: "'r redis \<Rightarrow> string \<Rightarrow> 'r \<Rightarrow> 'r \<times> redis_reply" where
  "cmd_get ops key r = (r, bulk (rd_get ops r key))"

definition cmd_mget :: "'r redis \<Rightarrow> string list \<Rightarrow> 'r \<Rightarrow> 'r \<times> redis_reply" where
  "cmd_mget ops keys r = (r, if keys = [] then RError ''wrong number of arguments''
     else RArray (map (\<lambda>k. bulk (rd_get ops r k)) keys))"

definition cmd_del :: "'r redis \<Rightarrow> string \<Rightarrow> 'r \<Rightarrow> 'r \<times> redis_reply" where
  "cmd_del ops key r = (rd_del ops r key, RInt (if rd_get ops r key = None then 0 else 1))"

text \<open>The keys \<^verbatim>\<open>{user_id}a\<close> (the session) and \<^verbatim>\<open>{user_id}u\<close> (the last message sent).\<close>

definition session_key :: "user_id_t \<Rightarrow> string" where
  "session_key u = ''{'' @ to_string u @ ''}a''"

definition last_send_key :: "user_id_t \<Rightarrow> string" where
  "last_send_key u = ''{'' @ to_string u @ ''}u''"

lemma session_key_inject [simp]: "session_key u = session_key v \<longleftrightarrow> u = v"
  by (simp add: session_key_def)

lemma last_send_key_inject [simp]: "last_send_key u = last_send_key v \<longleftrightarrow> u = v"
  by (simp add: last_send_key_def)

lemma keys_differ [simp]: "session_key u \<noteq> last_send_key v" "last_send_key v \<noteq> session_key u"
proof -
  have "last (session_key u) = CHR ''a''" "last (last_send_key v) = CHR ''u''"
    by (simp_all add: session_key_def last_send_key_def)
  then show "session_key u \<noteq> last_send_key v" "last_send_key v \<noteq> session_key u" by fastforce+
qed

section \<open>The Lua script\<close>

text \<open>
  \<open>cj_encode\<close> and \<open>cj_decode\<close> are \<^verbatim>\<open>cjson.encode\<close> of a table of strings and \<^verbatim>\<open>cjson.decode\<close>
  of an array, its elements as text. What is documented: an array decodes to what was
  encoded, and a string is written between quotes.
\<close>

record cjson =
  cj_encode :: "string list \<Rightarrow> string"
  cj_decode :: "string \<Rightarrow> string list option"

definition plain :: "string \<Rightarrow> bool" where
  "plain s \<longleftrightarrow> (\<forall>c \<in> set s. is_digit c \<or> c = CHR ''-'')"

definition cjson_ok :: "cjson \<Rightarrow> bool" where
  "cjson_ok cj \<longleftrightarrow>
     (\<forall>xs. (\<forall>x \<in> set xs. plain x) \<longrightarrow> cj_decode cj (cj_encode cj xs) = Some xs) \<and>
     (\<forall>x xs. plain x \<longrightarrow> (\<exists>s. cj_encode cj (x # xs) = CHR ''['' # CHR 0x22 # x @ CHR 0x22 # s))"

definition lua_tonumber :: "string \<Rightarrow> int option" where
  "lua_tonumber s = (case scan_int s of Some (v, []) \<Rightarrow> Some v | _ \<Rightarrow> None)"

text \<open>
  \<^verbatim>\<open>local a = redis.call('GET', KEYS[1])
  if (a == false or tonumber(cjson.decode(a)[2]) < tonumber(ARGV[2])) then
    redis.call('SETEX', KEYS[1], 3600, cjson.encode({ARGV[1],ARGV[2],ARGV[3]}))
    return 1
  else return 0 end\<close>
  Indexing past the decoded table and comparing \<^verbatim>\<open>nil\<close> are errors of the script.
\<close>

definition set_last_script ::
  "'r redis \<Rightarrow> cjson \<Rightarrow> string \<Rightarrow> string \<Rightarrow> string \<Rightarrow> string \<Rightarrow> 'r \<Rightarrow> 'r \<times> redis_reply" where
  "set_last_script ops cj key argv1 argv2 argv3 r =
     (let store = rd_setex ops r key 3600 (cj_encode cj [argv1, argv2, argv3]) in
      case rd_get ops r key of
        None \<Rightarrow> (store, RInt 1)
      | Some a \<Rightarrow>
          (case cj_decode cj a of
             Some (x # y # ys) \<Rightarrow>
               (case (lua_tonumber y, lua_tonumber argv2) of
                  (Some old, Some new) \<Rightarrow> if old < new then (store, RInt 1) else (r, RInt 0)
                | _ \<Rightarrow> (r, RError ''attempt to compare''))
           | _ \<Rightarrow> (r, RError ''bad value'')))"

section \<open>The handlers\<close>

record ('r, 'q) backends =
  be_redis :: "'r redis"
  be_mysql :: "'q mysql"
  be_cjson :: cjson

text \<open>
  The state behind the proxy: the redis server, and one database per connection pool.
  \<^verbatim>\<open>ChooseDatabase\<close> answers the pool of the messages for every user; the other pool is
  opened and never used.
\<close>

datatype pool = db_message_connect_pool | db_group_members_connect_pool

record ('r, 'q) dbproxy =
  dp_redis :: 'r
  dp_sql :: "pool \<Rightarrow> 'q"

definition ChooseDatabase :: "int \<Rightarrow> pool" where
  "ChooseDatabase user_id = db_message_connect_pool"

definition set_sql :: "pool \<Rightarrow> 'q \<Rightarrow> ('r, 'q) dbproxy \<Rightarrow> ('r, 'q) dbproxy" where
  "set_sql p q w = w\<lparr>dp_sql := (dp_sql w)(p := q)\<rparr>"

definition redis_CallMethod ::
  "('r, 'q) backends \<Rightarrow> ('r \<Rightarrow> 'r \<times> redis_reply) \<Rightarrow> ('r, 'q) dbproxy \<Rightarrow> ('r, 'q) dbproxy \<times> redis_reply result" where
  "redis_CallMethod be cmd w =
     (case redis_call (be_redis be) cmd (dp_redis w) of (r, res) \<Rightarrow> (w\<lparr>dp_redis := r\<rparr>, res))"

definition sql_exec ::
  "('r, 'q) backends \<Rightarrow> pool \<Rightarrow> msg_row list \<Rightarrow> ('r, 'q) dbproxy \<Rightarrow> ('r, 'q) dbproxy \<times> string option" where
  "sql_exec be p rows w =
     (case sql_insert (be_mysql be) (dp_sql w p) rows of (q, e) \<Rightarrow> (set_sql p q w, e))"

text \<open>
  \<^verbatim>\<open>AuthAndSaveSession\<close>: the password is not looked at, the session expires in an hour.
\<close>

definition AuthAndSaveSession ::
  "('r, 'q) backends \<Rightarrow> SigninData \<Rightarrow> ('r, 'q) dbproxy \<Rightarrow> ('r, 'q) dbproxy \<times> int result" where
  "AuthAndSaveSession be new_msg w =
     and_then (redis_CallMethod be
         (cmd_set_ex (be_redis be) (session_key (sd_user_id new_msg)) (sd_access_addr new_msg) 3600) w)
       (\<lambda>w response. (w, Inr 0))"

definition reply_size :: "redis_reply \<Rightarrow> nat" where
  "reply_size r = (case r of RArray rs \<Rightarrow> length rs | _ \<Rightarrow> 0)"

definition to_session :: "user_id_t \<times> redis_reply \<Rightarrow> Session" where
  "to_session ur = (case ur of (u, r) \<Rightarrow>
     (case r of
        RString s \<Rightarrow> \<lparr>se_has_session = True, se_user_id = u, se_addr = s\<rparr>
      | _ \<Rightarrow> \<lparr>se_has_session = False, se_user_id = u, se_addr = []\<rparr>))"

definition GetSessions ::
  "('r, 'q) backends \<Rightarrow> user_id_t list \<Rightarrow> ('r, 'q) dbproxy \<Rightarrow> ('r, 'q) dbproxy \<times> Session list result" where
  "GetSessions be user_ids w =
     and_then (redis_CallMethod be (cmd_mget (be_redis be) (map session_key user_ids)) w)
       (\<lambda>w response.
         if reply_size response \<noteq> length user_ids then (w, Inl (Fault CheckFailed))
         else (case response of
             RArray rs \<Rightarrow> (w, Inr (map to_session (zip user_ids rs)))
           | _ \<Rightarrow> (w, Inr [])))"

definition ClearSession ::
  "('r, 'q) backends \<Rightarrow> user_id_t \<Rightarrow> ('r, 'q) dbproxy \<Rightarrow> ('r, 'q) dbproxy \<times> unit result" where
  "ClearSession be user_id w =
     and_then (redis_CallMethod be (cmd_del (be_redis be) (session_key user_id)) w)
       (\<lambda>w response. (w, Inr ()))"

definition SetUserLastSendData_impl ::
  "('r, 'q) backends \<Rightarrow> UserLastSendData \<Rightarrow> ('r, 'q) dbproxy \<Rightarrow> ('r, 'q) dbproxy \<times> unit result" where
  "SetUserLastSendData_impl be d w =
     (case redis_CallMethod be (set_last_script (be_redis be) (be_cjson be) (last_send_key (ul_user_id d))
         (to_string (ul_msg_id d)) (to_string (ul_client_time d)) (to_string (ul_msg_time d))) w of
        (w, Inl e) \<Rightarrow> (w, Inl (Failed EINVAL ''Fail to set user last send data.''))
      | (w, Inr response) \<Rightarrow> (w, Inr ()))"

text \<open>
  The statements write a time with \<^verbatim>\<open>FROM_UNIXTIME\<close> and read it with \<^verbatim>\<open>UNIX_TIMESTAMP\<close>; a row has the
  number of seconds. The two lose a time only outside the range of the column or, in a time zone with
  summer time, in the hour that comes twice.
\<close>

definition sender_row :: "NewPrivateMsg \<Rightarrow> msg_row" where
  "sender_row m = \<lparr>r_user_id = npm_sender m, r_sender = npm_sender m, r_receiver = npm_receiver m,
     r_msg_id = npm_sender_msg_id m, r_group_id = 0, r_message = npm_message m, r_deleted = 0,
     r_client_time = npm_client_time m, r_msg_time = npm_msg_time m\<rparr>"

definition receiver_row :: "NewPrivateMsg \<Rightarrow> msg_row" where
  "receiver_row m = \<lparr>r_user_id = npm_receiver m, r_sender = npm_sender m, r_receiver = npm_receiver m,
     r_msg_id = npm_receiver_msg_id m, r_group_id = 0, r_message = npm_message m, r_deleted = 0,
     r_client_time = npm_client_time m, r_msg_time = npm_msg_time m\<rparr>"

text \<open>
  One statement with both rows when both users live in the same database, otherwise one
  statement per database.
\<close>

definition insert_private ::
  "('r, 'q) backends \<Rightarrow> NewPrivateMsg \<Rightarrow> ('r, 'q) dbproxy \<Rightarrow> ('r, 'q) dbproxy \<times> string option" where
  "insert_private be m w =
     (let pool = ChooseDatabase (npm_sender m); peer_pool = ChooseDatabase (npm_receiver m) in
      if pool = peer_pool then sql_exec be pool [sender_row m, receiver_row m] w
      else (case sql_exec be pool [sender_row m] w of
              (w1, Some e) \<Rightarrow> (w1, Some e)
            | (w1, None) \<Rightarrow> sql_exec be peer_pool [receiver_row m] w1))"

definition SavePrivateMsg ::
  "('r, 'q) backends \<Rightarrow> NewPrivateMsg \<Rightarrow> ('r, 'q) dbproxy \<Rightarrow> ('r, 'q) dbproxy \<times> unit result" where
  "SavePrivateMsg be m w =
     (case insert_private be m w of
        (w1, Some e) \<Rightarrow> (w1, Inl (Failed EINVAL ''Fail to insert into messages.''))
      | (w1, None) \<Rightarrow> SetUserLastSendData_impl be
          \<lparr>ul_user_id = npm_sender m, ul_msg_id = npm_sender_msg_id m,
           ul_client_time = npm_client_time m, ul_msg_time = npm_msg_time m\<rparr> w1)"

definition group_row :: "NewGroupMsg \<Rightarrow> UserAndMsgId \<Rightarrow> msg_row" where
  "group_row m um = \<lparr>r_user_id = um_user_id um, r_sender = ngm_sender_user_id m,
     r_receiver = ngm_group_id m, r_msg_id = um_msg_id um, r_group_id = ngm_group_id m,
     r_message = ngm_message m, r_deleted = 0, r_client_time = ngm_client_time m,
     r_msg_time = ngm_msg_time m\<rparr>"

text \<open>The loop over the members: one statement each, until one fails.\<close>

fun insert_group ::
  "('r, 'q) backends \<Rightarrow> NewGroupMsg \<Rightarrow> UserAndMsgId list \<Rightarrow> ('r, 'q) dbproxy \<Rightarrow> ('r, 'q) dbproxy \<times> string option" where
  "insert_group be m [] w = (w, None)"
| "insert_group be m (um # ums) w =
     (case sql_exec be (ChooseDatabase (um_user_id um)) [group_row m um] w of
        (w1, Some e) \<Rightarrow> (w1, Some e)
      | (w1, None) \<Rightarrow> insert_group be m ums w1)"

definition SaveGroupMsg ::
  "('r, 'q) backends \<Rightarrow> NewGroupMsg \<Rightarrow> ('r, 'q) dbproxy \<Rightarrow> ('r, 'q) dbproxy \<times> unit result" where
  "SaveGroupMsg be m w =
     (case insert_group be m (ngm_user_and_msgids m) w of
        (w1, Some e) \<Rightarrow> (w1, Inl (Failed EINVAL ''Fail to insert into messages.''))
      | (w1, None) \<Rightarrow> SetUserLastSendData_impl be
          \<lparr>ul_user_id = ngm_sender_user_id m, ul_msg_id = ngm_sender_msg_id m,
           ul_client_time = ngm_client_time m, ul_msg_time = ngm_msg_time m\<rparr> w1)"

definition SetUserLastSendData ::
  "('r, 'q) backends \<Rightarrow> UserLastSendData \<Rightarrow> ('r, 'q) dbproxy \<Rightarrow> ('r, 'q) dbproxy \<times> unit result" where
  "SetUserLastSendData be d w = SetUserLastSendData_impl be d w"

text \<open>
  The newest message that the user sent:
  \<^verbatim>\<open>WHERE user_id = :user_id and sender = :sender and client_time = (SELECT MAX(client_time)
  FROM messages WHERE user_id = :user_id2 AND sender = :sender2)\<close>
\<close>

definition last_sent_where :: "user_id_t \<Rightarrow> msg_row list \<Rightarrow> msg_row \<Rightarrow> bool" where
  "last_sent_where u tbl r \<longleftrightarrow> r_user_id r = u \<and> r_sender r = u \<and>
     r_client_time r = Max (r_client_time ` set (filter (\<lambda>x. r_user_id x = u \<and> r_sender x = u) tbl))"

definition last_from_rows :: "msg_row list \<Rightarrow> int \<times> int \<times> int" where
  "last_from_rows rs = (case rs of [] \<Rightarrow> (0, 0, 0)
     | r # _ \<Rightarrow> (r_msg_id r, r_client_time r, r_msg_time r))"

definition last_answer :: "int \<times> int \<times> int \<Rightarrow> UserLastSendData" where
  "last_answer d = (case d of (msg_id, client_time, msg_time) \<Rightarrow>
     \<lparr>ul_user_id = 0, ul_msg_id = msg_id, ul_client_time = client_time, ul_msg_time = msg_time\<rparr>)"

definition GetUserLastSendData ::
  "('r, 'q) backends \<Rightarrow> user_id_t \<Rightarrow> ('r, 'q) dbproxy \<Rightarrow> ('r, 'q) dbproxy \<times> UserLastSendData result" where
  "GetUserLastSendData be user_id w =
     (case redis_CallMethod be (cmd_get (be_redis be) (last_send_key user_id)) w of
        (w1, Inl e) \<Rightarrow> (w1, Inl (Failed EINVAL ''Fail to get data from redis.''))
      | (w1, Inr (RString s)) \<Rightarrow>
          (case sscanf_last s of
             Inl f \<Rightarrow> (w1, Inl (Fault f))
           | Inr d \<Rightarrow> (w1, Inr (last_answer d)))
      | (w1, Inr other) \<Rightarrow>
          (let p = ChooseDatabase user_id in
           case sql_messages (be_mysql be) (dp_sql w1 p) (last_sent_where user_id) of
             (q, Inl e) \<Rightarrow> (set_sql p q w1, Inl (Failed EINVAL ''Fail to select from messages.''))
           | (q, Inr rs) \<Rightarrow> (set_sql p q w1, Inr (last_answer (last_from_rows rs)))))"

definition msgs_where :: "MsgIdRange \<Rightarrow> msg_row \<Rightarrow> bool" where
  "msgs_where msg_range r \<longleftrightarrow> r_user_id r = ra_user_id msg_range \<and>
     ra_start_msg_id msg_range \<le> r_msg_id r \<and> r_msg_id r \<le> ra_end_msg_id msg_range \<and> r_deleted r = 0"

definition row_msg :: "user_id_t \<Rightarrow> msg_row \<Rightarrow> Msg" where
  "row_msg user_id r = \<lparr>m_user_id = user_id, m_msg_id = r_msg_id r, m_sender = r_sender r,
     m_receiver = r_receiver r, m_message = r_message r, m_group_id = r_group_id r,
     m_client_time = to_i32 (r_client_time r), m_msg_time = to_i32 (r_msg_time r)\<rparr>"

definition GetMsgs ::
  "('r, 'q) backends \<Rightarrow> MsgIdRange \<Rightarrow> ('r, 'q) dbproxy \<Rightarrow> ('r, 'q) dbproxy \<times> Msg list result" where
  "GetMsgs be msg_range w =
     (let p = ChooseDatabase (ra_user_id msg_range) in
      case sql_messages (be_mysql be) (dp_sql w p) (\<lambda>tbl. msgs_where msg_range) of
        (q, Inl e) \<Rightarrow> (set_sql p q w, Inl (Failed EINVAL ''Fail to select from messages.''))
      | (q, Inr rs) \<Rightarrow> (set_sql p q w, Inr (map (row_msg (ra_user_id msg_range)) rs)))"

definition GetFriends ::
  "('r, 'q) backends \<Rightarrow> user_id_t \<Rightarrow> ('r, 'q) dbproxy \<Rightarrow> ('r, 'q) dbproxy \<times> UserInfo list result" where
  "GetFriends be user_id w =
     (let p = ChooseDatabase user_id in
      case sql_friends (be_mysql be) (dp_sql w p) (\<lambda>r. f_user_id r = user_id \<and> f_deleted r = 0) of
        (q, Inl e) \<Rightarrow> (set_sql p q w, Inl (Failed EINVAL ''Fail to select from friends.''))
      | (q, Inr rs) \<Rightarrow> (set_sql p q w,
          Inr (map (\<lambda>r. \<lparr>ui_user_id = f_peer_id r, ui_name = f_peer_name r\<rparr>) rs)))"

definition GetGroups ::
  "('r, 'q) backends \<Rightarrow> user_id_t \<Rightarrow> ('r, 'q) dbproxy \<Rightarrow> ('r, 'q) dbproxy \<times> GroupInfo list result" where
  "GetGroups be user_id w =
     (let p = ChooseDatabase user_id in
      case sql_members (be_mysql be) (dp_sql w p) (\<lambda>r. g_user_id r = user_id) of
        (q, Inl e) \<Rightarrow> (set_sql p q w, Inl (Failed EINVAL ''Fail to select from group_members.''))
      | (q, Inr rs) \<Rightarrow> (set_sql p q w,
          Inr (map (\<lambda>r. \<lparr>gi_group_id = g_group_id r, gi_name = g_group_name r\<rparr>) rs)))"

definition GetGroupMembers ::
  "('r, 'q) backends \<Rightarrow> group_id_t \<Rightarrow> ('r, 'q) dbproxy \<Rightarrow> ('r, 'q) dbproxy \<times> UserInfo list result" where
  "GetGroupMembers be group_id w =
     (let p = ChooseDatabase group_id in
      case sql_members (be_mysql be) (dp_sql w p) (\<lambda>r. g_group_id r = group_id) of
        (q, Inl e) \<Rightarrow> (set_sql p q w, Inl (Failed EINVAL ''Fail to select from group_members.''))
      | (q, Inr rs) \<Rightarrow> (set_sql p q w,
          Inr (map (\<lambda>r. \<lparr>ui_user_id = g_user_id r, ui_name = g_user_name r\<rparr>) rs)))"

end
