(* ===== verification/DbProxy_Correct.thy ===== *)
theory DbProxy_Correct
  imports DbProxy
begin

text \<open>
  The properties of the database proxy: what a save leaves in the table on every outcome,
  that the unique key makes saves idempotent, what the cache of the last message sent
  holds and how it is read back, and the sessions.
\<close>

section \<open>The table of messages\<close>

definition tables_of :: "('q \<Rightarrow> tables) \<Rightarrow> ('r, 'q) dbproxy \<Rightarrow> tables" where
  "tables_of view w = view (dp_sql w db_message_connect_pool)"

abbreviation messages :: "('q \<Rightarrow> tables) \<Rightarrow> ('r, 'q) dbproxy \<Rightarrow> msg_row list" where
  "messages view w \<equiv> t_messages (tables_of view w)"

lemma tables_of_set_sql [simp]: "tables_of view (set_sql db_message_connect_pool q w) = view q"
  by (simp add: tables_of_def set_sql_def)

lemma tables_of_redis [simp]: "tables_of view (w\<lparr>dp_redis := r\<rparr>) = tables_of view w"
  by (simp add: tables_of_def)

lemma ChooseDatabase_simp [simp]: "ChooseDatabase u = db_message_connect_pool"
  by (simp add: ChooseDatabase_def)

lemma redis_CallMethod_sql [keeps]: "dp_sql (fst (redis_CallMethod be cmd w)) = dp_sql w"
  by (simp add: redis_CallMethod_def split: prod.split)

lemma redis_CallMethod_tables:
  "redis_CallMethod be cmd w = (w', r) \<Longrightarrow> tables_of view w' = tables_of view w"
  using redis_CallMethod_sql [of be cmd w] by (simp add: tables_of_def)

lemma set_last_tables:
  "SetUserLastSendData_impl be d w = (w', r) \<Longrightarrow> tables_of view w' = tables_of view w"
  unfolding SetUserLastSendData_impl_def
  by (auto split: prod.splits sum.splits dest: redis_CallMethod_tables)

text \<open>No statement of the proxy changes who is a member of a group.\<close>

abbreviation group_table :: "('q \<Rightarrow> tables) \<Rightarrow> ('r, 'q) dbproxy \<Rightarrow> member_row list" where
  "group_table view w \<equiv> t_members (tables_of view w)"

lemma sql_exec_members:
  assumes ok: "insert_ok (be_mysql be) view"
    and eq: "sql_exec be db_message_connect_pool rows w = (w', e)"
  shows "group_table view w' = group_table view w"
proof -
  obtain q where i: "sql_insert (be_mysql be) (dp_sql w db_message_connect_pool) rows = (q, e)"
    and w': "w' = set_sql db_message_connect_pool q w"
    using eq by (auto simp: sql_exec_def split: prod.splits)
  from ok i have "t_members (view q) = group_table view w"
    unfolding insert_ok_def tables_of_def by (metis tables.select_convs(3) tables.surjective tables.update_convs(1))
  then show ?thesis using w' by simp
qed

lemma insert_group_members:
  assumes ok: "insert_ok (be_mysql be) view"
  shows "insert_group be m ums w = (w', e) \<Longrightarrow> group_table view w' = group_table view w"
proof (induction ums arbitrary: w)
  case (Cons um ums)
  obtain w1 e1 where s: "sql_exec be db_message_connect_pool [group_row m um] w = (w1, e1)" by fastforce
  with sql_exec_members [OF ok s] Cons show ?case by (cases e1) auto
qed simp

lemma save_members:
  assumes ok: "insert_ok (be_mysql be) view"
  shows "SavePrivateMsg be m w = (w', r) \<Longrightarrow> group_table view w' = group_table view w"
    and "SaveGroupMsg be gm w = (w', r) \<Longrightarrow> group_table view w' = group_table view w"
proof -
  assume s: "SavePrivateMsg be m w = (w', r)"
  obtain w1 e where i: "insert_private be m w = (w1, e)" by fastforce
  then have "group_table view w1 = group_table view w"
    using sql_exec_members [OF ok, of "[sender_row m, receiver_row m]" w w1 e] by (simp add: insert_private_def)
  with s i show "group_table view w' = group_table view w"
    by (cases e) (auto simp: SavePrivateMsg_def dest: set_last_tables [where view = view])
next
  assume s: "SaveGroupMsg be gm w = (w', r)"
  obtain w1 e where i: "insert_group be gm (ngm_user_and_msgids gm) w = (w1, e)" by fastforce
  with insert_group_members [OF ok i] s show "group_table view w' = group_table view w"
    by (cases e) (auto simp: SaveGroupMsg_def dest: set_last_tables [where view = view])
qed

lemma sql_exec_spec:
  assumes ok: "insert_ok (be_mysql be) view"
    and eq: "sql_exec be db_message_connect_pool rows w = (w', e)"
  shows "(messages view w' = messages view w \<and> e \<noteq> None) \<or>
    (messages view w' = messages view w @ rows \<and> keys_free (messages view w) rows)"
proof -
  obtain q where i: "sql_insert (be_mysql be) (dp_sql w db_message_connect_pool) rows = (q, e)"
    and w': "w' = set_sql db_message_connect_pool q w"
    using eq by (auto simp: sql_exec_def split: prod.splits)
  from ok i have "(view q = tables_of view w \<and> e \<noteq> None) \<or>
     (view q = (tables_of view w)\<lparr>t_messages := messages view w @ rows\<rparr> \<and> keys_free (messages view w) rows)"
    unfolding insert_ok_def tables_of_def by blast
  then show ?thesis using w' by auto
qed

lemma sql_exec_redis: "sql_exec be p rows w = (w', e) \<Longrightarrow> dp_redis w' = dp_redis w"
  by (auto simp: sql_exec_def set_sql_def split: prod.splits)

text \<open>One \<open>INSERT\<close> per row of a group message: what is stored is a prefix.\<close>

lemma insert_group_spec:
  assumes ok: "insert_ok (be_mysql be) view"
  shows "insert_group be m ums w = (w', e) \<Longrightarrow>
    \<exists>k \<le> length ums. messages view w' = messages view w @ map (group_row m) (take k ums) \<and>
      (e = None \<longrightarrow> k = length ums) \<and>
      (unique_rows (messages view w) \<longrightarrow> unique_rows (messages view w'))"
proof (induction ums arbitrary: w)
  case (Cons um ums)
  obtain w1 e1 where s: "sql_exec be db_message_connect_pool [group_row m um] w = (w1, e1)" by fastforce
  note S = sql_exec_spec [OF ok s]
  show ?case
  proof (cases e1)
    case (Some x)
    then have "w' = w1" "e = Some x" using Cons.prems s by simp_all
    with S show ?thesis
      by (elim disjE) (force, (rule exI [of _ 1], simp add: unique_rows_append))
  next
    case None
    then have "insert_group be m ums w1 = (w', e)" using Cons.prems s by simp
    from Cons.IH [OF this] obtain k where k: "k \<le> length ums"
      "messages view w' = messages view w1 @ map (group_row m) (take k ums)" "e = None \<longrightarrow> k = length ums"
      "unique_rows (messages view w1) \<longrightarrow> unique_rows (messages view w')" by blast
    with S None show ?thesis
      by (intro exI [of _ "Suc k"]) (simp add: unique_rows_append)
  qed
qed simp

lemma insert_private_spec:
  assumes ok: "insert_ok (be_mysql be) view" and eq: "insert_private be m w = (w', e)"
  shows "(messages view w' = messages view w \<and> e \<noteq> None) \<or>
    (messages view w' = messages view w @ [sender_row m, receiver_row m] \<and>
     keys_free (messages view w) [sender_row m, receiver_row m])"
  using sql_exec_spec [OF ok, of "[sender_row m, receiver_row m]" w w' e] eq
  by (simp add: insert_private_def)

section \<open>The interface of a message store\<close>

text \<open>
  A save stores a prefix of the rows of its message, all of them when it reports success,
  and keeps the unique key. What follows from that alone: rows are never duplicated, an
  acknowledged message is stored once, and a message whose first row is there is refused
  for ever without storing anything.
\<close>

fun save_all :: "('w \<Rightarrow> 'm \<Rightarrow> 'w \<times> unit result) \<Rightarrow> 'w \<Rightarrow> 'm list \<Rightarrow> 'w \<times> ('m \<times> unit result) list" where
  "save_all save w [] = (w, [])"
| "save_all save w (m # ms) =
     (case save w m of (w1, r) \<Rightarrow> (case save_all save w1 ms of (w2, log) \<Rightarrow> (w2, (m, r) # log)))"

locale message_store =
  fixes save :: "'w \<Rightarrow> 'm \<Rightarrow> 'w \<times> unit result"
    and rows :: "'w \<Rightarrow> msg_row list"
    and rows_of :: "'m \<Rightarrow> msg_row list"
    and inv :: "'w \<Rightarrow> bool"
  assumes save_inv: "inv w \<Longrightarrow> save w m = (w', r) \<Longrightarrow> inv w'"
    and save_prefix: "inv w \<Longrightarrow> save w m = (w', r) \<Longrightarrow>
      \<exists>k. rows w' = rows w @ take k (rows_of m) \<and> (r = Inr () \<longrightarrow> length (rows_of m) \<le> k)"
    and save_unique: "inv w \<Longrightarrow> save w m = (w', r) \<Longrightarrow> unique_rows (rows w) \<Longrightarrow> unique_rows (rows w')"
begin

lemma save_present_refused:
  assumes "inv w" "save w m = (w', r)" "unique_rows (rows w)" "rows_of m = x # xs"
    and "unique_key x \<in> unique_key ` set (rows w)"
  shows "rows w' = rows w \<and> r \<noteq> Inr ()"
proof -
  obtain k where k: "rows w' = rows w @ take k (rows_of m)" "r = Inr () \<longrightarrow> length (rows_of m) \<le> k"
    using save_prefix [OF assms(1,2)] by blast
  show ?thesis
  proof (cases k)
    case 0
    with k assms(4) show ?thesis by simp
  next
    case (Suc j)
    then have "unique_rows (rows w @ x # take j xs)"
      using save_unique [OF assms(1-3)] k(1) assms(4) by simp
    then have "keys_free (rows w) (x # take j xs)" by (simp only: unique_rows_append)
    with keys_free_Cons_clash [OF assms(5)] show ?thesis by blast
  qed
qed

lemma save_all_grows:
  "inv w \<Longrightarrow> unique_rows (rows w) \<Longrightarrow> save_all save w ms = (w', log) \<Longrightarrow>
   inv w' \<and> unique_rows (rows w') \<and> set (rows w) \<subseteq> set (rows w')"
proof (induction ms arbitrary: w log)
  case (Cons m ms)
  obtain w1 r where s: "save w m = (w1, r)" by fastforce
  then obtain log' where l: "save_all save w1 ms = (w', log')"
    using Cons.prems(3) by (auto split: prod.splits)
  have "set (rows w) \<subseteq> set (rows w1)" using save_prefix [OF Cons.prems(1) s] by auto
  with Cons.IH [OF save_inv [OF Cons.prems(1) s] save_unique [OF Cons.prems(1) s Cons.prems(2)] l]
  show ?case by blast
qed simp

lemma acknowledged_stored:
  "inv w \<Longrightarrow> unique_rows (rows w) \<Longrightarrow> save_all save w ms = (w', log) \<Longrightarrow> (m, Inr ()) \<in> set log \<Longrightarrow>
   set (rows_of m) \<subseteq> set (rows w')"
proof (induction ms arbitrary: w log)
  case (Cons a ms)
  obtain w1 r where s: "save w a = (w1, r)" by fastforce
  then obtain log' where l: "save_all save w1 ms = (w', log')" and log: "log = (a, r) # log'"
    using Cons.prems(3) by (auto split: prod.splits)
  note i = save_inv [OF Cons.prems(1) s] and u = save_unique [OF Cons.prems(1) s Cons.prems(2)]
  show ?case
  proof (cases "(m, Inr ()) \<in> set log'")
    case True
    then show ?thesis by (rule Cons.IH [OF i u l])
  next
    case False
    with Cons.prems(4) log have "a = m" "r = Inr ()" by auto
    then have "set (rows_of m) \<subseteq> set (rows w1)" using save_prefix [OF Cons.prems(1) s] by auto
    with save_all_grows [OF i u l] show ?thesis by blast
  qed
qed simp

lemma acknowledged_once:
  assumes "inv w" "unique_rows (rows w)" "save_all save w ms = (w', log)" "(m, Inr ()) \<in> set log"
    and "x \<in> set (rows_of m)"
  shows "filter (\<lambda>y. unique_key y = unique_key x) (rows w') = [x]"
proof -
  have "distinct (map unique_key (rows w'))"
    using save_all_grows [OF assms(1-3)] by (simp add: unique_rows_def)
  moreover have "x \<in> set (rows w')" using acknowledged_stored [OF assms(1-4)] assms(5) by blast
  ultimately show ?thesis by (rule filter_all_distinct_keys)
qed

end

datatype save_request = SavePrivate NewPrivateMsg | SaveGroup NewGroupMsg

fun save_message ::
  "('r, 'q) backends \<Rightarrow> ('r, 'q) dbproxy \<Rightarrow> save_request \<Rightarrow> ('r, 'q) dbproxy \<times> unit result" where
  "save_message be w (SavePrivate m) = SavePrivateMsg be m w"
| "save_message be w (SaveGroup m) = SaveGroupMsg be m w"

fun request_rows :: "save_request \<Rightarrow> msg_row list" where
  "request_rows (SavePrivate m) = [sender_row m, receiver_row m]"
| "request_rows (SaveGroup m) = map (group_row m) (ngm_user_and_msgids m)"

lemma save_private_spec:
  assumes ok: "insert_ok (be_mysql be) view" and eq: "SavePrivateMsg be m w = (w', r)"
  shows "(messages view w' = messages view w \<and> r = Inl (Failed EINVAL ''Fail to insert into messages.'')) \<or>
    (messages view w' = messages view w @ [sender_row m, receiver_row m] \<and>
     keys_free (messages view w) [sender_row m, receiver_row m])"
proof -
  obtain w1 e where i: "insert_private be m w = (w1, e)" by fastforce
  from eq i have "messages view w' = messages view w1 \<and>
    (e \<noteq> None \<longrightarrow> r = Inl (Failed EINVAL ''Fail to insert into messages.''))"
    by (cases e) (auto simp: SavePrivateMsg_def dest: set_last_tables [where view = view])
  with insert_private_spec [OF ok i] show ?thesis by auto
qed

lemma save_group_spec:
  assumes ok: "insert_ok (be_mysql be) view" and eq: "SaveGroupMsg be m w = (w', r)"
  shows "\<exists>k \<le> length (ngm_user_and_msgids m).
    messages view w' = messages view w @ map (group_row m) (take k (ngm_user_and_msgids m)) \<and>
    (k = length (ngm_user_and_msgids m) \<or> r = Inl (Failed EINVAL ''Fail to insert into messages.'')) \<and>
    (unique_rows (messages view w) \<longrightarrow> unique_rows (messages view w'))"
proof -
  obtain w1 e where i: "insert_group be m (ngm_user_and_msgids m) w = (w1, e)" by fastforce
  from eq i have "messages view w' = messages view w1 \<and>
    (e \<noteq> None \<longrightarrow> r = Inl (Failed EINVAL ''Fail to insert into messages.''))"
    by (cases e) (auto simp: SaveGroupMsg_def dest: set_last_tables [where view = view])
  with insert_group_spec [OF ok i] show ?thesis by auto
qed

interpretation store: message_store "save_message be" "messages view" request_rows
  "\<lambda>w. insert_ok (be_mysql be) view" for be view
proof unfold_locales
  fix w w' m r
  assume ok: "insert_ok (be_mysql be) view" and s: "save_message be w m = (w', r)"
  show "insert_ok (be_mysql be) view" by (rule ok)
  show "\<exists>k. messages view w' = messages view w @ take k (request_rows m) \<and>
      (r = Inr () \<longrightarrow> length (request_rows m) \<le> k)"
  proof (cases m)
    case (SavePrivate p)
    then have "SavePrivateMsg be p w = (w', r)" using s by simp
    from save_private_spec [OF ok this] show ?thesis
    proof
      assume "messages view w' = messages view w \<and> r = Inl (Failed EINVAL ''Fail to insert into messages.'')"
      then show ?thesis by (intro exI [of _ 0]) simp
    next
      assume "messages view w' = messages view w @ [sender_row p, receiver_row p] \<and>
        keys_free (messages view w) [sender_row p, receiver_row p]"
      then show ?thesis using SavePrivate by (intro exI [of _ 2]) simp
    qed
  next
    case (SaveGroup g)
    with save_group_spec [OF ok, of g w w' r] s show ?thesis by (auto simp: take_map)
  qed
  show "unique_rows (messages view w) \<Longrightarrow> unique_rows (messages view w')"
  proof (cases m)
    case (SavePrivate p)
    assume "unique_rows (messages view w)"
    with save_private_spec [OF ok, of p w w' r] s SavePrivate show ?thesis
      by (auto simp: unique_rows_append)
  next
    case (SaveGroup g)
    assume "unique_rows (messages view w)"
    with save_group_spec [OF ok, of g w w' r] s SaveGroup show ?thesis by auto
  qed
qed
end
