(* ===== verification/Logic_Correct.thy ===== *)
theory Logic_Correct
  imports Logic DbProxy_Correct
begin

text \<open>
  What the logic server does with the answers of the servers it calls: the calls that the
  background thread makes, in closed form, and, over the contract \<open>logic_backend\<close> of those
  servers, what a request to send leaves in the table of messages.
\<close>

section \<open>The background thread\<close>

lemma channels_for_spec:
  "channels_for ss m = (map se_addr (filter se_has_session ss), m \<union> se_addr ` set (filter se_has_session ss))"
  by (induction ss arbitrary: m) auto

definition peer_calls :: "SendtoPeersArgs \<Rightarrow> user_id_t list \<Rightarrow> Session list \<Rightarrow> MsgIds list \<Rightarrow> (string \<times> Msg) list" where
  "peer_calls args us ss ids =
     map (\<lambda>(u, s, r). (se_addr s, peer_msg (pa_new_msg args) (pa_sender args) u (mi_start_msg_id r)))
       (filter (\<lambda>(u, s, r). se_has_session s) (zip us (zip ss ids)))"

lemma send_loop_spec:
  assumes "drop j vec = map se_addr (filter se_has_session ss)"
    and "i + length ss \<le> length us" and "Suc i + length ss \<le> length (pa_id_reply args)"
  shows "send_loop args us vec i j ss = Inr (peer_calls args (drop i us) ss (drop (Suc i) (pa_id_reply args)))"
  using assms
proof (induction ss arbitrary: i j)
  case (Cons s ss)
  from Cons.prems(2) have u: "drop i us = us ! i # drop (Suc i) us"
    by (intro Cons_nth_drop_Suc [symmetric]) simp
  from Cons.prems(3) have r: "drop (Suc i) (pa_id_reply args) =
      pa_id_reply args ! Suc i # drop (Suc (Suc i)) (pa_id_reply args)"
    by (intro Cons_nth_drop_Suc [symmetric]) simp
  show ?case
  proof (cases "se_has_session s")
    case False
    with Cons.IH [of j "Suc i"] Cons.prems show ?thesis by (simp add: u r peer_calls_def)
  next
    case True
    with Cons.prems(1) have d: "drop j vec = se_addr s # map se_addr (filter se_has_session ss)" by simp
    then have j: "j < length vec" by (metis drop_all list.distinct(1) not_less)
    with d have "vec ! j = se_addr s" "drop (Suc j) vec = map se_addr (filter se_has_session ss)"
      by (metis hd_drop_conv_nth list.sel(1), metis drop_Suc list.sel(3) tl_drop)
    with Cons.IH [of "Suc j" "Suc i"] Cons.prems True j show ?thesis
      by (simp add: u r peer_calls_def msg_ids_def)
  qed
qed (simp add: peer_calls_def)

lemma SendtoPeers_eq:
  assumes "st_GetSessions st (map un_user_id (drop 1 (pa_id_request args))) w = (w1, Inr ss)"
    and "length ss = length (pa_id_request args) - 1"
    and "length (pa_id_reply args) = length (pa_id_request args)" "pa_id_request args \<noteq> []"
  shows "SendtoPeers st args w m = (w1, m \<union> se_addr ` set (filter se_has_session ss),
    Inr (peer_calls args (map un_user_id (drop 1 (pa_id_request args))) ss (drop 1 (pa_id_reply args))))"
proof -
  have "length (pa_id_request args) \<ge> 1" using assms(4) by (cases "pa_id_request args") auto
  then have "send_loop args (map un_user_id (drop 1 (pa_id_request args)))
      (map se_addr (filter se_has_session ss)) 0 0 ss =
    Inr (peer_calls args (drop 0 (map un_user_id (drop 1 (pa_id_request args)))) ss (drop (Suc 0) (pa_id_reply args)))"
    using assms(2,3) by (intro send_loop_spec) auto
  then show ?thesis
    using assms(1) by (simp add: SendtoPeers_def channels_for_spec)
qed

section \<open>The contract of the servers behind\<close>

lemma sender_id_notin:
  "u \<notin> mi_user_id ` set rs \<Longrightarrow> fold (\<lambda>r i. if u = mi_user_id r then mi_start_msg_id r else i) rs a = a"
  by (induction rs arbitrary: a) auto

lemma sender_id_first:
  "mi_user_id r = u \<Longrightarrow> u \<notin> mi_user_id ` set rs \<Longrightarrow> sender_id_of u (r # rs) = mi_start_msg_id r"
  by (simp add: sender_id_of_def sender_id_notin)

locale logic_backend =
  fixes st :: "'w stubs"
    and rows :: "'w \<Rightarrow> msg_row list"
    and members :: "'w \<Rightarrow> group_id_t \<Rightarrow> user_id_t set"
    and inv :: "'w \<Rightarrow> bool"
  assumes last_keeps: "inv w \<Longrightarrow> st_GetUserLastSendData st u w = (w', r) \<Longrightarrow>
      inv w' \<and> rows w' = rows w \<and> members w' = members w"
    and members_answer: "inv w \<Longrightarrow> st_GetGroupMembers st g w = (w', Inr us) \<Longrightarrow> ui_user_id ` set us = members w g"
    and members_keeps: "inv w \<Longrightarrow> st_GetGroupMembers st g w = (w', r') \<Longrightarrow> inv w' \<and> rows w' = rows w"
    and ids_keeps: "inv w \<Longrightarrow> st_IdGenerate st q w = (w', r'') \<Longrightarrow> inv w' \<and> rows w' = rows w"
    and ids_answer: "inv w \<Longrightarrow> st_IdGenerate st q w = (w', Inr ids) \<Longrightarrow> map mi_user_id ids = map un_user_id q"
    and private_save: "inv w \<Longrightarrow> st_SavePrivateMsg st m w = (w', s) \<Longrightarrow>
      inv w' \<and> (rows w' = rows w \<and> s \<noteq> Inr () \<or>
        rows w' = rows w @ [sender_row m, receiver_row m] \<and> keys_free (rows w) [sender_row m, receiver_row m])"
    and group_save: "inv w \<Longrightarrow> st_SaveGroupMsg st gm w = (w', s) \<Longrightarrow>
      inv w' \<and> (\<exists>k. rows w' = rows w @ map (group_row gm) (take k (ngm_user_and_msgids gm)) \<and>
        (s = Inr () \<longrightarrow> length (ngm_user_and_msgids gm) \<le> k) \<and>
        (unique_rows (rows w) \<longrightarrow> unique_rows (rows w')))"
begin

text \<open>The arguments of the thread fit each other.\<close>

lemma args_fit:
  assumes i: "inv w" and s: "SendMsg st now nm w = (w', Inr (reply, Some args))"
  shows "length (pa_id_reply args) = length (pa_id_request args)" "pa_id_request args \<noteq> []"
    and "map mi_user_id (pa_id_reply args) = map un_user_id (pa_id_request args)"
    and "pa_sender args = nm_user_id nm" "pa_new_msg args = nm\<lparr>nm_msg_time := to_i32 now\<rparr>"
proof -
  from s obtain w1 d w2 q w3 ids where
    a: "st_GetUserLastSendData st (nm_user_id nm) w = (w1, Inr d)"
    and b: "id_request_of st nm w1 = (w2, Inr q)" and c: "st_IdGenerate st q w2 = (w3, Inr ids)"
    and args: "args = \<lparr>pa_id_request = q, pa_id_reply = ids, pa_new_msg = nm\<lparr>nm_msg_time := to_i32 now\<rparr>,
      pa_sender = nm_user_id nm\<rparr>"
    by (auto simp: SendMsg_def Let_def elim!: and_then_InrE split: if_splits)
  have i2: "inv w2"
    using last_keeps [OF i a] b members_keeps
    by (cases "nm_msg_type nm") (auto simp: id_request_of_def elim!: and_then_InrE)
  have m: "map mi_user_id ids = map un_user_id q" by (rule ids_answer [OF i2 c])
  have "q \<noteq> []"
    using b by (cases "nm_msg_type nm") (auto simp: id_request_of_def elim!: and_then_InrE)
  then show "pa_id_request args \<noteq> []" by (simp add: args)
  show "length (pa_id_reply args) = length (pa_id_request args)"
    using arg_cong [OF m, of length] by (simp add: args)
  show "map mi_user_id (pa_id_reply args) = map un_user_id (pa_id_request args)" using m by (simp add: args)
  show "pa_sender args = nm_user_id nm" "pa_new_msg args = nm\<lparr>nm_msg_time := to_i32 now\<rparr>"
    by (simp_all add: args)
qed

text \<open>A message that is answered as a retransmission leaves the table alone.\<close>

lemma duplicate_keeps:
  assumes "inv w" "SendMsg st now nm w = (w', Inr (reply, None))"
  shows "inv w' \<and> rows w' = rows w"
  using assms last_keeps by (fastforce simp: SendMsg_def Let_def elim!: and_then_InrE split: if_splits)

lemma private_accepted:
  assumes i: "inv w" and s: "SendMsg st now nm w = (w', Inr (reply, Some args))"
    and t: "nm_msg_type nm = PRIVATE"
  shows "\<exists>sid rid. pa_id_reply args = [sid, rid] \<and>
    rows w' = rows w @ [sender_row (new_private_msg nm (to_i32 now) (mi_start_msg_id sid) (mi_start_msg_id rid)),
                        receiver_row (new_private_msg nm (to_i32 now) (mi_start_msg_id sid) (mi_start_msg_id rid))] \<and>
    reply = \<lparr>mr_msg_id = mi_start_msg_id sid, mr_last_msg_id = mi_start_msg_id sid, mr_msg_time = to_i32 now\<rparr>"
proof -
  from s t obtain w1 d w3 ids where
    a: "st_GetUserLastSendData st (nm_user_id nm) w = (w1, Inr d)"
    and c: "st_IdGenerate st [one_id (nm_user_id nm), one_id (nm_peer_id nm)] w1 = (w3, Inr ids)"
    and p: "save_private st nm (to_i32 now) ids w3 = (w', Inr reply)"
    and args: "pa_id_reply args = ids"
    by (auto simp: SendMsg_def id_request_of_def Let_def elim!: and_then_InrE split: if_splits)
  have i1: "inv w1" "rows w1 = rows w" using last_keeps [OF i a] by auto
  have i3: "inv w3" "rows w3 = rows w" using ids_keeps [OF i1(1) c] i1(2) by auto
  have "length ids = 2" using arg_cong [OF ids_answer [OF i1(1) c], of length] by simp
  then obtain sid rid where ids: "ids = [sid, rid]"
    by (auto simp: numeral_2_eq_2 length_Suc_conv)
  let ?m = "new_private_msg nm (to_i32 now) (mi_start_msg_id sid) (mi_start_msg_id rid)"
  from p ids have sv: "st_SavePrivateMsg st ?m w3 = (w', Inr ())"
    and reply: "reply = \<lparr>mr_msg_id = mi_start_msg_id sid, mr_last_msg_id = mi_start_msg_id sid, mr_msg_time = to_i32 now\<rparr>"
    by (auto simp: save_private_def msg_ids_def elim!: and_then_InrE)
  from private_save [OF i3(1) sv] i3(2) ids args reply show ?thesis by auto
qed

lemma group_accepted:
  assumes i: "inv w" and s: "SendMsg st now nm w = (w', Inr (reply, Some args))"
    and t: "nm_msg_type nm = GROUP"
  shows "rows w' = rows w @ map (group_row (new_group_msg nm (to_i32 now) (pa_id_reply args)))
      (ngm_user_and_msgids (new_group_msg nm (to_i32 now) (pa_id_reply args))) \<and>
    mi_user_id ` set (pa_id_reply args) = insert (nm_user_id nm) (members w (nm_peer_id nm)) \<and>
    (\<exists>sid rest. pa_id_reply args = sid # rest \<and> mi_user_id sid = nm_user_id nm \<and>
      reply = \<lparr>mr_msg_id = mi_start_msg_id sid, mr_last_msg_id = mi_start_msg_id sid, mr_msg_time = to_i32 now\<rparr>)"
proof -
  from s t obtain w1 d w2 us w3 ids q where
    a: "st_GetUserLastSendData st (nm_user_id nm) w = (w1, Inr d)"
    and b: "st_GetGroupMembers st (nm_peer_id nm) w1 = (w2, Inr us)"
    and q: "q = one_id (nm_user_id nm) # map (one_id \<circ> ui_user_id) (filter (\<lambda>i. ui_user_id i \<noteq> nm_user_id nm) us)"
    and c: "st_IdGenerate st q w2 = (w3, Inr ids)"
    and p: "save_group st nm (to_i32 now) ids w3 = (w', Inr reply)"
    and args: "pa_id_reply args = ids"
    by (auto simp: SendMsg_def id_request_of_def Let_def elim!: and_then_InrE split: if_splits)
  have i2: "inv w2" "rows w2 = rows w"
    using last_keeps [OF i a] members_keeps [of w1 _ w2, OF _ b] by auto
  have i3: "inv w3" "rows w3 = rows w" using ids_keeps [OF i2(1) c] i2(2) by auto
  note m = ids_answer [OF i2(1) c]
  from m q obtain sid rest where ids: "ids = sid # rest" "mi_user_id sid = nm_user_id nm"
    and rest: "map mi_user_id rest = map ui_user_id (filter (\<lambda>i. ui_user_id i \<noteq> nm_user_id nm) us)"
    by (cases ids) (auto simp: one_id_def)
  have "nm_user_id nm \<notin> mi_user_id ` set rest"
    using arg_cong [OF rest, of set] by auto
  then have sender: "sender_id_of (nm_user_id nm) ids = mi_start_msg_id sid"
    by (simp add: ids sender_id_first)
  let ?m = "new_group_msg nm (to_i32 now) ids"
  from p sender have sv: "st_SaveGroupMsg st ?m w3 = (w', Inr ())"
    and reply: "reply = \<lparr>mr_msg_id = mi_start_msg_id sid, mr_last_msg_id = mi_start_msg_id sid, mr_msg_time = to_i32 now\<rparr>"
    by (auto simp: save_group_def Let_def split: prod.splits sum.splits err.splits if_splits)
  have "ui_user_id ` set us = members w (nm_peer_id nm)"
    using last_keeps [OF i a] members_answer [OF _ b] by auto
  with arg_cong [OF rest, of set] ids
  have "mi_user_id ` set ids = insert (nm_user_id nm) (members w (nm_peer_id nm))" by auto
  with group_save [OF i3(1) sv] i3(2) ids args reply show ?thesis by auto
qed

text \<open>
  A message whose sender's row is already in the table, but which the answer about the last
  message sent does not show, is never acknowledged and stores nothing.
\<close>

lemma private_unseen_refused:
  assumes i: "inv w" and p: "save_private st nm t ids w = (w', res)"
    and k: "(nm_user_id nm, nm_user_id nm, nm_client_time nm) \<in> unique_key ` set (rows w)"
  shows "rows w' = rows w \<and> isl res"
proof (cases "msg_ids ids 0"; cases "msg_ids ids 1")
  fix sid rid assume s: "msg_ids ids 0 = Inr sid" "msg_ids ids 1 = Inr rid"
  let ?m = "new_private_msg nm t (mi_start_msg_id sid) (mi_start_msg_id rid)"
  obtain w1 r where sv: "st_SavePrivateMsg st ?m w = (w1, r)" by fastforce
  have "\<not> keys_free (rows w) [sender_row ?m, receiver_row ?m]"
    using k by (intro keys_free_Cons_clash) (simp add: unique_key_def sender_row_def new_private_msg_def)
  with private_save [OF i sv] have "rows w1 = rows w" "r \<noteq> Inr ()" by auto
  with p s sv show ?thesis by (cases r) (auto simp: save_private_def)
qed (use p in \<open>auto simp: save_private_def\<close>)

lemma group_unseen_refused:
  assumes i: "inv w" and u: "unique_rows (rows w)" and p: "save_group st nm t (sid # ids) w = (w', res)"
    and sid: "mi_user_id sid = nm_user_id nm"
    and k: "(nm_user_id nm, nm_user_id nm, nm_client_time nm) \<in> unique_key ` set (rows w)"
  shows "rows w' = rows w \<and> isl res"
proof -
  let ?m = "new_group_msg nm t (sid # ids)"
  obtain w1 r where sv: "st_SaveGroupMsg st ?m w = (w1, r)" by fastforce
  from group_save [OF i sv] u obtain n where
    n: "rows w1 = rows w @ map (group_row ?m) (take n (ngm_user_and_msgids ?m))"
       "r = Inr () \<longrightarrow> length (ngm_user_and_msgids ?m) \<le> n" "unique_rows (rows w1)" by blast
  have "n = 0"
  proof (cases n)
    case (Suc j)
    then obtain x xs where x: "map (group_row ?m) (take n (ngm_user_and_msgids ?m)) = x # xs"
      and key: "unique_key x = (nm_user_id nm, nm_user_id nm, nm_client_time nm)"
      using sid by (auto simp: new_group_msg_def group_row_def unique_key_def)
    from n(1,3) x have "keys_free (rows w) (x # xs)" by (simp add: unique_rows_append)
    with keys_free_Cons_clash [of x "rows w" xs] key k show ?thesis by auto
  qed
  with n have "rows w1 = rows w" "r \<noteq> Inr ()" by (auto simp: new_group_msg_def)
  with p sv show ?thesis by (auto simp: save_group_def Let_def split: sum.splits err.splits if_splits)
qed

lemma unseen_refused:
  assumes i: "inv w" and u: "unique_rows (rows w)"
    and k: "(nm_user_id nm, nm_user_id nm, nm_client_time nm) \<in> unique_key ` set (rows w)"
    and l: "\<And>w1 d. st_GetUserLastSendData st (nm_user_id nm) w = (w1, Inr d) \<Longrightarrow> ul_client_time d \<noteq> nm_client_time nm"
    and s: "SendMsg st now nm w = (w', res)"
  shows "rows w' = rows w \<and> isl res"
proof -
  obtain w1 d where a: "st_GetUserLastSendData st (nm_user_id nm) w = (w1, d)" by fastforce
  have i1: "inv w1" "rows w1 = rows w" using last_keeps [OF i a] by auto
  show ?thesis
  proof (cases d)
    case (Inl e) with a s i1 show ?thesis by (auto simp: SendMsg_def)
  next
    case (Inr d')
    note nd = l [OF a [unfolded Inr]]
    obtain w2 q where b: "id_request_of st nm w1 = (w2, q)" by fastforce
    have i2: "inv w2" "rows w2 = rows w"
    proof -
      have "inv w2 \<and> rows w2 = rows w"
      proof (cases "nm_msg_type nm")
        case PRIVATE with b i1 show ?thesis by (simp add: id_request_of_def)
      next
        case GROUP
        obtain w3 us where c: "st_GetGroupMembers st (nm_peer_id nm) w1 = (w3, us)" by fastforce
        with b GROUP have "w2 = w3" by (cases us) (auto simp: id_request_of_def)
        with members_keeps [OF i1(1) c] i1(2) show ?thesis by simp
      qed
      then show "inv w2" "rows w2 = rows w" by auto
    qed
    show ?thesis
    proof (cases q)
      case (Inl e) with a s b i2 Inr nd show ?thesis by (auto simp: SendMsg_def)
    next
      case q: (Inr q')
      obtain w3 ids where c: "st_IdGenerate st q' w2 = (w3, ids)" by fastforce
      have i3: "inv w3" "rows w3 = rows w" using ids_keeps [OF i2(1) c] i2(2) by auto
      show ?thesis
      proof (cases ids)
        case (Inl e) with a s b c i3 Inr q nd show ?thesis by (auto simp: SendMsg_def)
      next
        case ids: (Inr ids')
        obtain w4 r where sv: "(case nm_msg_type nm of
            PRIVATE \<Rightarrow> save_private st nm (to_i32 now) ids' w3
          | GROUP \<Rightarrow> save_group st nm (to_i32 now) ids' w3) = (w4, r)" by fastforce
        have "rows w4 = rows w \<and> isl r"
        proof (cases "nm_msg_type nm")
          case PRIVATE
          with sv private_unseen_refused [OF i3(1), of nm "to_i32 now" ids' w4 r] k i3(2) show ?thesis by simp
        next
          case GROUP
          from b q GROUP obtain q'' where "q' = one_id (nm_user_id nm) # q''"
            by (auto simp: id_request_of_def elim!: and_then_InrE)
          with ids_answer [OF i2(1) c [unfolded ids]] obtain sid rest where
            "ids' = sid # rest" "mi_user_id sid = nm_user_id nm"
            by (cases ids') (auto simp: one_id_def)
          with sv GROUP group_unseen_refused [OF i3(1) _ _ _, of nm "to_i32 now" sid rest w4 r] k u i3(2)
          show ?thesis by simp
        qed
        with a s b c sv Inr q ids nd show ?thesis by (cases r) (auto simp: SendMsg_def Let_def)
      qed
    qed
  qed
qed

end

end
