(* ===== verification/IdGen_Correct.thy ===== *)
theory IdGen_Correct
  imports IdGen
begin

text \<open>
  The properties of the id generator: within one process the ids of a user increase, the
  blocks follow each other, a reservation covers its block, and what a restart does. The
  witnesses run the model over \<open>map_db\<close>, a leveldb that never fails.
\<close>

section \<open>A leveldb to evaluate on\<close>

definition map_db :: "(string \<Rightarrow> string option) leveldb" where
  "map_db = \<lparr>ldb_Get = (\<lambda>d k. case d k of None \<Rightarrow> (NotFound, [], d) | Some v \<Rightarrow> (StatusOK, v, d)),
             ldb_Put = (\<lambda>d k v. (StatusOK, d(k \<mapsto> v)))\<rparr>"

definition fresh_idgen :: "'d \<Rightarrow> 'd idgen" where
  "fresh_idgen d = \<lparr>id_cache = (\<lambda>_ _. None), ldb = d\<rparr>"

lemma map_db_ok: "leveldb_ok map_db id"
  by (auto simp: leveldb_ok_def map_db_def split: option.splits)

lemma fresh_map_db_inv: "idgen_inv map_db id (fresh_idgen (\<lambda>_. None))"
  by (simp add: idgen_inv_def map_db_ok fresh_idgen_def)

lemma idgen_inv_restart: "idgen_inv ops contents s \<Longrightarrow> idgen_inv ops contents (idgen_restart s)"
  by (simp add: idgen_inv_def idgen_restart_def)

lemma cached_restart [simp]: "cached (idgen_restart s) u = 0"
  by (simp add: cached_def idgen_restart_def split: sum.split)

lemma stored_restart [simp]: "stored contents (idgen_restart s) u = stored contents s u"
  by (simp add: stored_def idgen_restart_def)

lemma next_base_restart [simp]: "next_base contents (idgen_restart s) u = stored contents s u"
  by (simp add: next_base_def)

lemma fresh_idgen_simps [simp]: "id_cache (fresh_idgen d) = (\<lambda>_ _. None)" "ldb (fresh_idgen d) = d"
  by (simp_all add: fresh_idgen_def)

lemmas eval_idgen = IdGenerate_def fetch_id_def load_id_def needs_put_def reserve_def hand_out_def
  block_end_def bucket_of_def kBucketNum_def smod_int_alt_def signed_divide_int_def set_cache_def
  map_db_def fresh_idgen_def i64_def in_i64_def Let_def

section \<open>One process\<close>

text \<open>
  C16: within one process the ids that a user is given strictly increase, whatever other
  users and failed calls come between, and all of them are above the last id before.
\<close>

theorem process_ids_increase:
  assumes "idgen_inv ops contents s" "1 \<le> N" "\<forall>(u, n) \<in> set reqs. 1 \<le> n"
    and "run_requests (IdGenerate ops N) s reqs = (s', log)"
  shows "sorted_wrt (<) (ids_of id_issued u log) \<and> (\<forall>x \<in> set (ids_of id_issued u log). cached s u < x)"
  using idg.run_ids [where ops = ops and N = N and contents = contents, OF _ assms(3,4)] assms(1,2) by blast

theorem process_ids_increase_witness:
  "\<exists>s' log. run_requests (IdGenerate map_db 4) (fresh_idgen (\<lambda>_. None)) [(7, 3), (8, 1), (7, 2)] = (s', log) \<and>
    sorted_wrt (<) (ids_of id_issued 7 log) \<and> list_all ((<) 0) (ids_of id_issued 7 log)"
proof -
  let ?s = "fresh_idgen (\<lambda>_. None)"
  obtain s' log where r: "run_requests (IdGenerate map_db 4) ?s [(7, 3), (8, 1), (7, 2)] = (s', log)"
    by fastforce
  have c: "cached ?s 7 = 0" by (simp add: cached_def split: sum.split)
  have n: "\<forall>(u, n) \<in> set [(7, 3), (8, 1), (7, 2)]. (1::int) \<le> n" by simp
  have N: "(1::int) \<le> 4" by simp
  show ?thesis
    using r process_ids_increase [OF fresh_map_db_inv N n r, of 7] unfolding c list_all_iff by blast
qed

text \<open>
  A call that succeeds after an earlier one continues exactly where it stopped: the
  blocks of a user follow each other without a gap.
\<close>

lemma blocks_are_contiguous:
  assumes "idgen_inv ops contents s" "1 \<le> N" "1 \<le> n" "1 \<le> m"
    and "IdGenerate ops N s u n = (s1, Inr (StatusOK, i))"
    and "IdGenerate ops N s1 u m = (s2, Inr (StatusOK, j))"
  shows "j = i + n"
proof -
  note C1 = IdGenerate_spec [OF assms(1,3,2,5)]
  note C2 = IdGenerate_spec [OF call_specD(1) [OF C1] assms(4,2,6)]
  have "0 \<le> next_base contents s u"
    using next_base_ge [OF assms(1), of u] good_idD(1) [OF good_id_cached [OF assms(1), of u]] by linarith
  then show ?thesis
    using call_specD(3,4) [OF C1, of i] call_specD(3) [OF C2, of j] assms(3) by (simp add: next_base_def [of _ s1])
qed

lemma reservation_covers:
  assumes "idgen_inv ops contents s" "1 \<le> N" "1 \<le> n" "reserves N s u n"
    and "IdGenerate ops N s u n = (s', Inr (StatusOK, i))"
  shows "cached s' u = i + n - 1 \<and> cached s' u \<le> stored contents s' u \<and>
    stored contents s' u < cached s' u + N \<and> N dvd stored contents s' u"
proof -
  note C = IdGenerate_spec [OF assms(1,3,2,5)]
  have base: "0 \<le> next_base contents s u"
    using next_base_ge [OF assms(1), of u] good_idD(1) [OF good_id_cached [OF assms(1), of u]] by linarith
  obtain e where e: "block_end N (next_base contents s u) n = Inr e"
    and c: "contents (ldb s') = (contents (ldb s))(to_string u \<mapsto> to_string e)"
    using C assms(4) by (auto simp: call_spec_def)
  note E = block_end_Inr [OF e base assms(3,2)]
  have "stored contents s' u = e" using c E(5) by (simp add: stored_def good_idD)
  with E call_specD(3,4) [OF C, of i] show ?thesis by simp
qed

text \<open>
  C38: the first successful call of a process for a user, and every call that reserves,
  leaves in leveldb a multiple of the block size that is not below the last id handed out.
\<close>

theorem reservation_covers_block:
  assumes "idgen_inv ops contents s" "1 \<le> N" "1 \<le> n" "reserves N s u n"
    and "IdGenerate ops N s u n = (s', Inr (StatusOK, i))"
  shows "cached s' u = i + n - 1 \<and> cached s' u \<le> stored contents s' u \<and>
    stored contents s' u < cached s' u + N \<and> N dvd stored contents s' u"
  using assms by (rule reservation_covers)

section \<open>A restart\<close>

text \<open>
  \<open>covered\<close>: the reservation in leveldb is at a block end and not below the cached id.
  A call that does not start exactly on a block end keeps it, whether it succeeds or not.
\<close>

definition covered :: "('d \<Rightarrow> string \<Rightarrow> string option) \<Rightarrow> int \<Rightarrow> 'd idgen \<Rightarrow> int \<Rightarrow> bool" where
  "covered contents N s u \<longleftrightarrow> cached s u \<le> stored contents s u \<and> N dvd stored contents s u"

definition off_boundary :: "int \<Rightarrow> 'd idgen \<Rightarrow> int \<Rightarrow> bool" where
  "off_boundary N s u \<longleftrightarrow> cached s u = 0 \<or> cached s u mod N \<noteq> 0"

lemma room_in_block:
  assumes "c \<le> (e::int)" "N dvd e" "c mod N \<noteq> 0" "c mod N + n \<le> N" "1 \<le> N"
  shows "c + n \<le> e"
proof -
  obtain k where k: "e = N * k" using assms(2) by blast
  have c: "c = N * (c div N) + c mod N" by simp
  have m: "0 < c mod N" using assms(3) pos_mod_sign [of N c] assms(5) by linarith
  have "N * (c div N) < N * k" using c m assms(1) k by linarith
  then have "c div N + 1 \<le> k" using assms(5) by simp
  then have "N * (c div N + 1) \<le> N * k" using assms(5) by (intro mult_left_mono) auto
  then have "N * (c div N) + N \<le> e" using k by (simp add: distrib_left)
  with c assms(4) show ?thesis by linarith
qed

lemma covered_step:
  assumes inv: "idgen_inv ops contents s" and N: "1 \<le> N" and n: "1 \<le> n"
    and cov: "covered contents N s u" and off: "off_boundary N s v"
    and g: "IdGenerate ops N s v n = (s', r)"
  shows "covered contents N s' u"
proof -
  note C = IdGenerate_spec [OF inv n N g]
  have base: "0 \<le> next_base contents s v"
    using next_base_ge [OF inv, of v] good_idD(1) [OF good_id_cached [OF inv, of v]] by linarith
  show ?thesis
  proof (cases "u = v")
    case False
    then have "to_string u \<noteq> to_string v" by simp
    then have "contents (ldb s') (to_string u) = contents (ldb s) (to_string u)"
      using C by (auto simp: call_spec_def)
    then have "stored contents s' u = stored contents s u" by (simp add: stored_def)
    with cov call_specD(2) [OF C False] show ?thesis by (simp add: covered_def)
  next
    case True
    have nb: "next_base contents s u \<le> stored contents s u"
      using cov by (simp add: covered_def next_base_def)
    show ?thesis
    proof (cases "contents (ldb s') = contents (ldb s)")
      case same: True
      then have st: "stored contents s' u = stored contents s u" by (simp add: stored_def)
      have "cached s' u \<le> stored contents s u"
      proof (cases "id_issued r")
        case None
        with call_specD(5) [OF C] True cov nb show ?thesis by (auto simp: covered_def)
      next
        case (Some i)
        show ?thesis
        proof (cases "reserves N s v n")
          case res: True
          with C Some same obtain e where e: "block_end N (next_base contents s v) n = Inr e"
            and c: "contents (ldb s) = (contents (ldb s))(to_string v \<mapsto> to_string e)"
            by (auto simp: call_spec_def)
          note E = block_end_Inr [OF e base n N]
          from c have "contents (ldb s) (to_string v) = Some (to_string e)" by (metis fun_upd_same)
          then have "stored contents s v = e" using E(5) by (simp add: stored_def good_idD)
          with E(2) True call_specD(4) [OF C Some] show ?thesis by simp
        next
          case False
          with off have "cached s v mod N \<noteq> 0" "cached s v mod N + n \<le> N" "cached s v \<noteq> 0"
            by (auto simp: reserves_def off_boundary_def)
          with room_in_block [of "cached s v" "stored contents s v" N n] cov True N
          have "cached s v + n \<le> stored contents s v" by (simp add: covered_def)
          with call_specD(4) [OF C Some] True \<open>cached s v \<noteq> 0\<close> show ?thesis by (simp add: next_base_def)
        qed
      qed
      with st cov show ?thesis by (simp add: covered_def)
    next
      case changed: False
      then obtain e where e: "block_end N (next_base contents s v) n = Inr e"
        and c: "contents (ldb s') = (contents (ldb s))(to_string v \<mapsto> to_string e)"
        using C by (auto simp: call_spec_def)
      note E = block_end_Inr [OF e base n N]
      have st: "stored contents s' u = e" using c E(5) True by (simp add: stored_def good_idD)
      have "cached s' u \<le> e"
        using call_specD(4,5) [OF C] E(2) n True next_base_ge [OF inv, of v] by (cases "id_issued r") auto
      with st E(4) show ?thesis by (simp add: covered_def)
    qed
  qed
qed

fun off_boundary_run :: "'d leveldb \<Rightarrow> int \<Rightarrow> 'd idgen \<Rightarrow> (int \<times> int) list \<Rightarrow> bool" where
  "off_boundary_run ops N s [] = True"
| "off_boundary_run ops N s ((u, n) # rs) =
     (off_boundary N s u \<and> off_boundary_run ops N (fst (IdGenerate ops N s u n)) rs)"

lemma covered_run:
  "idgen_inv ops contents s \<Longrightarrow> 1 \<le> N \<Longrightarrow> \<forall>(u, n) \<in> set rs. 1 \<le> n \<Longrightarrow> covered contents N s u \<Longrightarrow>
   off_boundary_run ops N s rs \<Longrightarrow> run_requests (IdGenerate ops N) s rs = (s', log) \<Longrightarrow>
   covered contents N s' u"
proof (induction rs arbitrary: s log)
  case (Cons a rs)
  obtain v n where a: "a = (v, n)" by fastforce
  obtain s1 r where g: "IdGenerate ops N s v n = (s1, r)" by fastforce
  obtain log' where l: "run_requests (IdGenerate ops N) s1 rs = (s', log')"
    using Cons.prems(6) a g by (auto split: prod.splits)
  have n: "1 \<le> n" using Cons.prems(3) a by simp
  have o: "off_boundary N s v" "off_boundary_run ops N s1 rs" using Cons.prems(5) a g by simp_all
  show ?case
    using Cons.IH [OF call_specD(1) [OF IdGenerate_spec [OF Cons.prems(1) n Cons.prems(2) g]] Cons.prems(2) _
        covered_step [OF Cons.prems(1,2) n Cons.prems(4) o(1) g] o(2) l] Cons.prems(3) by simp
qed simp

text \<open>
  If no call of a process starts exactly on a block end, the first id after a restart
  is above every id the process handed out.
\<close>

lemma restart_is_safe_off_boundary:
  assumes "idgen_inv ops contents s" "1 \<le> N" "\<forall>(u, n) \<in> set reqs. 1 \<le> n"
    and "covered contents N s u" "off_boundary_run ops N s reqs"
    and "run_requests (IdGenerate ops N) s reqs = (s', log)" "1 \<le> n"
    and "IdGenerate ops N (idgen_restart s') u n = (s'', Inr (StatusOK, i))"
  shows "\<forall>x \<in> set (ids_of id_issued u log). x < i"
proof -
  have inv': "idgen_inv ops contents s'"
    using idg.run_inv [where ops = ops and N = N and contents = contents, OF _ assms(3,6)] assms(1,2) by blast
  have le: "\<forall>x \<in> set (ids_of id_issued u log). x \<le> cached s' u"
    using idg.run_ids [where ops = ops and N = N and contents = contents, OF _ assms(3,6)] assms(1,2) by blast
  have cov: "covered contents N s' u" using covered_run [OF assms(1-6)] .
  have "i = stored contents s' u + 1"
    using call_specD(3) [OF IdGenerate_spec [OF idgen_inv_restart [OF inv'] assms(7,2,8)], of i] by simp
  with le cov show ?thesis by (fastforce simp: covered_def)
qed

lemma no_reservation_keeps:
  assumes "idgen_inv ops contents s" "1 \<le> n" "1 \<le> N" "IdGenerate ops N s u n = (s', r)" "\<not> reserves N s u n"
  shows "contents (ldb s') = contents (ldb s)"
  using IdGenerate_spec [OF assms(1-4)] assms(5) by (auto simp: call_spec_def)

text \<open>
  A call that starts exactly on the block end that leveldb holds reserves nothing, so
  a restart hands out the same id again.
\<close>

lemma block_end_call_is_repeated_after_restart:
  assumes "idgen_inv ops contents s" "1 \<le> N" "1 \<le> n" "n \<le> N" "1 \<le> m"
    and "cached s u \<noteq> 0" "cached s u = stored contents s u" "N dvd stored contents s u"
    and "IdGenerate ops N s u n = (s', Inr (StatusOK, i))"
    and "IdGenerate ops N (idgen_restart s') u m = (s'', Inr (StatusOK, j))"
  shows "j = i"
proof -
  note C = IdGenerate_spec [OF assms(1,3,2,9)]
  have "\<not> reserves N s u n" using assms(4,6-8) by (simp add: reserves_def)
  then have "contents (ldb s') = contents (ldb s)"
    by (rule no_reservation_keeps [OF assms(1,3,2,9)])
  then have "stored contents s' u = stored contents s u" by (simp add: stored_def)
  moreover have "j = stored contents s' u + 1"
    using call_specD(3) [OF IdGenerate_spec [OF idgen_inv_restart [OF call_specD(1) [OF C]] assms(5,2,10)], of j]
    by simp
  moreover have "i = cached s u + 1" using call_specD(3) [OF C, of i] assms(6) by (simp add: next_base_def)
  ultimately show ?thesis using assms(7) by simp
qed

lemma single_run:
  "idgen_inv ops contents s \<Longrightarrow> 1 \<le> N \<Longrightarrow> cached s u \<noteq> 0 \<Longrightarrow>
   run_requests (IdGenerate ops N) s (replicate k (u, 1)) = (s', log) \<Longrightarrow>
   \<forall>(v, n, r) \<in> set log. id_issued r \<noteq> None \<Longrightarrow>
   contents (ldb s') = contents (ldb s) \<and> ids_of id_issued u log = [cached s u + 1..cached s u + int k]"
proof (induction k arbitrary: s log)
  case (Suc k)
  obtain s1 r where g: "IdGenerate ops N s u 1 = (s1, r)" by fastforce
  obtain log' where l: "run_requests (IdGenerate ops N) s1 (replicate k (u, 1)) = (s', log')"
    and log: "log = (u, 1, r) # log'"
    using Suc.prems(4) g by (auto split: prod.splits)
  obtain i where i: "id_issued r = Some i" using Suc.prems(5) log by auto
  have one: "(1::int) \<le> 1" by simp
  note C = IdGenerate_spec [OF Suc.prems(1) one Suc.prems(2) g]
  have c: "i = cached s u + 1" "cached s1 u = cached s u + 1"
    using call_specD(3,4) [OF C i] Suc.prems(3) by (simp_all add: next_base_def)
  have "\<not> reserves N s u 1"
    using Suc.prems(2,3) by (simp add: reserves_def not_le)
  then have "contents (ldb s1) = contents (ldb s)"
    by (rule no_reservation_keeps [OF Suc.prems(1) one Suc.prems(2) g])
  moreover have "cached s1 u \<noteq> 0"
    using c good_idD(1) [OF good_id_cached [OF Suc.prems(1), of u]] by linarith
  ultimately show ?case
    using Suc.IH [OF call_specD(1) [OF C] Suc.prems(2) _ l] Suc.prems(5) log i c
    by (simp add: block_ids_def upto_rec1 [of "cached s u + 1"] add.assoc)
qed simp

text \<open>
  Ids taken one at a time, as the logic server takes them, reserve only the first
  block. After one more call than a block has ids, the first id after a restart is one
  that was handed out before.
\<close>

lemma single_ids_repeat_after_restart:
  assumes "idgen_inv ops contents s" "1 \<le> N" "cached s u = 0" "N dvd stored contents s u" "N < int k"
    and "run_requests (IdGenerate ops N) s (replicate k (u, 1)) = (s', log)"
    and "\<forall>(v, n, r) \<in> set log. id_issued r \<noteq> None"
    and "IdGenerate ops N (idgen_restart s') u 1 = (s'', Inr (StatusOK, i))"
  shows "i \<in> set (ids_of id_issued u log)"
proof -
  obtain k' where k: "k = Suc k'" using assms(2,5) by (cases k) auto
  obtain s1 r where g: "IdGenerate ops N s u 1 = (s1, r)" by fastforce
  obtain log' where l: "run_requests (IdGenerate ops N) s1 (replicate k' (u, 1)) = (s', log')"
    and log: "log = (u, 1, r) # log'"
    using assms(6) g unfolding k by (auto split: prod.splits)
  obtain j where j: "id_issued r = Some j" using assms(7) log by auto
  have one: "(1::int) \<le> 1" by simp
  note C = IdGenerate_spec [OF assms(1) one assms(2) g]
  have st0: "0 \<le> stored contents s u" using good_idD(1) [OF good_id_stored [OF assms(1)]] .
  have c1: "cached s1 u = stored contents s u + 1" using call_specD(4) [OF C j] assms(3) by (simp add: next_base_def)
  have res: "reserves N s u 1" using assms(3) by (simp add: reserves_def)
  have g': "IdGenerate ops N s u 1 = (s1, Inr (StatusOK, j))" using g j by simp
  note R = reservation_covers [OF assms(1,2) one res g']
  have R': "cached s1 u \<le> stored contents s1 u" "stored contents s1 u < cached s1 u + N" "N dvd stored contents s1 u"
    using R by simp_all
  note S = single_run [OF call_specD(1) [OF C] assms(2) _ l]
  have S': "contents (ldb s') = contents (ldb s1)" "ids_of id_issued u log' = [cached s1 u + 1..cached s1 u + int k']"
    using S assms(7) log c1 st0 by auto
  have inv': "idgen_inv ops contents s'"
    using idg.run_inv [where ops = ops and N = N and contents = contents, OF _ _ assms(6)] assms(1,2) by auto
  have "i = stored contents s' u + 1"
    using call_specD(3) [OF IdGenerate_spec [OF idgen_inv_restart [OF inv'] one assms(2,8)], of i] by simp
  also have "stored contents s' u = stored contents s1 u" using S'(1) by (simp add: stored_def)
  finally have i: "i = stored contents s1 u + 1" .
  obtain a b where ab: "stored contents s u = N * a" "stored contents s1 u = N * b"
    using assms(4) R'(3) by blast
  have "N * a < N * b" "N * b < N * a + N * 2" using R' c1 ab assms(2) by linarith+
  then have "N * a < N * b" "N * b < N * (a + 2)" by (simp_all only: distrib_left)
  then have "b = a + 1" using assms(2) by simp
  then have "stored contents s1 u = stored contents s u + N" using ab by (simp add: distrib_left)
  with i c1 assms(5) k assms(2) have "cached s1 u + 1 \<le> i" "i \<le> cached s1 u + int k'" by linarith+
  then show ?thesis using S'(2) log by simp
qed

section \<open>The service\<close>

definition reply_entry :: "int \<times> int \<times> (fault + status \<times> int) \<Rightarrow> MsgIds" where
  "reply_entry e = (case e of (u, n, r) \<Rightarrow>
     \<lparr>mi_user_id = u, mi_start_msg_id = (case id_issued r of None \<Rightarrow> 0 | Some i \<Rightarrow> i), mi_msg_id_num = n\<rparr>)"

abbreviation asked :: "UserAndIdNum list \<Rightarrow> (int \<times> int) list" where
  "asked reqs \<equiv> map (\<lambda>r. (un_user_id r, un_need_msgid_num r)) reqs"

definition all_issued :: "(int \<times> int \<times> (fault + status \<times> int)) list \<Rightarrow> bool" where
  "all_issued log \<longleftrightarrow> (\<forall>(u, n, r) \<in> set log. id_issued r \<noteq> None)"

lemma service_run_iff:
  "IdGenService ops N s reqs = (s', Inr reply) \<longleftrightarrow>
   (\<exists>log. run_requests (IdGenerate ops N) s (asked reqs) = (s', log) \<and> all_issued log \<and>
     reply = map reply_entry log)"
proof (induction reqs arbitrary: s reply)
  case (Cons q qs)
  obtain s1 r where g: "IdGenerate ops N s (un_user_id q) (un_need_msgid_num q) = (s1, r)" by fastforce
  show ?case
  proof (cases "id_issued r")
    case None
    then have "IdGenService ops N s (q # qs) \<noteq> (s', Inr reply)"
      using g by (auto simp: id_issued_def split: sum.splits if_splits)
    moreover have "\<not> all_issued log" if "run_requests (IdGenerate ops N) s (asked (q # qs)) = (s', log)" for log
      using that g None by (auto simp: all_issued_def split: prod.splits)
    ultimately show ?thesis by blast
  next
    case (Some i)
    then have r: "r = Inr (StatusOK, i)" by simp
    show ?thesis
      using g unfolding r
      by (auto simp: and_then_Inr Cons.IH all_issued_def reply_entry_def split: prod.splits)
  qed
qed (auto simp: all_issued_def)

lemma service_reply_users:
  assumes "IdGenService ops N s reqs = (s', Inr reply)"
  shows "map (\<lambda>m. (mi_user_id m, mi_msg_id_num m)) reply = asked reqs"
proof -
  have "map (\<lambda>(u, n, r). (u, n)) log = rs" if "run_requests gen t rs = (t', log)"
    for gen :: "'d idgen \<Rightarrow> int \<Rightarrow> int \<Rightarrow> 'd idgen \<times> (fault + status \<times> int)" and t t' rs log
    using that by (induction rs arbitrary: t log) (auto split: prod.splits)
  with assms show ?thesis
    unfolding service_run_iff by (auto simp: reply_entry_def split_def comp_def)
qed

text \<open>
  The service answers exactly when every call of the request succeeds, and then its
  answer has one block per entry of the request, in the order of the request.
\<close>

lemma service_reply_is_the_run:
  "IdGenService ops N s reqs = (s', Inr reply) \<longleftrightarrow>
   (\<exists>log. run_requests (IdGenerate ops N) s (asked reqs) = (s', log) \<and> all_issued log \<and>
     reply = map reply_entry log)"
  by (rule service_run_iff)

text \<open>
  A request that fails stops at the first call that fails; the blocks that the calls
  before it handed out stay handed out, and the caller is not told about them.
\<close>

lemma service_failure_keeps_prefix:
  assumes "IdGenService ops N s reqs = (s', Inl e)"
  shows "\<exists>k s1 log r. k < length reqs \<and> run_requests (IdGenerate ops N) s (asked (take k reqs)) = (s1, log) \<and>
    all_issued log \<and> IdGenerate ops N s1 (un_user_id (reqs ! k)) (un_need_msgid_num (reqs ! k)) = (s', r) \<and>
    id_issued r = None"
  using assms
proof (induction reqs arbitrary: s)
  case (Cons q qs)
  obtain s1 r where g: "IdGenerate ops N s (un_user_id q) (un_need_msgid_num q) = (s1, r)" by fastforce
  show ?case
  proof (cases "id_issued r")
    case None
    then have "s' = s1" using Cons.prems g by (auto simp: id_issued_def split: sum.splits if_splits)
    with g None show ?thesis by (intro exI [of _ 0]) (simp add: all_issued_def)
  next
    case (Some i)
    then have r: "r = Inr (StatusOK, i)" by simp
    obtain e' where "IdGenService ops N s1 qs = (s', Inl e')"
      using Cons.prems g r by (cases "IdGenService ops N s1 qs"; cases "snd (IdGenService ops N s1 qs)") auto
    from Cons.IH [of s1] this Cons.prems g r obtain k s2 log r' where
      k: "k < length qs" "run_requests (IdGenerate ops N) s1 (asked (take k qs)) = (s2, log)" "all_issued log"
         "IdGenerate ops N s2 (un_user_id (qs ! k)) (un_need_msgid_num (qs ! k)) = (s', r')" "id_issued r' = None"
      by (cases "IdGenService ops N s1 qs"; cases "snd (IdGenService ops N s1 qs)") auto
    then show ?thesis using g r
      by (intro exI [of _ "Suc k"] exI [of _ s2]) (auto simp: all_issued_def)
  qed
qed simp

section \<open>Witnesses\<close>

abbreviation idgen0 :: "(string \<Rightarrow> string option) idgen" where
  "idgen0 \<equiv> fresh_idgen (\<lambda>_. None)"

lemma run_map_db_4:
  "IdGenerate map_db 4 idgen0 7 3 =
   (\<lparr>id_cache = (\<lambda>_ _. None)(7 := [7 \<mapsto> 3]), ldb = [to_string 7 \<mapsto> to_string 4]\<rparr>, Inr (StatusOK, 1))"
  by (simp add: eval_idgen)

lemma idgen0_facts: "cached idgen0 u = 0" "stored id idgen0 u = 0"
  by (simp_all add: cached_def stored_def split: sum.split)

abbreviation idgen_at :: "int \<Rightarrow> int \<Rightarrow> (string \<Rightarrow> string option) idgen" where
  "idgen_at c e \<equiv> \<lparr>id_cache = (\<lambda>_ _. None)(7 := [7 \<mapsto> c]), ldb = [to_string 7 \<mapsto> to_string e]\<rparr>"

lemma idgen_at_inv: "good_id c \<Longrightarrow> good_id e \<Longrightarrow> idgen_inv map_db id (idgen_at c e)"
  by (auto simp: idgen_inv_def map_db_ok)

lemma idgen_at_facts: "cached (idgen_at c e) 7 = c" "good_id e \<Longrightarrow> stored id (idgen_at c e) 7 = e"
  by (simp_all add: cached_def stored_def bucket_of_def kBucketNum_def smod_int_alt_def good_idD)

lemma at_calls:
  "IdGenerate map_db 4 (idgen_at 3 4) 7 2 = (idgen_at 5 8, Inr (StatusOK, 4))"
  "IdGenerate map_db 4 (idgen_at 4 4) 7 1 = (idgen_at 5 4, Inr (StatusOK, 5))"
  "IdGenerate map_db 4 (idgen_restart (idgen_at 3 4)) 7 1 = (idgen_at 5 8, Inr (StatusOK, 5))"
  "IdGenerate map_db 4 (idgen_restart (idgen_at 5 4)) 7 1 = (idgen_at 5 8, Inr (StatusOK, 5))"
  "IdGenerate map_db 2 idgen0 7 1 = (idgen_at 1 2, Inr (StatusOK, 1))"
  "IdGenerate map_db 2 (idgen_at 1 2) 7 1 = (idgen_at 2 2, Inr (StatusOK, 2))"
  "IdGenerate map_db 2 (idgen_at 2 2) 7 1 = (idgen_at 3 2, Inr (StatusOK, 3))"
  "IdGenerate map_db 2 (idgen_restart (idgen_at 3 2)) 7 1 = (idgen_at 3 4, Inr (StatusOK, 3))"
  by (simp_all add: eval_idgen idgen_restart_def)

lemma blocks_are_contiguous_witness:
  "IdGenerate map_db 4 idgen0 7 3 = (idgen_at 3 4, Inr (StatusOK, 1)) \<and>
   IdGenerate map_db 4 (idgen_at 3 4) 7 2 = (idgen_at 5 8, Inr (StatusOK, 4)) \<and> (4::int) = 1 + 3"
  using blocks_are_contiguous [OF fresh_map_db_inv _ _ _ run_map_db_4 at_calls(1)] run_map_db_4 at_calls(1)
  by simp

theorem reservation_covers_block_witness:
  "reserves 4 idgen0 7 3 \<and> cached (idgen_at 3 4) 7 = 3 \<and> (3::int) \<le> stored id (idgen_at 3 4) 7"
proof -
  have r: "reserves 4 idgen0 7 3" by (simp add: reserves_def idgen0_facts)
  have n: "(1::int) \<le> 4" "(1::int) \<le> 3" by simp_all
  show ?thesis using reservation_covers_block [OF fresh_map_db_inv n r run_map_db_4] r by simp
qed

lemma restart_is_safe_off_boundary_witness:
  "run_requests (IdGenerate map_db 4) idgen0 [(7, 3)] = (idgen_at 3 4, [(7, 3, Inr (StatusOK, 1))]) \<and>
   list_all (\<lambda>x. x < 5) (ids_of id_issued 7 [(7, 3, Inr (StatusOK, 1))])"
proof -
  have r: "run_requests (IdGenerate map_db 4) idgen0 [(7, 3)] = (idgen_at 3 4, [(7, 3, Inr (StatusOK, 1))])"
    by (simp add: run_map_db_4)
  have n: "(1::int) \<le> 4" "\<forall>(u, n) \<in> set [(7::int, 3)]. (1::int) \<le> n" "(1::int) \<le> 1" by simp_all
  have c: "covered id 4 idgen0 7" "off_boundary_run map_db 4 idgen0 [(7, 3)]"
    by (simp_all add: covered_def off_boundary_def idgen0_facts)
  show ?thesis using r restart_is_safe_off_boundary [OF fresh_map_db_inv n(1,2) c r n(3) at_calls(3)]
    unfolding list_all_iff by blast
qed

lemma block_end_call_is_repeated_after_restart_witness:
  "IdGenerate map_db 4 (idgen_at 4 4) 7 1 = (idgen_at 5 4, Inr (StatusOK, 5)) \<and>
   IdGenerate map_db 4 (idgen_restart (idgen_at 5 4)) 7 1 = (idgen_at 5 8, Inr (StatusOK, 5)) \<and> (5::int) = 5"
proof -
  have g: "good_id 4" by (simp add: good_id_def in_i64_def)
  show ?thesis
    using block_end_call_is_repeated_after_restart [OF idgen_at_inv [OF g g] _ _ _ _ _ _ _ at_calls(2,4)]
      at_calls(2,4) by (simp add: idgen_at_facts g)
qed

lemma single_ids_repeat_after_restart_witness:
  "\<exists>log. run_requests (IdGenerate map_db 2) idgen0 (replicate 3 (7, 1)) = (idgen_at 3 2, log) \<and>
    3 \<in> set (ids_of id_issued 7 log)"
proof -
  let ?log = "[(7, 1, Inr (StatusOK, 1)), (7, 1, Inr (StatusOK, 2)), (7, 1, Inr (StatusOK, 3))]"
  have r: "run_requests (IdGenerate map_db 2) idgen0 (replicate 3 (7, 1)) = (idgen_at 3 2, ?log)"
    by (simp add: at_calls numeral_3_eq_3)
  have i: "\<forall>(v, n, r) \<in> set ?log. id_issued r \<noteq> None" by simp
  have c: "(1::int) \<le> 2" "(2::int) < int 3" by simp_all
  show ?thesis
    using r single_ids_repeat_after_restart [OF fresh_map_db_inv c(1) _ _ c(2) r i at_calls(8)]
    by (simp add: idgen0_facts)
qed

lemma service_failure_keeps_prefix_witness:
  "\<exists>s' e. IdGenService map_db 0 idgen0 [\<lparr>un_user_id = -1, un_need_msgid_num = 1\<rparr>] = (s', Inl e) \<and>
    (\<exists>k s1 log r. k < 1 \<and> run_requests (IdGenerate map_db 0) idgen0
        (asked (take k [\<lparr>un_user_id = -1, un_need_msgid_num = 1\<rparr>])) = (s1, log) \<and> all_issued log \<and>
      id_issued r = None)"
proof -
  let ?q = "[\<lparr>un_user_id = -1, un_need_msgid_num = 1\<rparr>]"
  have e: "IdGenService map_db 0 idgen0 ?q = (idgen0, Inl (Fault OutOfBounds))"
    by (simp add: IdGenerate_def bucket_of_negative)
  from service_failure_keeps_prefix [OF e] e show ?thesis by fastforce
qed

end
