(* ===== verification/IdGen_Service.thy ===== *)
theory IdGen_Service
  imports IdGen_Correct
begin

text \<open>
  The id generator across a restart: \<open>next_base\<close>, the id after which a user's next block
  starts whether or not the process has just been started, never decreases, so the service
  is an id allocator over it, and a whole request is answered with ids above it.
\<close>

lemma stored_other:
  assumes "contents (ldb s') = (contents (ldb s))(to_string u \<mapsto> v)" "w \<noteq> u"
  shows "stored contents s' w = stored contents s w"
  using assms by (simp add: stored_def)

lemma stored_new:
  assumes "contents (ldb s') = (contents (ldb s))(to_string u \<mapsto> to_string e)" "good_id e"
  shows "stored contents s' u = e"
  using assms by (simp add: stored_def good_idD)

lemma next_base_issued:
  assumes C: "call_spec ops contents N s u n s' r" and inv: "idgen_inv ops contents s" and n: "1 \<le> n"
    and i: "id_issued r = Some i"
  shows "next_base contents s u < i \<and> next_base contents s' u = i + n - 1"
proof -
  have "0 \<le> next_base contents s u"
    using good_idD(1) [OF good_id_cached [OF inv, of u]] next_base_ge [OF inv, of u] by linarith
  with call_specD(3,4) [OF C i] n show ?thesis by (auto simp: next_base_def [of contents s'])
qed

lemma next_base_other:
  assumes C: "call_spec ops contents N s u n s' r" and v: "v \<noteq> u"
  shows "next_base contents s' v = next_base contents s v"
proof -
  have "contents (ldb s') = contents (ldb s) \<or> (\<exists>e. contents (ldb s') = (contents (ldb s))(to_string u \<mapsto> to_string e))"
    using C unfolding call_spec_def by blast
  then have "stored contents s' v = stored contents s v"
    using stored_other [OF _ v] by (auto simp: stored_def)
  then show ?thesis using call_specD(2) [OF C v] by (simp add: next_base_def)
qed

lemma next_base_failed:
  assumes C: "call_spec ops contents N s u n s' r" and inv: "idgen_inv ops contents s"
    and n: "1 \<le> n" and N: "1 \<le> N" and i: "id_issued r = None"
  shows "next_base contents s u \<le> next_base contents s' u"
proof -
  let ?b = "next_base contents s u"
  have b0: "0 \<le> ?b"
    using good_idD(1) [OF good_id_cached [OF inv, of u]] next_base_ge [OF inv, of u] by linarith
  have c: "cached s' u = cached s u \<or> cached s' u = ?b" by (rule call_specD(5) [OF C i])
  have "contents (ldb s') = contents (ldb s) \<or>
      (\<exists>e. block_end N ?b n = Inr e \<and> contents (ldb s') = (contents (ldb s))(to_string u \<mapsto> to_string e))"
    using C unfolding call_spec_def by blast
  then have "stored contents s' u = stored contents s u \<or> ?b \<le> stored contents s' u"
  proof
    assume "contents (ldb s') = contents (ldb s)"
    then show ?thesis by (simp add: stored_def)
  next
    assume "\<exists>e. block_end N ?b n = Inr e \<and> contents (ldb s') = (contents (ldb s))(to_string u \<mapsto> to_string e)"
    then obtain e where e: "block_end N ?b n = Inr e"
      "contents (ldb s') = (contents (ldb s))(to_string u \<mapsto> to_string e)" by blast
    from stored_new [OF e(2)] block_end_Inr [OF e(1) b0 n N] n show ?thesis by simp
  qed
  with c show ?thesis by (auto simp: next_base_def split: if_splits)
qed

interpretation idb: id_allocator "IdGenerate ops N" id_issued "next_base contents"
  "\<lambda>s. idgen_inv ops contents s \<and> 1 \<le> N" for ops N contents
proof unfold_locales
  fix s s' :: "'a idgen" and n u v i r
  assume inv: "idgen_inv ops contents s \<and> 1 \<le> N" and n: "1 \<le> n" and g: "IdGenerate ops N s u n = (s', r)"
  note C = IdGenerate_spec [OF conjunct1 [OF inv] n conjunct2 [OF inv] g]
  show "idgen_inv ops contents s' \<and> 1 \<le> N" using call_specD(1) [OF C] inv by simp
  show "v \<noteq> u \<Longrightarrow> next_base contents s' v = next_base contents s v" by (rule next_base_other [OF C])
  show i: "id_issued r = Some i \<Longrightarrow> next_base contents s u < i \<and> next_base contents s' u = i + n - 1" for i
    by (rule next_base_issued [OF C conjunct1 [OF inv] n])
  show "next_base contents s u \<le> next_base contents s' u"
  proof (cases "id_issued r")
    case None
    then show ?thesis by (rule next_base_failed [OF C conjunct1 [OF inv] n conjunct2 [OF inv]])
  next
    case (Some j)
    with i n show ?thesis by fastforce
  qed
qed

section \<open>Requests\<close>

abbreviation ids_in :: "MsgIds list \<Rightarrow> (int \<times> int) list" where
  "ids_in reply \<equiv> map (\<lambda>m. (mi_user_id m, mi_start_msg_id m)) reply"

lemma single_step:
  assumes inv: "idgen_inv ops contents s" "1 \<le> N" and n: "1 \<le> n" and g: "IdGenerate ops N s u n = (s', r)"
  shows "idgen_inv ops contents s'" "next_base contents s v \<le> next_base contents s' v"
    "id_issued r = Some i \<Longrightarrow> next_base contents s u < i \<and> i \<le> next_base contents s' u"
proof -
  have i: "idgen_inv ops contents s \<and> 1 \<le> N" using inv by simp
  show "idgen_inv ops contents s'" using idb.gen_inv [OF i n g] by simp
  show "next_base contents s v \<le> next_base contents s' v"
    using idb.gen_mono [OF i n g] idb.gen_frame [OF i n g, of v] by (cases "v = u") auto
  show "id_issued r = Some i \<Longrightarrow> next_base contents s u < i \<and> i \<le> next_base contents s' u"
    using idb.gen_issue [OF i n g] n by fastforce
qed

text \<open>
  A request, whatever becomes of it: bases only grow, and an answer has a block per entry, whose
  first ids are different for each user, above the base before and not above the base after.
\<close>

lemma service_fresh:
  "idgen_inv ops contents s \<Longrightarrow> 1 \<le> N \<Longrightarrow> \<forall>q \<in> set reqs. 1 \<le> un_need_msgid_num q \<Longrightarrow>
   IdGenService ops N s reqs = (s', r) \<Longrightarrow>
   idgen_inv ops contents s' \<and> (\<forall>v. next_base contents s v \<le> next_base contents s' v) \<and>
   (\<forall>reply. r = Inr reply \<longrightarrow> length reply = length reqs \<and> distinct (ids_in reply) \<and>
     (\<forall>(v, i) \<in> set (ids_in reply). next_base contents s v < i \<and> i \<le> next_base contents s' v))"
proof (induction reqs arbitrary: s r)
  case (Cons q qs)
  obtain s1 r1 where g: "IdGenerate ops N s (un_user_id q) (un_need_msgid_num q) = (s1, r1)" by fastforce
  have n: "1 \<le> un_need_msgid_num q" using Cons.prems(3) by simp
  note S = single_step [OF Cons.prems(1,2) n g]
  show ?case
  proof (cases "id_issued r1")
    case None
    with Cons.prems(4) g have "s' = s1" "isl r"
      by (auto simp: id_issued_None split: sum.splits if_splits)
    with S(1,2) show ?thesis by auto
  next
    case (Some i)
    obtain r2 where rest: "IdGenService ops N s1 qs = (s', r2)"
      and r: "r = (case r2 of Inl e \<Rightarrow> Inl e | Inr reply \<Rightarrow>
        Inr (\<lparr>mi_user_id = un_user_id q, mi_start_msg_id = i, mi_msg_id_num = un_need_msgid_num q\<rparr> # reply))"
      using Cons.prems(4) g Some
      by (cases "IdGenService ops N s1 qs"; cases "snd (IdGenService ops N s1 qs)") auto
    have qs: "\<forall>q \<in> set qs. 1 \<le> un_need_msgid_num q" using Cons.prems(3) by simp
    note IH = Cons.IH [OF S(1) Cons.prems(2) qs rest]
    have mono: "next_base contents s v \<le> next_base contents s' v" for v
      using S(2) [of v] IH by (meson order_trans)
    show ?thesis
    proof (cases r2)
      case (Inl e)
      with IH mono r show ?thesis by simp
    next
      case (Inr reply)
      with IH have D: "length reply = length qs" "distinct (ids_in reply)"
        "\<forall>(v, i) \<in> set (ids_in reply). next_base contents s1 v < i \<and> i \<le> next_base contents s' v" by auto
      have new: "next_base contents s (un_user_id q) < i" "i \<le> next_base contents s1 (un_user_id q)"
        using S(3) [OF Some] by auto
      then have "(un_user_id q, i) \<notin> set (ids_in reply)" using D(3) by fastforce
      moreover have "i \<le> next_base contents s' (un_user_id q)" using new(2) IH by (meson order_trans)
      moreover have "\<forall>(v, i) \<in> set (ids_in reply). next_base contents s v < i \<and> i \<le> next_base contents s' v"
        using D(3) S(2) by (fastforce intro: le_less_trans)
      ultimately show ?thesis using D(1,2) new(1) IH mono r Inr by simp
    qed
  qed
qed simp

end
