(* ===== verification/Logic_Threads.thy ===== *)
theory Logic_Threads
  imports Logic_Correct IdGen_Service
begin

text \<open>
  The logic server under load: every \<open>SendMsg\<close> runs in its own bthread, and between two of its
  remote calls anything may happen, another message of the same sender and a retransmission of
  the same message included. A thread is cut at its remote calls; \<open>run_thread_is_SendMsg\<close> says
  that nothing is lost by that.
\<close>

section \<open>A thread\<close>

text \<open>Where a thread stands: the remote call it makes next.\<close>

datatype thread =
    Checking NewMsg
  | Listing NewMsg
  | Numbering NewMsg "UserAndIdNum list"
  | Saving NewMsg "UserAndIdNum list" "MsgIds list"

type_synonym send_result = "(MsgReply \<times> SendtoPeersArgs option) result"

definition save_message_of ::
  "'w stubs \<Rightarrow> NewMsg \<Rightarrow> int \<Rightarrow> MsgIds list \<Rightarrow> 'w \<Rightarrow> 'w \<times> MsgReply result" where
  "save_message_of st new_msg msg_time id_reply w =
     (case nm_msg_type new_msg of
        PRIVATE \<Rightarrow> save_private st new_msg msg_time id_reply w
      | GROUP \<Rightarrow> save_group st new_msg msg_time id_reply w)"

text \<open>One step: the answer of the thread, or where it stands after the call.\<close>

fun advance :: "'w stubs \<Rightarrow> int \<Rightarrow> thread \<Rightarrow> 'w \<Rightarrow> 'w \<times> (send_result + thread)" where
  "advance st now (Checking nm) w =
     (case st_GetUserLastSendData st (nm_user_id nm) w of
        (w1, Inl e) \<Rightarrow> (w1, Inl (Inl e))
      | (w1, Inr d) \<Rightarrow>
          if ul_client_time d = nm_client_time nm
          then (w1, Inl (Inr (\<lparr>mr_msg_id = ul_msg_id d, mr_last_msg_id = 0, mr_msg_time = ul_msg_time d\<rparr>, None)))
          else (w1, Inr (Listing nm)))"
| "advance st now (Listing nm) w =
     (case id_request_of st nm w of
        (w1, Inl e) \<Rightarrow> (w1, Inl (Inl e))
      | (w1, Inr q) \<Rightarrow> (w1, Inr (Numbering nm q)))"
| "advance st now (Numbering nm q) w =
     (case st_IdGenerate st q w of
        (w1, Inl e) \<Rightarrow> (w1, Inl (Inl e))
      | (w1, Inr ids) \<Rightarrow> (w1, Inr (Saving nm q ids)))"
| "advance st now (Saving nm q ids) w =
     (case save_message_of st nm (to_i32 now) ids w of
        (w1, Inl e) \<Rightarrow> (w1, Inl (Inl e))
      | (w1, Inr reply) \<Rightarrow> (w1, Inl (Inr (reply, Some \<lparr>pa_id_request = q, pa_id_reply = ids,
            pa_new_msg = nm\<lparr>nm_msg_time := to_i32 now\<rparr>, pa_sender = nm_user_id nm\<rparr>))))"

text \<open>A thread that runs alone.\<close>

fun run_thread :: "nat \<Rightarrow> 'w stubs \<Rightarrow> int \<Rightarrow> thread \<Rightarrow> 'w \<Rightarrow> 'w \<times> (send_result + thread)" where
  "run_thread 0 st now t w = (w, Inr t)"
| "run_thread (Suc n) st now t w =
     (case advance st now t w of
        (w1, Inl r) \<Rightarrow> (w1, Inl r)
      | (w1, Inr t1) \<Rightarrow> run_thread n st now t1 w1)"

lemma run_thread_from_numbering:
  "run_thread (Suc (Suc n)) st now (Numbering nm q) w =
   (case and_then (st_IdGenerate st q w) (\<lambda>w ids.
       and_then (save_message_of st nm (to_i32 now) ids w) (\<lambda>w reply.
       (w, Inr (reply, Some \<lparr>pa_id_request = q, pa_id_reply = ids,
            pa_new_msg = nm\<lparr>nm_msg_time := to_i32 now\<rparr>, pa_sender = nm_user_id nm\<rparr>)))) of
      (w', r) \<Rightarrow> (w', Inl r))"
proof -
  obtain w1 r1 where g: "st_IdGenerate st q w = (w1, r1)" by fastforce
  show ?thesis
  proof (cases r1)
    case (Inr ids)
    obtain w2 r2 where "save_message_of st nm (to_i32 now) ids w1 = (w2, r2)" by fastforce
    with g Inr show ?thesis by (cases r2) auto
  qed (use g in simp)
qed

lemma run_alone:
  "run_thread 4 st now (Checking nm) w = (case SendMsg st now nm w of (w', r) \<Rightarrow> (w', Inl r))"
proof -
  obtain w1 r1 where g: "st_GetUserLastSendData st (nm_user_id nm) w = (w1, r1)" by fastforce
  have 4: "(4::nat) = Suc (Suc (Suc (Suc 0)))" by simp
  show ?thesis
  proof (cases r1)
    case (Inr d)
    obtain w2 r2 where q: "id_request_of st nm w1 = (w2, r2)" by fastforce
    show ?thesis
    proof (cases "ul_client_time d = nm_client_time nm")
      case False
      show ?thesis
      proof (cases r2)
        case (Inr q')
        with \<open>r1 = Inr d\<close> g q False show ?thesis
          unfolding 4 run_thread.simps(2) [of "Suc (Suc (Suc 0))"] run_thread.simps(2) [of "Suc (Suc 0)"]
          by (simp add: run_thread_from_numbering SendMsg_def save_message_of_def [abs_def] Let_def
              del: run_thread.simps)
      qed (use Inr g q False in \<open>simp add: 4 SendMsg_def\<close>)
    qed (use Inr g in \<open>simp add: 4 SendMsg_def\<close>)
  qed (use g in \<open>simp add: 4 SendMsg_def\<close>)
qed

section \<open>Interleaving\<close>

type_synonym 'w server = "'w \<times> thread list"

datatype send_label = Arrive NewMsg | Steps | Answers NewMsg send_result

fun thread_msg :: "thread \<Rightarrow> NewMsg" where
  "thread_msg (Checking nm) = nm"
| "thread_msg (Listing nm) = nm"
| "thread_msg (Numbering nm q) = nm"
| "thread_msg (Saving nm q ids) = nm"

inductive logic_step :: "'w stubs \<Rightarrow> 'w server \<Rightarrow> send_label \<Rightarrow> 'w server \<Rightarrow> bool" for st where
  arrive: "logic_step st (w, ts) (Arrive nm) (w, ts @ [Checking nm])"
| moves: "advance st now t w = (w', Inr t') \<Longrightarrow>
    logic_step st (w, ts1 @ t # ts2) Steps (w', ts1 @ t' # ts2)"
| answers: "advance st now t w = (w', Inl r) \<Longrightarrow>
    logic_step st (w, ts1 @ t # ts2) (Answers (thread_msg t) r) (w', ts1 @ ts2)"

inductive_cases logic_stepE: "logic_step st x l y"

section \<open>What the threads hold\<close>

abbreviation row_id :: "msg_row \<Rightarrow> int \<times> int" where
  "row_id r \<equiv> (r_user_id r, r_msg_id r)"

abbreviation sender_key :: "NewMsg \<Rightarrow> int \<times> int \<times> int" where
  "sender_key nm \<equiv> (nm_user_id nm, nm_user_id nm, nm_client_time nm)"

fun held :: "thread \<Rightarrow> (int \<times> int) list" where
  "held (Saving nm q ids) = ids_in ids"
| "held _ = []"

definition request_for :: "NewMsg \<Rightarrow> UserAndIdNum list \<Rightarrow> bool" where
  "request_for nm q \<longleftrightarrow> (\<exists>us. q = map one_id (nm_user_id nm # us) \<and>
     (nm_msg_type nm = PRIVATE \<longrightarrow> us = [nm_peer_id nm]))"

fun thread_ok :: "thread \<Rightarrow> bool" where
  "thread_ok (Numbering nm q) = request_for nm q"
| "thread_ok (Saving nm q ids) = (request_for nm q \<and> map mi_user_id ids = map un_user_id q)"
| "thread_ok _ = True"

lemma request_for_one: "request_for nm q \<Longrightarrow> \<forall>x \<in> set q. un_need_msgid_num x = 1"
  by (auto simp: request_for_def one_id_def)

lemma request_of_for:
  assumes "id_request_of st nm w = (w', Inr q)"
  shows "request_for nm q"
proof (cases "nm_msg_type nm")
  case PRIVATE
  with assms show ?thesis by (auto simp: id_request_of_def request_for_def)
next
  case GROUP
  with assms obtain us where
    "st_GetGroupMembers st (nm_peer_id nm) w = (w', Inr us)"
    "q = one_id (nm_user_id nm) # map (one_id \<circ> ui_user_id) (filter (\<lambda>i. ui_user_id i \<noteq> nm_user_id nm) us)"
    by (auto simp: id_request_of_def and_then_Inr)
  with GROUP show ?thesis
    by (auto simp: request_for_def intro!: exI [of _ "map ui_user_id (filter (\<lambda>i. ui_user_id i \<noteq> nm_user_id nm) us)"])
qed

lemma ids_of_request:
  assumes "request_for nm q" "map mi_user_id ids = map un_user_id q"
  obtains sid rest where "ids = sid # rest" "mi_user_id sid = nm_user_id nm"
    and "nm_msg_type nm = PRIVATE \<longrightarrow> (\<exists>rid. rest = [rid] \<and> mi_user_id rid = nm_peer_id nm)"
  using assms by (auto simp: request_for_def one_id_def Cons_eq_map_conv map_eq_Cons_conv)

text \<open>The messages that a run accepts.\<close>

definition is_accepted :: "send_result \<Rightarrow> bool" where
  "is_accepted r \<longleftrightarrow> (case r of Inr (reply, Some args) \<Rightarrow> True | _ \<Rightarrow> False)"

definition accepted_key :: "send_label \<Rightarrow> (int \<times> int \<times> int) option" where
  "accepted_key l = (case l of Answers nm r \<Rightarrow> if is_accepted r then Some (sender_key nm) else None | _ \<Rightarrow> None)"

section \<open>The contract of a source of ids\<close>

text \<open>
  \<open>last_id w u\<close> is the id after which the next ids of \<open>u\<close> come. Only the generator moves it,
  upwards, and it answers with ids that it has passed.
\<close>

locale logic_ids = logic_backend st rows members inv
  for st :: "'w stubs" and rows members inv +
  fixes last_id :: "'w \<Rightarrow> int \<Rightarrow> int"
    and gen_ok :: "'w \<Rightarrow> bool"
  assumes last_base: "gen_ok w \<Longrightarrow> st_GetUserLastSendData st u w = (w', r) \<Longrightarrow> gen_ok w' \<and> last_id w' = last_id w"
    and members_base: "gen_ok w \<Longrightarrow> st_GetGroupMembers st g w = (w', r') \<Longrightarrow> gen_ok w' \<and> last_id w' = last_id w"
    and private_base: "gen_ok w \<Longrightarrow> st_SavePrivateMsg st m w = (w', s) \<Longrightarrow> gen_ok w' \<and> last_id w' = last_id w"
    and group_base: "gen_ok w \<Longrightarrow> st_SaveGroupMsg st gm w = (w', s) \<Longrightarrow> gen_ok w' \<and> last_id w' = last_id w"
    and ids_base: "gen_ok w \<Longrightarrow> \<forall>x \<in> set q. un_need_msgid_num x = 1 \<Longrightarrow> st_IdGenerate st q w = (w', r'') \<Longrightarrow>
      gen_ok w' \<and> last_id w v \<le> last_id w' v"
    and ids_fresh: "gen_ok w \<Longrightarrow> \<forall>x \<in> set q. un_need_msgid_num x = 1 \<Longrightarrow> st_IdGenerate st q w = (w', Inr ids) \<Longrightarrow>
      distinct (ids_in ids) \<and> (\<forall>(v, i) \<in> set (ids_in ids). last_id w v < i \<and> i \<le> last_id w' v)"
begin

abbreviation good :: "'w \<Rightarrow> bool" where
  "good w \<equiv> inv w \<and> gen_ok w"

lemma last_good:
  "good w \<Longrightarrow> st_GetUserLastSendData st u w = (w', r) \<Longrightarrow> good w' \<and> rows w' = rows w \<and> last_id w' = last_id w"
  using last_keeps last_base by blast

lemma members_good:
  "good w \<Longrightarrow> st_GetGroupMembers st g w = (w', r) \<Longrightarrow> good w' \<and> rows w' = rows w \<and> last_id w' = last_id w"
  using members_keeps members_base by blast

lemma ids_good:
  "good w \<Longrightarrow> \<forall>x \<in> set q. un_need_msgid_num x = 1 \<Longrightarrow> st_IdGenerate st q w = (w', r) \<Longrightarrow>
   good w' \<and> rows w' = rows w \<and> (\<forall>v. last_id w v \<le> last_id w' v)"
  using ids_keeps ids_base by blast

text \<open>
  The invariant of the server: the ids in the table and in the hands of the threads are all
  different, per user, and have been passed by the generator.
\<close>

definition all_ids :: "'w server \<Rightarrow> (int \<times> int) list" where
  "all_ids x = map row_id (rows (fst x)) @ concat (map held (snd x))"

definition server_ok :: "'w server \<Rightarrow> bool" where
  "server_ok x \<longleftrightarrow> good (fst x) \<and> unique_rows (rows (fst x)) \<and> list_all thread_ok (snd x) \<and>
     distinct (all_ids x) \<and> (\<forall>(u, i) \<in> set (all_ids x). i \<le> last_id (fst x) u)"

definition saved_as :: "'w \<Rightarrow> NewMsg \<Rightarrow> MsgIds list \<Rightarrow> 'w \<Rightarrow> bool \<Rightarrow> bool" where
  "saved_as w nm ids w' ok \<longleftrightarrow> good w' \<and> last_id w' = last_id w \<and>
     (unique_rows (rows w) \<longrightarrow> unique_rows (rows w')) \<and>
     (\<exists>new k. rows w' = rows w @ new \<and> map row_id new = take k (ids_in ids) \<and>
       (ok \<longrightarrow> sender_key nm \<in> unique_key ` set new))"

lemma saved_nothing: "good w' \<Longrightarrow> last_id w' = last_id w \<Longrightarrow> rows w' = rows w \<Longrightarrow> saved_as w nm ids w' False"
  by (auto simp: saved_as_def)

lemma saved_weaker: "saved_as w nm ids w' ok \<Longrightarrow> (ok' \<Longrightarrow> ok) \<Longrightarrow> saved_as w nm ids w' ok'"
  unfolding saved_as_def by blast

lemma save_private_rows:
  assumes i: "good w" and ids: "ids = [sid, rid]" "mi_user_id sid = nm_user_id nm" "mi_user_id rid = nm_peer_id nm"
    and s: "save_private st nm now ids w = (w', r)"
  shows "saved_as w nm ids w' (\<not> isl r)"
proof -
  let ?m = "new_private_msg nm now (mi_start_msg_id sid) (mi_start_msg_id rid)"
  let ?new = "[sender_row ?m, receiver_row ?m]"
  obtain r1 where sv: "st_SavePrivateMsg st ?m w = (w', r1)" and r: "\<not> isl r \<Longrightarrow> r1 = Inr ()"
    using s ids(1) by (cases "st_SavePrivateMsg st ?m w"; cases "snd (st_SavePrivateMsg st ?m w)")
      (auto simp: save_private_def msg_ids_def)
  have ib: "good w'" "last_id w' = last_id w"
    using private_save [OF conjunct1 [OF i] sv] private_base [OF conjunct2 [OF i] sv] by auto
  from private_save [OF conjunct1 [OF i] sv] consider
      (none) "rows w' = rows w" "r1 \<noteq> Inr ()" | (both) "rows w' = rows w @ ?new" "keys_free (rows w) ?new"
    by blast
  then show ?thesis
  proof cases
    case none
    then have "isl r" using r by blast
    then show ?thesis by (intro saved_weaker [OF saved_nothing [OF ib none(1)]]) simp
  next
    case both
    have "map row_id ?new = take 2 (ids_in ids)" "sender_key nm \<in> unique_key ` set ?new"
      by (simp_all add: ids sender_row_def receiver_row_def new_private_msg_def unique_key_def)
    moreover have "unique_rows (rows w) \<longrightarrow> unique_rows (rows w')"
      using both by (simp add: unique_rows_append del: append.simps)
    ultimately show ?thesis using ib both(1) unfolding saved_as_def by blast
  qed
qed

lemma save_group_rows:
  assumes i: "good w" and ids: "ids = sid # rest" "mi_user_id sid = nm_user_id nm"
    and s: "save_group st nm now ids w = (w', r)"
  shows "saved_as w nm ids w' (\<not> isl r)"
proof -
  let ?m = "new_group_msg nm now ids"
  obtain r1 where sv: "st_SaveGroupMsg st ?m w = (w', r1)" and r: "\<not> isl r \<Longrightarrow> r1 = Inr ()"
    using s by (auto simp: save_group_def Let_def split: prod.splits sum.splits err.splits if_splits)
  from group_save [OF conjunct1 [OF i] sv] obtain k where
    k: "rows w' = rows w @ map (group_row ?m) (take k (ngm_user_and_msgids ?m))"
      "r1 = Inr () \<longrightarrow> length (ngm_user_and_msgids ?m) \<le> k"
    and u: "inv w'" "unique_rows (rows w) \<longrightarrow> unique_rows (rows w')" by blast
  let ?new = "map (group_row ?m) (take k (ngm_user_and_msgids ?m))"
  have "map row_id ?new = take k (ids_in ids)"
    by (simp add: new_group_msg_def group_row_def take_map comp_def)
  moreover have "sender_key nm \<in> unique_key ` set ?new" if "\<not> isl r"
  proof -
    have "take k (ngm_user_and_msgids ?m) = ngm_user_and_msgids ?m" using k(2) r [OF that] by simp
    then show ?thesis by (simp add: ids new_group_msg_def group_row_def unique_key_def)
  qed
  ultimately show ?thesis using k(1) u group_base [OF conjunct2 [OF i] sv] unfolding saved_as_def by blast
qed

lemma save_rows:
  assumes i: "good w" and t: "thread_ok (Saving nm q ids)"
    and s: "save_message_of st nm now ids w = (w', r)"
  shows "saved_as w nm ids w' (\<not> isl r)"
proof -
  from t obtain sid rest where ids: "ids = sid # rest" "mi_user_id sid = nm_user_id nm"
    and priv: "nm_msg_type nm = PRIVATE \<longrightarrow> (\<exists>rid. rest = [rid] \<and> mi_user_id rid = nm_peer_id nm)"
    using ids_of_request [of nm q ids] by auto
  show ?thesis
  proof (cases "nm_msg_type nm")
    case PRIVATE
    with priv ids s save_private_rows [OF i] show ?thesis by (auto simp: save_message_of_def)
  next
    case GROUP
    with ids s save_group_rows [OF i] show ?thesis by (auto simp: save_message_of_def)
  qed
qed

text \<open>What one step of a thread does to the ids, when it goes on and when it answers.\<close>

lemma advance_moves:
  assumes i: "good w" and t: "thread_ok t" and a: "advance st now t w = (w', Inr t')"
  shows "good w'" "rows w' = rows w" "last_id w v \<le> last_id w' v" "thread_ok t'" "held t = []"
    and "distinct (held t')" "\<forall>(v, i) \<in> set (held t'). last_id w v < i \<and> i \<le> last_id w' v"
proof -
  have "good w' \<and> rows w' = rows w \<and> (\<forall>v. last_id w v \<le> last_id w' v) \<and> thread_ok t' \<and> held t = [] \<and>
    distinct (held t') \<and> (\<forall>(v, i) \<in> set (held t'). last_id w v < i \<and> i \<le> last_id w' v)"
  proof (cases t)
    case (Checking nm)
    with a obtain d where "st_GetUserLastSendData st (nm_user_id nm) w = (w', Inr d)" "t' = Listing nm"
      by (auto split: prod.splits sum.splits if_splits)
    with last_good [OF i] Checking show ?thesis by auto
  next
    case (Listing nm)
    with a obtain q where q: "id_request_of st nm w = (w', Inr q)" "t' = Numbering nm q"
      by (auto split: prod.splits sum.splits)
    then have "w' = w \<or> (\<exists>us. st_GetGroupMembers st (nm_peer_id nm) w = (w', Inr us))"
      by (cases "nm_msg_type nm") (auto simp: id_request_of_def and_then_Inr)
    with members_good [OF i] i Listing q request_of_for [OF q(1)] show ?thesis by auto
  next
    case (Numbering nm q)
    with a obtain ids where g: "st_IdGenerate st q w = (w', Inr ids)" "t' = Saving nm q ids"
      by (auto split: prod.splits sum.splits)
    have r: "request_for nm q" using t Numbering by simp
    note one = request_for_one [OF r]
    from ids_good [OF i one g(1)] ids_fresh [OF conjunct2 [OF i] one g(1)] ids_answer [OF conjunct1 [OF i] g(1)] g(2) r Numbering
    show ?thesis by auto
  next
    case (Saving nm q ids)
    with a show ?thesis by (auto split: prod.splits sum.splits)
  qed
  then show "good w'" "rows w' = rows w" "last_id w v \<le> last_id w' v" "thread_ok t'" "held t = []"
    and "distinct (held t')" "\<forall>(v, i) \<in> set (held t'). last_id w v < i \<and> i \<le> last_id w' v" by auto
qed

definition answer_keeps :: "'w \<Rightarrow> thread \<Rightarrow> 'w \<Rightarrow> bool \<Rightarrow> bool" where
  "answer_keeps w t w' ok \<longleftrightarrow> good w' \<and> (\<forall>v. last_id w v \<le> last_id w' v) \<and>
     (unique_rows (rows w) \<longrightarrow> unique_rows (rows w')) \<and>
     (\<exists>new k. rows w' = rows w @ new \<and> map row_id new = take k (held t) \<and>
       (ok \<longrightarrow> sender_key (thread_msg t) \<in> unique_key ` set new))"

lemma answer_nothing:
  "good w' \<Longrightarrow> (\<And>v. last_id w v \<le> last_id w' v) \<Longrightarrow> rows w' = rows w \<Longrightarrow> \<not> ok \<Longrightarrow> answer_keeps w t w' ok"
  unfolding answer_keeps_def by (intro conjI impI exI [of _ "[]"] exI [of _ 0]) auto

lemma answer_saved: "saved_as w nm ids w' ok \<Longrightarrow> answer_keeps w (Saving nm q ids) w' ok"
  unfolding answer_keeps_def saved_as_def by auto

lemma advance_answers:
  assumes i: "good w" and t: "thread_ok t" and a: "advance st now t w = (w', Inl r)"
  shows "answer_keeps w t w' (is_accepted r)"
proof (cases t)
  case (Checking nm)
  obtain d where g: "st_GetUserLastSendData st (nm_user_id nm) w = (w', d)"
    and r: "\<not> is_accepted r"
    using a Checking by (auto simp: is_accepted_def split: prod.splits sum.splits if_splits)
  from last_good [OF i g] r show ?thesis by (intro answer_nothing) auto
next
  case (Listing nm)
  obtain e where q: "id_request_of st nm w = (w', Inl e)" and r: "\<not> is_accepted r"
    using a Listing by (auto simp: is_accepted_def split: prod.splits sum.splits)
  from q obtain r' where g: "st_GetGroupMembers st (nm_peer_id nm) w = (w', r')"
    by (cases "nm_msg_type nm"; cases "st_GetGroupMembers st (nm_peer_id nm) w";
        cases "snd (st_GetGroupMembers st (nm_peer_id nm) w)") (auto simp: id_request_of_def)
  from members_good [OF i g] r show ?thesis by (intro answer_nothing) auto
next
  case (Numbering nm q)
  obtain e where g: "st_IdGenerate st q w = (w', Inl e)" and r: "\<not> is_accepted r"
    using a Numbering by (auto simp: is_accepted_def split: prod.splits sum.splits)
  have one: "\<forall>x \<in> set q. un_need_msgid_num x = 1" using t Numbering by (intro request_for_one [of nm]) simp
  from ids_good [OF i one g] r show ?thesis by (intro answer_nothing) auto
next
  case (Saving nm q ids)
  obtain r1 where s: "save_message_of st nm (to_i32 now) ids w = (w', r1)" and r: "is_accepted r \<longleftrightarrow> \<not> isl r1"
    using a Saving by (auto simp: is_accepted_def split: prod.splits sum.splits)
  from save_rows [OF i t [unfolded Saving] s] show ?thesis unfolding Saving r by (rule answer_saved)
qed

lemma logic_step_ok:
  assumes step: "logic_step st x l y" and ok: "server_ok x"
  shows "server_ok y"
  using step
proof (cases rule: logic_step.cases)
  case (arrive w ts nm)
  with ok show ?thesis by (simp add: server_ok_def all_ids_def)
next
  case (moves now t w w' t' ts1 ts2)
  with ok have i: "good w" and t: "thread_ok t" by (auto simp: server_ok_def)
  note A = advance_moves [OF i t moves(4)]
  let ?old = "map row_id (rows w) @ concat (map held ts1) @ concat (map held ts2)"
  have x: "all_ids x = ?old" using moves(1) A(5) by (simp add: all_ids_def)
  have y: "all_ids y = map row_id (rows w) @ concat (map held ts1) @ held t' @ concat (map held ts2)"
    using moves(3) A(2) by (simp add: all_ids_def)
  have old: "distinct ?old" "\<forall>(u, i) \<in> set ?old. i \<le> last_id w u"
    using ok moves(1) x by (auto simp: server_ok_def)
  then have "set ?old \<inter> set (held t') = {}" using A(7) by fastforce
  with old(1) A(6) have "distinct (all_ids y)" unfolding y by auto
  moreover have "i \<le> last_id w' u" if "(u, i) \<in> set (all_ids y)" for u i
  proof (cases "(u, i) \<in> set (held t')")
    case True
    with A(7) show ?thesis by blast
  next
    case False
    with that have "(u, i) \<in> set ?old" unfolding y by simp
    with old(2) have "i \<le> last_id w u" by blast
    then show ?thesis using A(3) [of u] by linarith
  qed
  ultimately have "distinct (all_ids y) \<and> (\<forall>(u, i) \<in> set (all_ids y). i \<le> last_id w' u)" by blast
  with ok moves(1,3) A(1,2,4) show ?thesis by (auto simp: server_ok_def)
next
  case (answers now t w w' r ts1 ts2)
  with ok have i: "good w" and t: "thread_ok t" and u: "unique_rows (rows w)" by (auto simp: server_ok_def)
  from advance_answers [OF i t answers(4)] obtain new k where
    A: "good w'" "\<forall>v. last_id w v \<le> last_id w' v" "unique_rows (rows w')" "rows w' = rows w @ new"
      "map row_id new = take k (held t)"
    using u unfolding answer_keeps_def by blast
  let ?h = "held t" and ?a = "concat (map held ts1)" and ?b = "concat (map held ts2)"
  have x: "all_ids x = map row_id (rows w) @ ?a @ ?h @ ?b" using answers(1) by (simp add: all_ids_def)
  have y: "all_ids y = map row_id (rows w) @ take k ?h @ ?a @ ?b" using answers(3) A(4,5) by (simp add: all_ids_def)
  have s: "set (take k ?h) \<subseteq> set ?h" by (rule set_take_subset)
  have old: "distinct (all_ids x)" "\<forall>(u, i) \<in> set (all_ids x). i \<le> last_id w u"
    using ok answers(1) by (auto simp: server_ok_def)
  have "distinct (all_ids y)" using old(1) s unfolding x y by (auto simp: distinct_take)
  moreover have "i \<le> last_id w' u" if "(u, i) \<in> set (all_ids y)" for u i
  proof -
    have "set (all_ids y) \<subseteq> set (all_ids x)" unfolding x y using s by auto
    with that old(2) have "i \<le> last_id w u" by blast
    then show ?thesis using A(2) [rule_format, of u] by linarith
  qed
  ultimately have "distinct (all_ids y) \<and> (\<forall>(u, i) \<in> set (all_ids y). i \<le> last_id w' u)" by blast
  with ok answers(1,3) A(1,3) show ?thesis by (auto simp: server_ok_def)
qed

lemma logic_path_ok: "path (logic_step st) x ls y \<Longrightarrow> server_ok x \<Longrightarrow> server_ok y"
  by (erule path_keeps) (auto intro: logic_step_ok)

definition stored_keys :: "'w server \<Rightarrow> (int \<times> int \<times> int) set" where
  "stored_keys x = unique_key ` set (rows (fst x))"

lemma logic_step_keys:
  assumes step: "logic_step st x l y" and ok: "server_ok x"
  shows "stored_keys x \<subseteq> stored_keys y \<and>
    (\<forall>k. accepted_key l = Some k \<longrightarrow> k \<notin> stored_keys x \<and> k \<in> stored_keys y)"
  using step
proof (cases rule: logic_step.cases)
  case (moves now t w w' t' ts1 ts2)
  with ok have "good w" "thread_ok t" by (auto simp: server_ok_def)
  from advance_moves(2) [OF this moves(4)] moves show ?thesis by (simp add: stored_keys_def accepted_key_def)
next
  case (answers now t w w' r ts1 ts2)
  with ok have i: "good w" and t: "thread_ok t" and u: "unique_rows (rows w)" by (auto simp: server_ok_def)
  from advance_answers [OF i t answers(4)] obtain new where
    A: "unique_rows (rows w')" "rows w' = rows w @ new"
      "is_accepted r \<longrightarrow> sender_key (thread_msg t) \<in> unique_key ` set new"
    using u unfolding answer_keeps_def by blast
  then have "unique_key ` set (rows w) \<inter> unique_key ` set new = {}"
    by (auto simp: unique_rows_def)
  with A answers show ?thesis by (auto simp: stored_keys_def accepted_key_def split: if_splits)
qed (simp add: stored_keys_def accepted_key_def)

lemma accepted_once:
  "path (logic_step st) x ls y \<Longrightarrow> server_ok x \<Longrightarrow>
   distinct (List.map_filter accepted_key ls) \<and> stored_keys x \<subseteq> stored_keys y \<and>
   set (List.map_filter accepted_key ls) \<subseteq> stored_keys y - stored_keys x"
proof (induction rule: path.induct)
  case (path_Cons x l x1 ls y)
  note K = logic_step_keys [OF path_Cons.hyps(1) path_Cons.prems]
  note IH = path_Cons.IH [OF logic_step_ok [OF path_Cons.hyps(1) path_Cons.prems]]
  show ?case
  proof (cases "accepted_key l")
    case None
    with IH K show ?thesis by (auto simp: map_filter_simps)
  next
    case (Some k)
    with IH K show ?thesis by (auto simp: map_filter_simps)
  qed
qed (simp add: map_filter_simps)

end

end
