(* ===== verification/Logic_Send.thy ===== *)
theory Logic_Send
  imports Logic_Threads
begin

text \<open>
  What one \<open>SendMsg\<close> leaves behind, whatever its servers do: it recognises the message, fails
  before it saves, or saves; and a save adds rows of the message only, the sender's under the
  id of the answer when it succeeds.
\<close>

lemma sender_id_in:
  "(\<exists>e \<in> set rs. mi_user_id e = u \<and>
      mi_start_msg_id e = fold (\<lambda>r i. if u = mi_user_id r then mi_start_msg_id r else i) rs a) \<or>
   fold (\<lambda>r i. if u = mi_user_id r then mi_start_msg_id r else i) rs a = a"
proof (induction rs arbitrary: a)
  case (Cons r rs)
  from Cons.IH [of "if u = mi_user_id r then mi_start_msg_id r else a"] show ?case
    by (cases "u = mi_user_id r") (auto simp del: fold_simps(1))
qed simp

text \<open>What every remote call keeps, a step of a thread keeps, and so does \<open>SendMsg\<close>.\<close>

definition calls_keep :: "'w stubs \<Rightarrow> ('w \<Rightarrow> bool) \<Rightarrow> bool" where
  "calls_keep st P \<longleftrightarrow> (\<forall>w. P w \<longrightarrow> (\<forall>u. P (fst (st_GetUserLastSendData st u w))) \<and>
     (\<forall>g. P (fst (st_GetGroupMembers st g w))) \<and> (\<forall>q. P (fst (st_IdGenerate st q w))) \<and>
     (\<forall>m. P (fst (st_SavePrivateMsg st m w))) \<and> (\<forall>m. P (fst (st_SaveGroupMsg st m w))))"

lemma calls_keepD:
  assumes "calls_keep st P" "P w"
  shows "P (fst (st_GetUserLastSendData st u w))" "P (fst (st_GetGroupMembers st g w))"
    "P (fst (st_IdGenerate st q w))" "P (fst (st_SavePrivateMsg st m w))" "P (fst (st_SaveGroupMsg st gm w))"
  using assms unfolding calls_keep_def by blast+

lemma advance_keeps:
  assumes k: "calls_keep st P" and v: "P w"
  shows "P (fst (advance st now t w))"
proof (cases t)
  case (Checking nm)
  with calls_keepD(1) [OF k v, of "nm_user_id nm"] show ?thesis
    by (cases "st_GetUserLastSendData st (nm_user_id nm) w") (auto split: sum.split)
next
  case (Listing nm)
  have "P (fst (id_request_of st nm w))"
    using v calls_keepD(2) [OF k v, of "nm_peer_id nm"]
    by (cases "nm_msg_type nm") (auto simp: id_request_of_def intro: and_then_keeps)
  with Listing show ?thesis by (cases "id_request_of st nm w") (auto split: sum.split)
next
  case (Numbering nm q)
  with calls_keepD(3) [OF k v, of q] show ?thesis
    by (cases "st_IdGenerate st q w") (auto split: sum.split)
next
  case (Saving nm q ids)
  have p: "P (fst (save_private st nm (to_i32 now) ids w))"
    using v calls_keepD(4) [OF k v]
    by (cases "msg_ids ids 0"; cases "msg_ids ids 1") (auto simp: save_private_def intro: and_then_keeps)
  have g: "P (fst (save_group st nm (to_i32 now) ids w))"
    using calls_keepD(5) [OF k v, of "new_group_msg nm (to_i32 now) ids"]
    by (cases "st_SaveGroupMsg st (new_group_msg nm (to_i32 now) ids) w")
      (auto simp: save_group_def Let_def split: sum.split err.split)
  from p g have "P (fst (save_message_of st nm (to_i32 now) ids w))"
    by (cases "nm_msg_type nm") (simp_all add: save_message_of_def)
  with Saving show ?thesis
    by (cases "save_message_of st nm (to_i32 now) ids w") (auto split: sum.split)
qed

lemma run_thread_keeps: "calls_keep st P \<Longrightarrow> P w \<Longrightarrow> P (fst (run_thread n st now t w))"
proof (induction n arbitrary: t w)
  case (Suc n)
  obtain w1 r where a: "advance st now t w = (w1, r)" by fastforce
  with advance_keeps [OF Suc.prems, of now t] have "P w1" by simp
  with a Suc.IH [OF Suc.prems(1)] show ?case by (cases r) simp_all
qed simp

lemma SendMsg_keeps:
  assumes "calls_keep st P" "P w" "SendMsg st now nm w = (w', r)"
  shows "P w'"
  using run_thread_keeps [OF assms(1,2), of 4 now "Checking nm"] assms(3) unfolding run_alone by simp

text \<open>The rows of a message.\<close>

definition row_of_msg :: "NewMsg \<Rightarrow> msg_row \<Rightarrow> bool" where
  "row_of_msg nm x \<longleftrightarrow> r_sender x = nm_user_id nm \<and> r_client_time x = nm_client_time nm \<and>
     r_message x = nm_message nm"

definition sender_saved :: "NewMsg \<Rightarrow> MsgReply \<Rightarrow> msg_row list \<Rightarrow> bool" where
  "sender_saved nm reply new \<longleftrightarrow>
     (\<exists>x \<in> set new. unique_key x = sender_key nm \<and> r_msg_id x = mr_msg_id reply)"

definition sender_first :: "NewMsg \<Rightarrow> msg_row list \<Rightarrow> bool" where
  "sender_first nm new \<longleftrightarrow> (new \<noteq> [] \<longrightarrow> unique_key (hd new) = sender_key nm)"

text \<open>The row of one entry of the answer of the generator.\<close>

definition row_for :: "NewMsg \<Rightarrow> int \<Rightarrow> MsgIds \<Rightarrow> msg_row \<Rightarrow> bool" where
  "row_for nm t e x \<longleftrightarrow> r_user_id x = mi_user_id e \<and> r_msg_id x = mi_start_msg_id e \<and>
     r_sender x = nm_user_id nm \<and> r_group_id x = (case nm_msg_type nm of PRIVATE \<Rightarrow> 0 | GROUP \<Rightarrow> nm_peer_id nm) \<and>
     r_message x = nm_message nm \<and> r_client_time x = nm_client_time nm \<and> r_msg_time x = t \<and> r_deleted x = 0"

definition row_made :: "NewMsg \<Rightarrow> int \<Rightarrow> MsgIds \<Rightarrow> msg_row" where
  "row_made nm t e = \<lparr>r_user_id = mi_user_id e, r_sender = nm_user_id nm, r_receiver = nm_peer_id nm,
     r_msg_id = mi_start_msg_id e, r_group_id = (case nm_msg_type nm of PRIVATE \<Rightarrow> 0 | GROUP \<Rightarrow> nm_peer_id nm),
     r_message = nm_message nm, r_deleted = 0, r_client_time = nm_client_time nm, r_msg_time = t\<rparr>"

lemma row_for_made: "row_for nm t e (row_made nm t e)"
  by (simp add: row_for_def row_made_def)

lemma private_rows_made:
  assumes "nm_msg_type nm = PRIVATE" "mi_user_id sid = nm_user_id nm" "mi_user_id rid = nm_peer_id nm"
  shows "[sender_row (new_private_msg nm t (mi_start_msg_id sid) (mi_start_msg_id rid)),
      receiver_row (new_private_msg nm t (mi_start_msg_id sid) (mi_start_msg_id rid))] = map (row_made nm t) [sid, rid]"
  using assms by (simp add: row_made_def sender_row_def receiver_row_def new_private_msg_def)

lemma group_rows_made:
  assumes "nm_msg_type nm = GROUP"
  shows "map (group_row (new_group_msg nm t ids)) (take k (ngm_user_and_msgids (new_group_msg nm t ids))) =
    map (row_made nm t) (take k ids)"
  using assms by (simp add: row_made_def group_row_def new_group_msg_def take_map)

text \<open>
  Whom a message is for, when the groups have the members that \<open>G\<close> says: the sender, and the peer
  or the members of the group. A thread that has asked for ids has asked for one for each.
\<close>

definition receivers :: "(group_id_t \<Rightarrow> user_id_t set) \<Rightarrow> NewMsg \<Rightarrow> user_id_t set" where
  "receivers G nm = insert (nm_user_id nm)
     (case nm_msg_type nm of PRIVATE \<Rightarrow> {nm_peer_id nm} | GROUP \<Rightarrow> G (nm_peer_id nm))"

fun for_all :: "(group_id_t \<Rightarrow> user_id_t set) \<Rightarrow> thread \<Rightarrow> bool" where
  "for_all G (Numbering nm q) \<longleftrightarrow> un_user_id ` set q = receivers G nm"
| "for_all G (Saving nm q ids) \<longleftrightarrow> mi_user_id ` set ids = receivers G nm"
| "for_all G t \<longleftrightarrow> True"

text \<open>The rows of an accepted message, one for each entry of the answer of the generator.\<close>

definition accepted_rows :: "msg_row list \<Rightarrow> NewMsg \<Rightarrow> SendtoPeersArgs \<Rightarrow> bool" where
  "accepted_rows rows nm args \<longleftrightarrow>
     (\<exists>t. \<forall>e \<in> set (pa_id_reply args). \<exists>x \<in> set rows. row_for nm t e x) \<and>
     nm_user_id nm \<in> mi_user_id ` set (pa_id_reply args) \<and>
     (nm_msg_type nm = PRIVATE \<longrightarrow> nm_peer_id nm \<in> mi_user_id ` set (pa_id_reply args))"

lemma accepted_rows_mono: "set rows \<subseteq> set rows' \<Longrightarrow> accepted_rows rows nm args \<Longrightarrow> accepted_rows rows' nm args"
  unfolding accepted_rows_def by blast

context logic_backend
begin

lemma request_for_all:
  assumes i: "inv w" and q: "id_request_of st nm w = (w', Inr q)"
  shows "un_user_id ` set q = receivers (members w) nm"
proof (cases "nm_msg_type nm")
  case PRIVATE
  with q show ?thesis by (auto simp: id_request_of_def receivers_def one_id_def)
next
  case GROUP
  with q obtain us where us: "st_GetGroupMembers st (nm_peer_id nm) w = (w', Inr us)"
    and q': "q = one_id (nm_user_id nm) # map (one_id \<circ> ui_user_id) (filter (\<lambda>i. ui_user_id i \<noteq> nm_user_id nm) us)"
    by (auto simp: id_request_of_def and_then_Inr)
  have "un_user_id ` set q = insert (nm_user_id nm) (ui_user_id ` {x \<in> set us. ui_user_id x \<noteq> nm_user_id nm})"
    by (simp add: q' one_id_def image_image)
  with members_answer [OF i us] GROUP show ?thesis by (auto simp: receivers_def)
qed

lemma advance_for_all:
  assumes i: "inv w" and t: "for_all (members w) t" and a: "advance st now t w = (w', Inr t')"
  shows "for_all (members w) t'"
proof (cases t)
  case (Checking nm)
  with a show ?thesis by (auto split: prod.splits sum.splits if_splits)
next
  case (Listing nm)
  with a obtain q where "id_request_of st nm w = (w', Inr q)" "t' = Numbering nm q"
    by (auto split: prod.splits sum.splits)
  with request_for_all [OF i] show ?thesis by simp
next
  case (Numbering nm q)
  with a obtain ids where g: "st_IdGenerate st q w = (w', Inr ids)" "t' = Saving nm q ids"
    by (auto split: prod.splits sum.splits)
  from arg_cong [OF ids_answer [OF i g(1)], of set] t Numbering g(2) show ?thesis by auto
next
  case (Saving nm q ids)
  with a show ?thesis by (auto split: prod.splits sum.splits)
qed

lemma request_keeps: "inv w \<Longrightarrow> id_request_of st nm w = (w', r) \<Longrightarrow> inv w' \<and> rows w' = rows w"
proof (cases "nm_msg_type nm")
  case GROUP
  assume i: "inv w" and q: "id_request_of st nm w = (w', r)"
  obtain w1 us where g: "st_GetGroupMembers st (nm_peer_id nm) w = (w1, us)" by fastforce
  with q GROUP have "w' = w1" by (cases us) (auto simp: id_request_of_def)
  with members_keeps [OF i g] show ?thesis by simp
qed (simp add: id_request_of_def)

definition only_saves :: "'w \<Rightarrow> NewMsg \<Rightarrow> int \<Rightarrow> 'w \<Rightarrow> send_result \<Rightarrow> bool" where
  "only_saves w nm now w' r \<longleftrightarrow> (\<exists>w3 q ids r1. inv w3 \<and> rows w3 = rows w \<and> thread_ok (Saving nm q ids) \<and>
     save_message_of st nm (to_i32 now) ids w3 = (w', r1) \<and>
     r = (case r1 of Inl e \<Rightarrow> Inl e | Inr reply \<Rightarrow> Inr (reply, Some \<lparr>pa_id_request = q, pa_id_reply = ids,
       pa_new_msg = nm\<lparr>nm_msg_time := to_i32 now\<rparr>, pa_sender = nm_user_id nm\<rparr>)))"

lemma send_cases:
  assumes i: "inv w" and s: "SendMsg st now nm w = (w', r)"
  obtains (seen) d where "st_GetUserLastSendData st (nm_user_id nm) w = (w', Inr d)"
      "ul_client_time d = nm_client_time nm"
      "r = Inr (\<lparr>mr_msg_id = ul_msg_id d, mr_last_msg_id = 0, mr_msg_time = ul_msg_time d\<rparr>, None)"
  | (failed) e where "inv w'" "rows w' = rows w" "r = Inl e"
  | (saves) w1 d where "st_GetUserLastSendData st (nm_user_id nm) w = (w1, Inr d)"
      "ul_client_time d \<noteq> nm_client_time nm" "only_saves w nm now w' r"
proof -
  obtain w1 r1 where a: "st_GetUserLastSendData st (nm_user_id nm) w = (w1, r1)" by fastforce
  have i1: "inv w1" "rows w1 = rows w" using last_keeps [OF i a] by auto
  show ?thesis
  proof (cases r1)
    case (Inl e)
    with a s i1 show ?thesis by (intro failed [of e]) (auto simp: SendMsg_def)
  next
    case d: (Inr d)
    show ?thesis
    proof (cases "ul_client_time d = nm_client_time nm")
      case True
      with a s d show ?thesis by (intro seen [of d]) (auto simp: SendMsg_def)
    next
      case nd: False
      obtain w2 r2 where b: "id_request_of st nm w1 = (w2, r2)" by fastforce
      have i2: "inv w2" "rows w2 = rows w" using request_keeps [OF i1(1) b] i1(2) by auto
      show ?thesis
      proof (cases r2)
        case (Inl e)
        with a s b i2 d nd show ?thesis by (intro failed [of e]) (auto simp: SendMsg_def)
      next
        case q: (Inr q)
        obtain w3 r3 where c: "st_IdGenerate st q w2 = (w3, r3)" by fastforce
        have i3: "inv w3" "rows w3 = rows w" using ids_keeps [OF i2(1) c] i2(2) by auto
        show ?thesis
        proof (cases r3)
          case (Inl e)
          with a s b c i3 d nd q show ?thesis by (intro failed [of e]) (auto simp: SendMsg_def)
        next
          case ids: (Inr ids)
          obtain w4 r4 where sv: "save_message_of st nm (to_i32 now) ids w3 = (w4, r4)" by fastforce
          have ok: "thread_ok (Saving nm q ids)"
            using request_of_for [OF b [unfolded q]] ids_answer [OF i2(1) c [unfolded ids]] by simp
          from a s b c d nd q ids sv have "w' = w4"
            "r = (case r4 of Inl e \<Rightarrow> Inl e | Inr reply \<Rightarrow> Inr (reply, Some \<lparr>pa_id_request = q, pa_id_reply = ids,
               pa_new_msg = nm\<lparr>nm_msg_time := to_i32 now\<rparr>, pa_sender = nm_user_id nm\<rparr>))"
            by (cases r4; simp add: SendMsg_def save_message_of_def Let_def)+
          with i3 ok sv have "only_saves w nm now w' r" unfolding only_saves_def by blast
          with a d nd show ?thesis by (intro saves) auto
        qed
      qed
    qed
  qed
qed

lemma save_private_content:
  assumes i: "inv w" and ids: "ids = [sid, rid]" and s: "save_private st nm t ids w = (w', r)"
  shows "inv w' \<and> (\<exists>new. rows w' = rows w @ new \<and> list_all (row_of_msg nm) new \<and> sender_first nm new \<and>
    (new \<noteq> [] \<longrightarrow> keys_free (rows w) new) \<and> (\<forall>reply. r = Inr reply \<longrightarrow> sender_saved nm reply new))"
proof -
  let ?m = "new_private_msg nm t (mi_start_msg_id sid) (mi_start_msg_id rid)"
  let ?new = "[sender_row ?m, receiver_row ?m]"
  obtain r1 where sv: "st_SavePrivateMsg st ?m w = (w', r1)"
    and r: "\<And>reply. r = Inr reply \<Longrightarrow> r1 = Inr () \<and> mr_msg_id reply = mi_start_msg_id sid"
    using s ids by (cases "st_SavePrivateMsg st ?m w"; cases "snd (st_SavePrivateMsg st ?m w)")
      (auto simp: save_private_def msg_ids_def)
  have content: "list_all (row_of_msg nm) ?new" "sender_first nm ?new"
    by (simp_all add: row_of_msg_def sender_first_def unique_key_def sender_row_def receiver_row_def new_private_msg_def)
  have saved: "sender_saved nm reply ?new" if "r = Inr reply" for reply
    using r [OF that] by (simp add: sender_saved_def sender_row_def new_private_msg_def unique_key_def)
  from private_save [OF i sv] consider
      (none) "inv w'" "rows w' = rows w" "r1 \<noteq> Inr ()"
    | (both) "inv w'" "rows w' = rows w @ ?new" "keys_free (rows w) ?new"
    by blast
  then show ?thesis
  proof cases
    case none
    then have "\<And>reply. r \<noteq> Inr reply" using r by blast
    with none show ?thesis by (intro conjI exI [of _ "[]"]) (simp_all add: sender_first_def)
  next
    case both
    with content saved show ?thesis by blast
  qed
qed

lemma save_group_content:
  assumes i: "inv w" and ids: "ids = sid # rest" "mi_user_id sid = nm_user_id nm"
    and s: "save_group st nm t ids w = (w', r)"
  shows "inv w' \<and> (unique_rows (rows w) \<longrightarrow> unique_rows (rows w')) \<and>
    (\<exists>new. rows w' = rows w @ new \<and> list_all (row_of_msg nm) new \<and> sender_first nm new \<and>
      (\<forall>reply. r = Inr reply \<longrightarrow> sender_saved nm reply new))"
proof -
  let ?m = "new_group_msg nm t ids"
  obtain r1 where sv: "st_SaveGroupMsg st ?m w = (w', r1)"
    and r: "\<And>reply. r = Inr reply \<Longrightarrow> r1 = Inr () \<and> mr_msg_id reply = sender_id_of (nm_user_id nm) ids"
    using s by (auto simp: save_group_def Let_def split: prod.splits sum.splits err.splits if_splits)
  from group_save [OF i sv] obtain k where
    k: "rows w' = rows w @ map (group_row ?m) (take k (ngm_user_and_msgids ?m))"
      "r1 = Inr () \<longrightarrow> length (ngm_user_and_msgids ?m) \<le> k"
    and u: "inv w'" "unique_rows (rows w) \<longrightarrow> unique_rows (rows w')" by blast
  let ?new = "map (group_row ?m) (take k (ngm_user_and_msgids ?m))"
  have content: "list_all (row_of_msg nm) ?new" "sender_first nm ?new"
    by (simp add: list_all_iff row_of_msg_def new_group_msg_def group_row_def)
      (cases k, simp_all add: ids sender_first_def unique_key_def new_group_msg_def group_row_def)
  have saved: "sender_saved nm reply ?new" if "r = Inr reply" for reply
  proof -
    have "\<exists>e \<in> set ids. mi_user_id e = nm_user_id nm \<and> mi_start_msg_id e = sender_id_of (nm_user_id nm) ids"
      using sender_id_in [of rest "nm_user_id nm" "mi_start_msg_id sid"] ids by (auto simp: sender_id_of_def)
    moreover have "take k (ngm_user_and_msgids ?m) = ngm_user_and_msgids ?m" using k(2) r [OF that] by simp
    ultimately show ?thesis
      using r [OF that] by (auto simp: sender_saved_def new_group_msg_def group_row_def unique_key_def)
  qed
  show ?thesis using k(1) u content saved by blast
qed

lemma save_content:
  assumes i: "inv w" and ok: "thread_ok (Saving nm q ids)" and s: "save_message_of st nm t ids w = (w', r)"
  shows "inv w'" "unique_rows (rows w) \<Longrightarrow> unique_rows (rows w')"
    and "\<exists>new. rows w' = rows w @ new \<and> list_all (row_of_msg nm) new \<and> sender_first nm new \<and>
      (\<forall>reply. r = Inr reply \<longrightarrow> sender_saved nm reply new)"
proof -
  have "inv w' \<and> (unique_rows (rows w) \<longrightarrow> unique_rows (rows w')) \<and>
    (\<exists>new. rows w' = rows w @ new \<and> list_all (row_of_msg nm) new \<and> sender_first nm new \<and>
      (\<forall>reply. r = Inr reply \<longrightarrow> sender_saved nm reply new))"
  proof -
    from ok obtain sid rest where ids: "ids = sid # rest" "mi_user_id sid = nm_user_id nm"
      and priv: "nm_msg_type nm = PRIVATE \<longrightarrow> (\<exists>rid. rest = [rid] \<and> mi_user_id rid = nm_peer_id nm)"
      using ids_of_request [of nm q ids] by auto
    show ?thesis
    proof (cases "nm_msg_type nm")
      case PRIVATE
      with priv ids s obtain rid where p: "ids = [sid, rid]" "save_private st nm t ids w = (w', r)"
        by (auto simp: save_message_of_def)
      from save_private_content [OF i p] obtain new where
        n: "inv w'" "rows w' = rows w @ new" "list_all (row_of_msg nm) new" "sender_first nm new"
          "new \<noteq> [] \<longrightarrow> keys_free (rows w) new" "\<forall>reply. r = Inr reply \<longrightarrow> sender_saved nm reply new" by blast
      moreover have "unique_rows (rows w) \<longrightarrow> unique_rows (rows w')"
        using n(2,5) by (cases "new = []") (simp_all add: unique_rows_append)
      ultimately show ?thesis by blast
    next
      case GROUP
      with s have g: "save_group st nm t ids w = (w', r)" by (simp add: save_message_of_def)
      from save_group_content [OF i ids g] show ?thesis .
    qed
  qed
  then show "inv w'" "unique_rows (rows w) \<Longrightarrow> unique_rows (rows w')"
    and "\<exists>new. rows w' = rows w @ new \<and> list_all (row_of_msg nm) new \<and> sender_first nm new \<and>
      (\<forall>reply. r = Inr reply \<longrightarrow> sender_saved nm reply new)" by blast+
qed

lemma send_rows:
  assumes i: "inv w" and s: "SendMsg st now nm w = (w', r)"
  shows "inv w'" "unique_rows (rows w) \<Longrightarrow> unique_rows (rows w')"
    and "\<exists>new. rows w' = rows w @ new \<and> list_all (row_of_msg nm) new \<and> sender_first nm new \<and>
      (\<forall>reply args. r = Inr (reply, Some args) \<longrightarrow> sender_saved nm reply new)"
proof -
  have "inv w' \<and> (unique_rows (rows w) \<longrightarrow> unique_rows (rows w')) \<and>
    (\<exists>new. rows w' = rows w @ new \<and> list_all (row_of_msg nm) new \<and> sender_first nm new \<and>
      (\<forall>reply args. r = Inr (reply, Some args) \<longrightarrow> sender_saved nm reply new))"
    using i s
  proof (cases rule: send_cases)
    case (seen d)
    with last_keeps [OF i seen(1)] show ?thesis by (auto simp: sender_first_def)
  next
    case (failed e)
    then show ?thesis by (auto simp: sender_first_def)
  next
    case (saves w1 d)
    from saves(3) obtain w3 q ids r1 where i3: "inv w3" "rows w3 = rows w" and ok: "thread_ok (Saving nm q ids)"
      and sv: "save_message_of st nm (to_i32 now) ids w3 = (w', r1)"
      and r1: "r = (case r1 of Inl e \<Rightarrow> Inl e | Inr reply \<Rightarrow> Inr (reply, Some \<lparr>pa_id_request = q, pa_id_reply = ids,
        pa_new_msg = nm\<lparr>nm_msg_time := to_i32 now\<rparr>, pa_sender = nm_user_id nm\<rparr>))"
      unfolding only_saves_def by blast
    have r: "\<And>reply args. r = Inr (reply, Some args) \<Longrightarrow> r1 = Inr reply"
      using r1 by (cases r1) auto
    from save_content [OF i3(1) ok sv] i3(2) r show ?thesis by metis
  qed
  then show "inv w'" "unique_rows (rows w) \<Longrightarrow> unique_rows (rows w')"
    and "\<exists>new. rows w' = rows w @ new \<and> list_all (row_of_msg nm) new \<and> sender_first nm new \<and>
      (\<forall>reply args. r = Inr (reply, Some args) \<longrightarrow> sender_saved nm reply new)" by blast+
qed

text \<open>The same for one step of a thread, with what it goes on as.\<close>

definition step_rows :: "'w \<Rightarrow> thread \<Rightarrow> 'w \<Rightarrow> send_result + thread \<Rightarrow> bool" where
  "step_rows w t w' r \<longleftrightarrow> inv w' \<and> (unique_rows (rows w) \<longrightarrow> unique_rows (rows w')) \<and>
     (\<forall>t'. r = Inr t' \<longrightarrow> thread_ok t') \<and>
     (\<exists>new. rows w' = rows w @ new \<and>
       (\<forall>reply args. r = Inl (Inr (reply, Some args)) \<longrightarrow> sender_saved (thread_msg t) reply new))"

lemma step_rows_same:
  "inv w' \<Longrightarrow> rows w' = rows w \<Longrightarrow> (\<And>t'. r = Inr t' \<Longrightarrow> thread_ok t') \<Longrightarrow>
   (\<And>reply args. r \<noteq> Inl (Inr (reply, Some args))) \<Longrightarrow> step_rows w t w' r"
  unfolding step_rows_def by auto

lemma advance_rows:
  assumes i: "inv w" and t: "thread_ok t" and a: "advance st now t w = (w', r)"
  shows "step_rows w t w' r"
proof (cases t)
  case (Checking nm)
  obtain r1 where g: "st_GetUserLastSendData st (nm_user_id nm) w = (w', r1)"
    using a Checking by (auto split: prod.splits sum.splits if_splits)
  show ?thesis
    by (rule step_rows_same) (use last_keeps [OF i g] a g Checking in \<open>auto split: sum.splits if_splits\<close>)
next
  case (Listing nm)
  obtain r1 where g: "id_request_of st nm w = (w', r1)"
    using a Listing by (auto split: prod.splits sum.splits)
  show ?thesis
    by (rule step_rows_same)
      (use request_keeps [OF i g] a g Listing request_of_for [of st nm w w'] in \<open>auto split: sum.splits\<close>)
next
  case (Numbering nm q)
  obtain r1 where g: "st_IdGenerate st q w = (w', r1)"
    using a Numbering by (auto split: prod.splits sum.splits)
  show ?thesis
    by (rule step_rows_same)
      (use ids_keeps [OF i g] a g t Numbering ids_answer [OF i, of q w'] in \<open>auto split: sum.splits\<close>)
next
  case (Saving nm q ids)
  obtain r1 where g: "save_message_of st nm (to_i32 now) ids w = (w', r1)"
    using a Saving by (auto split: prod.splits sum.splits)
  have r: "\<And>t'. r \<noteq> Inr t'" "\<And>reply args. r = Inl (Inr (reply, Some args)) \<Longrightarrow> r1 = Inr reply"
    using a g Saving by (auto split: sum.splits)
  from save_content [OF i t [unfolded Saving] g] r Saving show ?thesis
    unfolding step_rows_def by fastforce
qed

text \<open>
  A save adds the rows of the first entries of the generator's answer, of all of them when it
  succeeds, and of both or none for a private message.
\<close>

lemma save_makes_rows:
  assumes i: "inv w" and ok: "thread_ok (Saving nm q ids)" and s: "save_message_of st nm t ids w = (w', r)"
  shows "\<exists>k. rows w' = rows w @ map (row_made nm t) (take k ids) \<and> (\<not> isl r \<longrightarrow> length ids \<le> k) \<and>
    (nm_msg_type nm = PRIVATE \<longrightarrow> k = 0 \<or> k = 2)"
proof (cases "nm_msg_type nm")
  case PRIVATE
  from ok obtain sid rest where "ids = sid # rest" "mi_user_id sid = nm_user_id nm"
    "nm_msg_type nm = PRIVATE \<longrightarrow> (\<exists>rid. rest = [rid] \<and> mi_user_id rid = nm_peer_id nm)"
    using ids_of_request [of nm q ids] by auto
  with PRIVATE obtain rid where ids: "ids = [sid, rid]" "mi_user_id sid = nm_user_id nm" "mi_user_id rid = nm_peer_id nm"
    by auto
  let ?m = "new_private_msg nm t (mi_start_msg_id sid) (mi_start_msg_id rid)"
  obtain r1 where sv: "st_SavePrivateMsg st ?m w = (w', r1)" and r: "\<not> isl r \<Longrightarrow> r1 = Inr ()"
    using s PRIVATE ids(1) by (cases "st_SavePrivateMsg st ?m w"; cases "snd (st_SavePrivateMsg st ?m w)")
      (auto simp: save_message_of_def save_private_def msg_ids_def)
  from private_save [OF i sv] private_rows_made [OF PRIVATE ids(2,3), of t]
  consider "rows w' = rows w" "r1 \<noteq> Inr ()" | "rows w' = rows w @ map (row_made nm t) [sid, rid]" by auto
  then show ?thesis
  proof cases
    case 1
    with r show ?thesis by (intro exI [of _ 0]) auto
  next
    case 2
    with ids(1) show ?thesis by (intro exI [of _ 2]) simp
  qed
next
  case GROUP
  obtain r1 where sv: "st_SaveGroupMsg st (new_group_msg nm t ids) w = (w', r1)" and r: "\<not> isl r \<Longrightarrow> r1 = Inr ()"
    using s GROUP by (auto simp: save_message_of_def save_group_def Let_def split: prod.splits sum.splits err.splits if_splits)
  from group_save [OF i sv] obtain k where
    "rows w' = rows w @ map (row_made nm t) (take k ids)" "r1 = Inr () \<longrightarrow> length ids \<le> k"
    unfolding group_rows_made [OF GROUP] by (auto simp: new_group_msg_def)
  with r GROUP show ?thesis by auto
qed

text \<open>
  A message that is accepted has a row for each entry of the answer of the generator, and the
  arguments of the background thread hold that answer.
\<close>

lemma advance_accepts:
  assumes i: "inv w" and ok: "thread_ok th" and a: "advance st now th w = (w', Inl (Inr (reply, Some args)))"
  shows "pa_id_request args \<noteq> []" "map mi_user_id (pa_id_reply args) = map un_user_id (pa_id_request args)"
    and "pa_sender args = nm_user_id (thread_msg th)" "pa_new_msg args = (thread_msg th)\<lparr>nm_msg_time := to_i32 now\<rparr>"
    and "\<forall>e \<in> set (pa_id_reply args). \<exists>x \<in> set (rows w'). row_for (thread_msg th) (to_i32 now) e x"
    and "nm_user_id (thread_msg th) \<in> mi_user_id ` set (pa_id_reply args)"
    and "nm_msg_type (thread_msg th) = PRIVATE \<Longrightarrow> nm_peer_id (thread_msg th) \<in> mi_user_id ` set (pa_id_reply args)"
proof -
  from a obtain nm q ids where th: "th = Saving nm q ids"
    and sv: "save_message_of st nm (to_i32 now) ids w = (w', Inr reply)"
    and args: "args = \<lparr>pa_id_request = q, pa_id_reply = ids, pa_new_msg = nm\<lparr>nm_msg_time := to_i32 now\<rparr>,
      pa_sender = nm_user_id nm\<rparr>"
    by (cases th) (auto split: prod.splits sum.splits if_splits)
  from ok th obtain sid rest where ids: "ids = sid # rest" "mi_user_id sid = nm_user_id nm"
    and priv: "nm_msg_type nm = PRIVATE \<longrightarrow> (\<exists>rid. rest = [rid] \<and> mi_user_id rid = nm_peer_id nm)"
    using ids_of_request [of nm q ids] by auto
  show "pa_id_request args \<noteq> []" "map mi_user_id (pa_id_reply args) = map un_user_id (pa_id_request args)"
    "pa_sender args = nm_user_id (thread_msg th)" "pa_new_msg args = (thread_msg th)\<lparr>nm_msg_time := to_i32 now\<rparr>"
    using ok by (auto simp: th args request_for_def)
  show "nm_user_id (thread_msg th) \<in> mi_user_id ` set (pa_id_reply args)"
    "nm_msg_type (thread_msg th) = PRIVATE \<Longrightarrow> nm_peer_id (thread_msg th) \<in> mi_user_id ` set (pa_id_reply args)"
    using ids priv by (auto simp: th args)
  obtain k where "rows w' = rows w @ map (row_made nm (to_i32 now)) (take k ids)" "length ids \<le> k"
    using save_makes_rows [OF i ok [unfolded th] sv] by auto
  then show "\<forall>e \<in> set (pa_id_reply args). \<exists>x \<in> set (rows w'). row_for (thread_msg th) (to_i32 now) e x"
    using row_for_made by (auto simp: th args)
qed

text \<open>What the answer of a thread has done to the table.\<close>

lemma advance_made:
  assumes i: "inv w" and ok: "thread_ok t" and a: "advance st now t w = (w', Inl r)"
  obtains (kept) "rows w' = rows w" "\<forall>reply args. r \<noteq> Inr (reply, Some args)"
  | (saved) nm q ids k where "t = Saving nm q ids"
      "rows w' = rows w @ map (row_made nm (to_i32 now)) (take k ids)"
      "\<forall>reply args. r = Inr (reply, Some args) \<longrightarrow> pa_id_reply args = ids \<and> length ids \<le> k"
      "nm_msg_type nm = PRIVATE \<longrightarrow> k = 0 \<or> k = 2"
proof (cases t)
  case (Checking nm)
  obtain r1 where "st_GetUserLastSendData st (nm_user_id nm) w = (w', r1)"
    using a Checking by (auto split: prod.splits sum.splits if_splits)
  from last_keeps [OF i this] a Checking show ?thesis by (intro kept) (auto split: prod.splits sum.splits if_splits)
next
  case (Listing nm)
  obtain r1 where "id_request_of st nm w = (w', r1)" using a Listing by (auto split: prod.splits sum.splits)
  from request_keeps [OF i this] a Listing show ?thesis by (intro kept) (auto split: prod.splits sum.splits)
next
  case (Numbering nm q)
  obtain r1 where "st_IdGenerate st q w = (w', r1)" using a Numbering by (auto split: prod.splits sum.splits)
  from ids_keeps [OF i this] a Numbering show ?thesis by (intro kept) (auto split: prod.splits sum.splits)
next
  case (Saving nm q ids)
  obtain r1 where sv: "save_message_of st nm (to_i32 now) ids w = (w', r1)"
    using a Saving by (auto split: prod.splits sum.splits)
  from save_makes_rows [OF i ok [unfolded Saving] sv] obtain k where
    k: "rows w' = rows w @ map (row_made nm (to_i32 now)) (take k ids)" "\<not> isl r1 \<longrightarrow> length ids \<le> k"
      "nm_msg_type nm = PRIVATE \<longrightarrow> k = 0 \<or> k = 2" by blast
  have "pa_id_reply args = ids \<and> length ids \<le> k" if "r = Inr (reply, Some args)" for reply args
    using that a sv k(2) Saving by (cases r1) auto
  with k Saving show ?thesis by (intro saved) auto
qed

end

end
