(* ===== verification/Mem_Backends.thy ===== *)
theory Mem_Backends
  imports DbProxy
begin

text \<open>
  Servers to evaluate on: an in-memory MySQL whose statements can be made to fail, an
  in-memory redis whose commands can be made to fail, and a \<^verbatim>\<open>cjson\<close> of arrays of strings.
  They satisfy the documented behaviour that the theorems assume, and only the witnesses
  use them.
\<close>

text \<open>MySQL: the tables, and for each statement to come whether the connection breaks.\<close>

type_synonym mem_sql = "tables \<times> bool list"

definition mem_mysql :: "mem_sql mysql" where
  "mem_mysql = \<lparr>
     sql_insert = (\<lambda>(t, fs) rs.
       if fs \<noteq> [] \<and> hd fs then ((t, tl fs), Some ''Lost connection'')
       else if keys_free (t_messages t) rs
       then ((t\<lparr>t_messages := t_messages t @ rs\<rparr>, tl fs), None)
       else ((t, tl fs), Some ''Duplicate entry'')),
     sql_messages = (\<lambda>(t, fs) P. ((t, fs), Inr (filter (P (t_messages t)) (t_messages t)))),
     sql_friends = (\<lambda>(t, fs) P. ((t, fs), Inr (filter P (t_friends t)))),
     sql_members = (\<lambda>(t, fs) P. ((t, fs), Inr (filter P (t_members t))))\<rparr>"

lemma mem_mysql_ok: "mysql_ok mem_mysql fst"
  by (auto simp: mysql_ok_def insert_ok_def select_ok_def mem_mysql_def split: if_splits)

text \<open>Redis: the values, and what happens to the commands to come.\<close>

type_synonym mem_redis_state = "(string \<Rightarrow> string option) \<times> link list"

definition mem_redis :: "mem_redis_state redis" where
  "mem_redis = \<lparr>
     rd_get = (\<lambda>(m, ls) k. m k),
     rd_setex = (\<lambda>(m, ls) k t v. (m(k \<mapsto> v), ls)),
     rd_del = (\<lambda>(m, ls) k. (m(k := None), ls)),
     rd_link = (\<lambda>(m, ls). case ls of [] \<Rightarrow> (Answered, (m, [])) | l # ls' \<Rightarrow> (l, (m, ls')))\<rparr>"

lemma mem_redis_ok: "redis_ok mem_redis"
  by (auto simp: redis_ok_def mem_redis_def split: list.splits)

text \<open>\<^verbatim>\<open>cjson\<close>: \<^verbatim>\<open>["a","b"]\<close>.\<close>

abbreviation dq :: char where
  "dq \<equiv> CHR 0x22"

definition quoted :: "string \<Rightarrow> string" where
  "quoted x = dq # x @ [dq]"

fun encode_rest :: "string list \<Rightarrow> string" where
  "encode_rest [] = '']''"
| "encode_rest (x # xs) = CHR '','' # quoted x @ encode_rest xs"

fun mem_encode :: "string list \<Rightarrow> string" where
  "mem_encode [] = ''[]''"
| "mem_encode (x # xs) = CHR ''['' # quoted x @ encode_rest xs"

function strings_in :: "string \<Rightarrow> string list" where
  "strings_in s = (case dropWhile (\<lambda>c. c \<noteq> dq) s of [] \<Rightarrow> []
     | c # r \<Rightarrow> takeWhile (\<lambda>c. c \<noteq> dq) r # strings_in (tl (dropWhile (\<lambda>c. c \<noteq> dq) r)))"
  by pat_completeness auto
termination
proof (relation "measure length")
  fix s c r
  assume d: "dropWhile (\<lambda>c. c \<noteq> dq) s = c # r"
  have "length (dropWhile (\<lambda>c. c \<noteq> dq) s) \<le> length s" by (rule length_dropWhile_le)
  then have "length r < length s" using d by simp
  moreover have "length (dropWhile (\<lambda>c. c \<noteq> dq) r) \<le> length r" by (rule length_dropWhile_le)
  ultimately show "(tl (dropWhile (\<lambda>c. c \<noteq> dq) r), s) \<in> measure length" by simp
qed simp

declare strings_in.simps [simp del]

definition mem_cjson :: cjson where
  "mem_cjson = \<lparr>cj_encode = mem_encode, cj_decode = (\<lambda>s. Some (strings_in s))\<rparr>"

lemma plain_no_quote: "plain x \<Longrightarrow> dq \<notin> set x"
  by (auto simp: plain_def is_digit_def)

lemma takeWhile_until: "q \<notin> set x \<Longrightarrow> takeWhile (\<lambda>c. c \<noteq> q) (x @ q # r) = x"
  by (induction x) auto

lemma dropWhile_until: "q \<notin> set x \<Longrightarrow> dropWhile (\<lambda>c. c \<noteq> q) (x @ q # r) = q # r"
  by (induction x) auto

lemma strings_in_quoted: "plain x \<Longrightarrow> strings_in (quoted x @ r) = x # strings_in r"
  by (subst strings_in.simps) (simp add: quoted_def takeWhile_until dropWhile_until plain_no_quote)

lemma strings_in_skip: "c \<noteq> dq \<Longrightarrow> strings_in (c # r) = strings_in r"
  by (subst (1 2) strings_in.simps) simp

lemma strings_in_Nil: "strings_in [] = []"
  by (subst strings_in.simps) simp

lemma strings_in_rest: "\<forall>x \<in> set xs. plain x \<Longrightarrow> strings_in (encode_rest xs) = xs"
  by (induction xs) (simp_all add: strings_in_skip strings_in_quoted strings_in_Nil)

lemma mem_decode: "\<forall>x \<in> set xs. plain x \<Longrightarrow> strings_in (mem_encode xs) = xs"
  by (cases xs) (simp_all add: strings_in_skip strings_in_quoted strings_in_Nil strings_in_rest)

lemma mem_cjson_ok: "cjson_ok mem_cjson"
  by (simp add: cjson_ok_def mem_cjson_def mem_decode) (simp add: quoted_def)

definition mem_backends :: "(mem_redis_state, mem_sql) backends" where
  "mem_backends = \<lparr>be_redis = mem_redis, be_mysql = mem_mysql, be_cjson = mem_cjson\<rparr>"

lemma mem_backends_simps [simp]:
  "be_redis mem_backends = mem_redis" "be_mysql mem_backends = mem_mysql" "be_cjson mem_backends = mem_cjson"
  by (simp_all add: mem_backends_def)

definition mem_proxy :: "tables \<Rightarrow> bool list \<Rightarrow> (string \<Rightarrow> string option) \<Rightarrow> link list \<Rightarrow>
    (mem_redis_state, mem_sql) dbproxy" where
  "mem_proxy t fs m ls = \<lparr>dp_redis = (m, ls), dp_sql = (\<lambda>_. (t, fs))\<rparr>"

definition empty_tables :: tables where
  "empty_tables = \<lparr>t_messages = [], t_friends = [], t_members = []\<rparr>"

end
