(* ===== verification/DbProxy_Claims.thy ===== *)
theory DbProxy_Claims
  imports DbProxy_Correct Mem_Backends
begin

text \<open>
  The properties of the database proxy's handlers, each with its witness over the
  in-memory servers of \<open>Mem_Backends\<close>.
\<close>

section \<open>Saving messages\<close>

text \<open>
  Saving a private message stores both copies or none: on success the sender's and the
  receiver's rows are new in the table, on the database's error nothing has changed.
\<close>

lemma save_private_all_or_nothing:
  assumes "insert_ok (be_mysql be) view" "SavePrivateMsg be m w = (w', r)"
  shows "(messages view w' = messages view w \<and> r = Inl (Failed EINVAL ''Fail to insert into messages.'')) \<or>
    (messages view w' = messages view w @ [sender_row m, receiver_row m] \<and>
     keys_free (messages view w) [sender_row m, receiver_row m])"
  using assms by (rule save_private_spec)

text \<open>
  In any sequence of saves, private and group, failed and repeated ones included,
  every row of an acknowledged message is in the table exactly once.
\<close>

lemma acknowledged_messages_stored_once:
  assumes "insert_ok (be_mysql be) view" "unique_rows (messages view w)"
    and "save_all (save_message be) w ms = (w', log)" "(m, Inr ()) \<in> set log" "x \<in> set (request_rows m)"
  shows "filter (\<lambda>y. unique_key y = unique_key x) (messages view w') = [x]"
  using store.acknowledged_once [OF assms] .

text \<open>
  Saving a private message again, under whatever new ids, is refused and changes
  nothing in the table.
\<close>

lemma private_retry_refused:
  assumes "insert_ok (be_mysql be) view"
    and "unique_key (sender_row m) \<in> unique_key ` set (messages view w)"
    and "SavePrivateMsg be m w = (w', r)"
  shows "messages view w' = messages view w \<and> r = Inl (Failed EINVAL ''Fail to insert into messages.'')"
  using save_private_spec [OF assms(1,3)] keys_free_Cons_clash [OF assms(2)] by blast

text \<open>
  A message to oneself is never saved: its two rows clash with each other.
\<close>

lemma private_to_self_refused:
  assumes "insert_ok (be_mysql be) view" "npm_sender m = npm_receiver m"
    and "SavePrivateMsg be m w = (w', r)"
  shows "messages view w' = messages view w \<and> r = Inl (Failed EINVAL ''Fail to insert into messages.'')"
proof -
  have "\<not> keys_free (messages view w) [sender_row m, receiver_row m]"
    using assms(2) by (simp add: keys_free_def unique_rows_def unique_key_def sender_row_def receiver_row_def)
  with save_private_spec [OF assms(1,3)] show ?thesis by blast
qed

text \<open>
  Saving a group message stores the rows of a prefix of the members, all of them
  unless an insertion failed; the rows before the failure stay.
\<close>

lemma save_group_stores_prefix:
  assumes "insert_ok (be_mysql be) view" "SaveGroupMsg be m w = (w', r)"
  shows "\<exists>k \<le> length (ngm_user_and_msgids m).
    messages view w' = messages view w @ map (group_row m) (take k (ngm_user_and_msgids m)) \<and>
    (k = length (ngm_user_and_msgids m) \<or> r = Inl (Failed EINVAL ''Fail to insert into messages.''))"
  using save_group_spec [OF assms] by blast

lemma group_retry_present:
  assumes "insert_ok (be_mysql be) view" "unique_rows (messages view w)"
    and "ngm_user_and_msgids m = um # ums"
    and "unique_key (group_row m um) \<in> unique_key ` set (messages view w)"
    and "SaveGroupMsg be m w = (w', r)"
  shows "messages view w' = messages view w \<and> r \<noteq> Inr ()"
proof -
  have "save_message be w (SaveGroup m) = (w', r)" using assms(5) by simp
  from store.save_present_refused [OF assms(1) this assms(2), of "group_row m um"] assms(3,4)
  show ?thesis by simp
qed

text \<open>
  C35: once the first member's row of a group message is stored, no retry of the message
  ever succeeds or adds a row, so the members after a failure never get theirs.
\<close>

theorem group_retries_never_complete:
  assumes "insert_ok (be_mysql be) view" "unique_rows (messages view w)"
    and "\<forall>m \<in> set ms. \<exists>um ums. ngm_user_and_msgids m = um # ums \<and>
      unique_key (group_row m um) \<in> unique_key ` set (messages view w)"
    and "save_all (\<lambda>w m. SaveGroupMsg be m w) w ms = (w', log)"
  shows "messages view w' = messages view w \<and> (\<forall>(m, r) \<in> set log. r \<noteq> Inr ())"
  using assms(2-4)
proof (induction ms arbitrary: w log)
  case (Cons m ms)
  obtain w1 r where s: "SaveGroupMsg be m w = (w1, r)" by fastforce
  then obtain log' where l: "save_all (\<lambda>w m. SaveGroupMsg be m w) w1 ms = (w', log')" and log: "log = (m, r) # log'"
    using Cons.prems(3) by (auto split: prod.splits)
  from Cons.prems(2) obtain um ums where "ngm_user_and_msgids m = um # ums"
    "unique_key (group_row m um) \<in> unique_key ` set (messages view w)" by auto
  from group_retry_present [OF assms(1) Cons.prems(1) this s]
  have "messages view w1 = messages view w" "r \<noteq> Inr ()" by simp_all
  with Cons.IH [OF _ _ l] Cons.prems(1,2) log show ?case by simp
qed simp

section \<open>The last message sent\<close>

lemma plain_to_string [simp]: "plain (to_string i)"
  by (auto simp: plain_def dest: to_string_chars)

lemma lua_tonumber_to_string [simp]: "lua_tonumber (to_string i) = Some i"
  using scan_int_to_string [of "[]" i] by (simp add: lua_tonumber_def)

definition cached_last :: "('r, 'q) backends \<Rightarrow> 'r \<Rightarrow> user_id_t \<Rightarrow> int option" where
  "cached_last be r u = (case rd_get (be_redis be) r (last_send_key u) of None \<Rightarrow> None
     | Some a \<Rightarrow> (case cj_decode (be_cjson be) a of
         Some (x # y # ys) \<Rightarrow> lua_tonumber y | _ \<Rightarrow> None))"

lemma cached_last_encoded:
  "cjson_ok (be_cjson be) \<Longrightarrow>
   rd_get (be_redis be) r (last_send_key u) = Some (cj_encode (be_cjson be) [to_string a, to_string b, to_string c]) \<Longrightarrow>
   cached_last be r u = Some b"
  by (simp add: cached_last_def cjson_ok_def)

lemma redis_setex_get:
  "redis_ok ops \<Longrightarrow> rd_get ops (rd_setex ops r k t v) k' = (if k' = k then Some v else rd_get ops r k')"
  by (simp add: redis_ok_def)

lemma script_cases:
  fixes be :: "('r, 'q) backends"
  assumes ok: "redis_ok (be_redis be)" "cjson_ok (be_cjson be)"
    and eq: "set_last_script (be_redis be) (be_cjson be) (last_send_key u)
          (to_string a) (to_string b) (to_string c) r = (r', reply)"
  shows "r' = r \<or> (\<forall>v. v \<noteq> u \<longrightarrow> cached_last be r' v = cached_last be r v) \<and>
      cached_last be r' u = Some b \<and> (\<forall>old. cached_last be r u = Some old \<longrightarrow> old < b)"
proof -
  let ?store = "rd_setex (be_redis be) r (last_send_key u) 3600
    (cj_encode (be_cjson be) [to_string a, to_string b, to_string c])"
  have st: "cached_last be ?store u = Some b"
    by (rule cached_last_encoded [OF ok(2)]) (simp add: redis_setex_get [OF ok(1)])
  have fr: "\<forall>v. v \<noteq> u \<longrightarrow> cached_last be ?store v = cached_last be r v"
    by (simp add: cached_last_def redis_setex_get [OF ok(1)])
  have "r' = r \<or> r' = ?store \<and> (\<forall>old. cached_last be r u = Some old \<longrightarrow> old < b)"
    using eq unfolding set_last_script_def cached_last_def
    by (auto simp: Let_def split: option.splits list.splits if_splits)
  then show ?thesis using st fr by blast
qed

lemma set_last_redis:
  assumes "SetUserLastSendData_impl be d w = (w', r)" "rd_link (be_redis be) (dp_redis w) = (l, r0)"
  shows "dp_redis w' = r0 \<or> dp_redis w' =
    fst (set_last_script (be_redis be) (be_cjson be) (last_send_key (ul_user_id d))
          (to_string (ul_msg_id d)) (to_string (ul_client_time d)) (to_string (ul_msg_time d)) r0)"
  using assms unfolding SetUserLastSendData_impl_def redis_CallMethod_def redis_call_def
  by (auto split: prod.splits link.splits)

text \<open>
  The time of the last message that redis holds for a user never goes back: what
  \<open>SetUserLastSendData\<close> finds when its command reaches redis is kept, or replaced by the
  newer time that the call brings.
\<close>

lemma last_send_time_is_monotone:
  assumes ok: "redis_ok (be_redis be)" "cjson_ok (be_cjson be)"
    and eq: "SetUserLastSendData be d w = (w', r)"
    and l: "rd_link (be_redis be) (dp_redis w) = (l, r0)" and old: "cached_last be r0 u = Some old"
  shows "\<exists>new. cached_last be (dp_redis w') u = Some new \<and> old \<le> new \<and>
    (new = old \<or> u = ul_user_id d \<and> new = ul_client_time d)"
proof -
  let ?script = "set_last_script (be_redis be) (be_cjson be) (last_send_key (ul_user_id d))
    (to_string (ul_msg_id d)) (to_string (ul_client_time d)) (to_string (ul_msg_time d))"
  have w': "dp_redis w' = r0 \<or> dp_redis w' = fst (?script r0)"
    using set_last_redis [OF _ l, of d w' r] eq by (simp add: SetUserLastSendData_def)
  obtain r1 reply where s: "?script r0 = (r1, reply)" by fastforce
  from script_cases [OF ok s] w' s old show ?thesis
    by (cases "u = ul_user_id d") (auto intro: less_imp_le)
qed

definition answers :: "('r, 'q) backends \<Rightarrow> ('r, 'q) dbproxy \<Rightarrow> 'r \<Rightarrow> bool" where
  "answers be w r \<longleftrightarrow> rd_link (be_redis be) (dp_redis w) = (Answered, r)"

lemma answered_call:
  "answers be w r \<Longrightarrow> redis_CallMethod be cmd w = (w\<lparr>dp_redis := fst (cmd r)\<rparr>, Inr (snd (cmd r)))"
  by (simp add: answers_def redis_CallMethod_def redis_call_def)

lemma get_last_hit:
  assumes "answers be w r" "rd_get (be_redis be) r (last_send_key u) = Some s" "sscanf_last s = Inr d"
  shows "snd (GetUserLastSendData be u w) = Inr (last_answer d)"
  using assms by (simp add: GetUserLastSendData_def answered_call cmd_get_def bulk_def)

text \<open>
  A value of the documented form \<open>[msg_id,client_time,msg_time]\<close> is read back exactly.
\<close>

lemma documented_last_is_read_back:
  assumes "answers be w r" "in_i64 m" "in_i32 c" "in_i32 t"
    and "rd_get (be_redis be) r (last_send_key u) =
      Some (''['' @ to_string m @ '','' @ to_string c @ '','' @ to_string t @ '']'')"
  shows "snd (GetUserLastSendData be u w) = Inr (last_answer (m, c, t))"
  by (rule get_last_hit [OF assms(1,5) sscanf_last_roundtrip [OF assms(2-4)]])

lemma encoded_reads_zero:
  assumes "cjson_ok cj"
  shows "sscanf_last (cj_encode cj [to_string a, to_string b, to_string c]) = Inr (0, 0, 0)"
proof -
  obtain s where "cj_encode cj [to_string a, to_string b, to_string c] =
      CHR ''['' # CHR 0x22 # to_string a @ CHR 0x22 # s"
    using assms unfolding cjson_ok_def by (meson plain_to_string)
  then show ?thesis using sscanf_last_quoted [of "to_string a @ CHR 0x22 # s"] by simp
qed

text \<open>
  C36: what the Lua script stores is not of that form: \<open>ARGV\<close> are strings, so the array
  holds quoted strings, the scan assigns nothing, and as long as redis holds what the
  proxy itself stored, the last message of the user reads as 0, 0, 0.
\<close>

theorem stored_last_reads_as_zero:
  assumes ok: "redis_ok (be_redis be)" "cjson_ok (be_cjson be)"
    and set: "answers be w r0" "rd_get (be_redis be) r0 (last_send_key (ul_user_id d)) = None"
      "SetUserLastSendData be d w = (w', res)"
    and get: "answers be w' r1"
      "rd_get (be_redis be) r1 (last_send_key (ul_user_id d)) =
       rd_get (be_redis be) (dp_redis w') (last_send_key (ul_user_id d))"
  shows "res = Inr () \<and> snd (GetUserLastSendData be (ul_user_id d) w') = Inr (last_answer (0, 0, 0))"
proof -
  let ?v = "cj_encode (be_cjson be) [to_string (ul_msg_id d), to_string (ul_client_time d), to_string (ul_msg_time d)]"
  have "res = Inr ()" "dp_redis w' = rd_setex (be_redis be) r0 (last_send_key (ul_user_id d)) 3600 ?v"
    using set by (auto simp: SetUserLastSendData_def SetUserLastSendData_impl_def answered_call set_last_script_def)
  then have "rd_get (be_redis be) r1 (last_send_key (ul_user_id d)) = Some ?v"
    using get(2) by (simp add: redis_setex_get [OF ok(1)])
  from get_last_hit [OF get(1) this encoded_reads_zero [OF ok(2)]] \<open>res = Inr ()\<close> show ?thesis by simp
qed

lemma last_sent_where_iff:
  assumes "x \<in> set tbl"
  shows "last_sent_where u tbl x \<longleftrightarrow> r_user_id x = u \<and> r_sender x = u \<and>
    (\<forall>y \<in> set tbl. r_user_id y = u \<and> r_sender y = u \<longrightarrow> r_client_time y \<le> r_client_time x)"
proof (cases "r_user_id x = u \<and> r_sender x = u")
  case True
  let ?S = "r_client_time ` set (filter (\<lambda>x. r_user_id x = u \<and> r_sender x = u) tbl)"
  have "finite ?S" "r_client_time x \<in> ?S" using True assms by auto
  then have "r_client_time x = Max ?S \<longleftrightarrow> (\<forall>c \<in> ?S. c \<le> r_client_time x)"
    by (subst eq_Max_iff) auto
  then show ?thesis using True unfolding last_sent_where_def by (simp add: ball_conj_distrib) blast
next
  case False
  then show ?thesis unfolding last_sent_where_def by blast
qed

lemma select_messages:
  assumes ok: "mysql_ok ops view" and eq: "sql_messages ops q P = (q', Inr rs)"
  shows "view q' = view q" "mset rs = mset (filter (P (t_messages (view q))) (t_messages (view q)))"
proof -
  have "\<forall>q P q' r. sql_messages ops q P = (q', r) \<longrightarrow> view q' = view q \<and>
    (\<forall>rs. r = Inr rs \<longrightarrow> mset rs = mset (filter (P (t_messages (view q))) (t_messages (view q))))"
    using ok unfolding mysql_ok_def select_ok_def by (elim conjE)
  note A = this [rule_format, OF eq]
  show "view q' = view q" by (rule conjunct1 [OF A])
  show "mset rs = mset (filter (P (t_messages (view q))) (t_messages (view q)))"
    using conjunct2 [OF A] by (simp only: sum.inject)
qed

text \<open>What a row list of the query means, in terms of the table.\<close>

definition newest_sent :: "msg_row list \<Rightarrow> user_id_t \<Rightarrow> UserLastSendData \<Rightarrow> bool" where
  "newest_sent tbl u d \<longleftrightarrow>
    (if \<exists>x \<in> set tbl. r_user_id x = u \<and> r_sender x = u
     then \<exists>x \<in> set tbl. r_user_id x = u \<and> r_sender x = u \<and>
       (\<forall>y \<in> set tbl. r_user_id y = u \<and> r_sender y = u \<longrightarrow> r_client_time y \<le> r_client_time x) \<and>
       d = last_answer (r_msg_id x, r_client_time x, r_msg_time x)
     else d = last_answer (0, 0, 0))"

lemma selected_newest:
  assumes ok: "mysql_ok ops view" and s: "sql_messages ops q (last_sent_where u) = (q', Inr rs)"
  shows "view q' = view q" "newest_sent (t_messages (view q)) u (last_answer (last_from_rows rs))"
proof -
  let ?tbl = "t_messages (view q)" and ?own = "\<lambda>x. r_user_id x = u \<and> r_sender x = u"
  show "view q' = view q" by (rule select_messages(1) [OF ok s])
  have rs: "set rs = {x \<in> set ?tbl. last_sent_where u ?tbl x}"
    using mset_eq_setD [OF select_messages(2) [OF ok s]] by auto
  show "newest_sent ?tbl u (last_answer (last_from_rows rs))"
  proof (cases "\<exists>x \<in> set ?tbl. ?own x")
    case True
    let ?S = "r_client_time ` set (filter ?own ?tbl)"
    have "Max ?S \<in> ?S" using True by (intro Max_in) auto
    then obtain z where "z \<in> set ?tbl" "?own z" "r_client_time z = Max ?S" by auto
    then have "z \<in> set rs" by (simp add: rs last_sent_where_def)
    then obtain x xs where x: "rs = x # xs" by (cases rs) auto
    then have xin: "x \<in> set ?tbl" "last_sent_where u ?tbl x" using rs by auto
    then have "?own x \<and> (\<forall>y \<in> set ?tbl. ?own y \<longrightarrow> r_client_time y \<le> r_client_time x)"
      by (simp add: last_sent_where_iff)
    with True x xin(1) show ?thesis unfolding newest_sent_def by (auto simp: last_from_rows_def)
  next
    case False
    then have "set rs = {}" unfolding rs last_sent_where_def by blast
    then have "rs = []" by simp
    then show ?thesis unfolding newest_sent_def if_not_P [OF False] by (simp add: last_from_rows_def)
  qed
qed

lemma last_from_table:
  assumes "mysql_ok (be_mysql be) view"
    and "answers be w r" "rd_get (be_redis be) r (last_send_key u) = None"
    and "GetUserLastSendData be u w = (w', Inr d)"
  shows "tables_of view w' = tables_of view w \<and> newest_sent (messages view w) u d"
proof -
  obtain q res where s0: "sql_messages (be_mysql be) (dp_sql w db_message_connect_pool) (last_sent_where u) = (q, res)"
    by fastforce
  have "redis_CallMethod be (cmd_get (be_redis be) (last_send_key u)) w = (w\<lparr>dp_redis := r\<rparr>, Inr RNil)"
    by (simp add: answered_call [OF assms(2)] cmd_get_def bulk_def assms(3))
  then have "GetUserLastSendData be u w = (case res of
      Inl e \<Rightarrow> (set_sql db_message_connect_pool q (w\<lparr>dp_redis := r\<rparr>), Inl (Failed EINVAL ''Fail to select from messages.''))
    | Inr rs \<Rightarrow> (set_sql db_message_connect_pool q (w\<lparr>dp_redis := r\<rparr>), Inr (last_answer (last_from_rows rs))))"
    by (simp add: GetUserLastSendData_def s0 Let_def)
  with assms(4) obtain rs where "res = Inr rs" "tables_of view w' = view q" "d = last_answer (last_from_rows rs)"
    by (cases res) auto
  with selected_newest [OF assms(1) s0 [unfolded \<open>res = Inr rs\<close>]] show ?thesis by (simp add: tables_of_def)
qed

text \<open>
  Without a value in redis the answer comes from the table: the row of the user's
  newest message, or zeros when the user has sent none.
\<close>

lemma last_from_table_is_newest:
  assumes "mysql_ok (be_mysql be) view"
    and "answers be w r" "rd_get (be_redis be) r (last_send_key u) = None"
    and "GetUserLastSendData be u w = (w', Inr d)"
  shows "tables_of view w' = tables_of view w \<and>
    (if \<exists>x \<in> set (messages view w). r_user_id x = u \<and> r_sender x = u
     then \<exists>x \<in> set (messages view w). r_user_id x = u \<and> r_sender x = u \<and>
       (\<forall>y \<in> set (messages view w). r_user_id y = u \<and> r_sender y = u \<longrightarrow> r_client_time y \<le> r_client_time x) \<and>
       d = last_answer (r_msg_id x, r_client_time x, r_msg_time x)
     else d = last_answer (0, 0, 0))"
  using last_from_table [OF assms] unfolding newest_sent_def .

section \<open>Sessions\<close>

lemma get_sessions_answer:
  assumes "answers be w r" "us \<noteq> []"
  shows "GetSessions be us w = (w\<lparr>dp_redis := r\<rparr>, Inr (map (\<lambda>u.
    case rd_get (be_redis be) r (session_key u) of
      None \<Rightarrow> \<lparr>se_has_session = False, se_user_id = u, se_addr = []\<rparr>
    | Some a \<Rightarrow> \<lparr>se_has_session = True, se_user_id = u, se_addr = a\<rparr>) us))"
proof -
  have "map to_session (zip us (map (\<lambda>k. bulk (rd_get (be_redis be) r k)) (map session_key us))) =
    map (\<lambda>u. case rd_get (be_redis be) r (session_key u) of
      None \<Rightarrow> \<lparr>se_has_session = False, se_user_id = u, se_addr = []\<rparr>
    | Some a \<Rightarrow> \<lparr>se_has_session = True, se_user_id = u, se_addr = a\<rparr>) us"
    by (induction us) (auto simp: to_session_def bulk_def split: option.splits)
  with assms show ?thesis
    by (simp add: GetSessions_def answered_call cmd_mget_def reply_size_def)
qed

text \<open>
  After a user has signed in at an access server, every request for sessions that names
  the user answers, at the user's place in the order of the request, that the user has a
  session at that server's address, as long as redis keeps what it stored.
\<close>

lemma sign_in_is_visible:
  assumes ok: "redis_ok (be_redis be)"
    and "answers be w r0" "AuthAndSaveSession be sd w = (w1, res)"
    and "answers be w1 r1" "\<And>u. rd_get (be_redis be) r1 (session_key u) = rd_get (be_redis be) (dp_redis w1) (session_key u)"
    and "us \<noteq> []" "GetSessions be us w1 = (w2, Inr ss)" "i < length us" "us ! i = sd_user_id sd"
  shows "length ss = length us \<and>
    ss ! i = \<lparr>se_has_session = True, se_user_id = sd_user_id sd, se_addr = sd_access_addr sd\<rparr>"
proof -
  have "dp_redis w1 = rd_setex (be_redis be) r0 (session_key (sd_user_id sd)) 3600 (sd_access_addr sd)"
    using assms(2,3) by (auto simp: AuthAndSaveSession_def answered_call cmd_set_ex_def)
  then have "rd_get (be_redis be) r1 (session_key (sd_user_id sd)) = Some (sd_access_addr sd)"
    using assms(5) by (simp add: redis_setex_get [OF ok])
  with get_sessions_answer [OF assms(4,6)] assms(7-9) show ?thesis by auto
qed

section \<open>Reading messages\<close>

text \<open>
  C39: after a private message has been saved, its receiver reads it back with \<open>GetMsgs\<close>
  over any range that holds its id.
\<close>

theorem saved_message_is_read_by_receiver:
  assumes ok: "mysql_ok (be_mysql be) view" and s: "SavePrivateMsg be m w = (w1, Inr ())"
    and g: "GetMsgs be \<lparr>ra_user_id = npm_receiver m, ra_start_msg_id = a, ra_end_msg_id = b\<rparr> w1 = (w2, Inr msgs)"
    and id: "a \<le> npm_receiver_msg_id m" "npm_receiver_msg_id m \<le> b"
    and t: "in_i32 (npm_client_time m)" "in_i32 (npm_msg_time m)"
  shows "\<lparr>m_user_id = npm_receiver m, m_msg_id = npm_receiver_msg_id m, m_sender = npm_sender m,
    m_receiver = npm_receiver m, m_message = npm_message m, m_group_id = 0,
    m_client_time = npm_client_time m, m_msg_time = npm_msg_time m\<rparr> \<in> set msgs"
proof -
  let ?range = "\<lparr>ra_user_id = npm_receiver m, ra_start_msg_id = a, ra_end_msg_id = b\<rparr>"
  have i: "insert_ok (be_mysql be) view" using ok by (simp add: mysql_ok_def)
  have row: "receiver_row m \<in> set (messages view w1)" using save_private_spec [OF i s] by auto
  obtain q res where sel0: "sql_messages (be_mysql be) (dp_sql w1 db_message_connect_pool)
      (\<lambda>tbl. msgs_where ?range) = (q, res)" by fastforce
  with g obtain rs where rs: "res = Inr rs" and msgs: "msgs = map (row_msg (npm_receiver m)) rs"
    by (cases res) (simp_all add: GetMsgs_def)
  note sel = sel0 [unfolded rs]
  have "mset rs = mset (filter (msgs_where ?range) (messages view w1))"
    using select_messages(2) [OF ok sel] by (simp only: tables_of_def)
  from mset_eq_setD [OF this] have "receiver_row m \<in> set rs"
    using row id by (simp add: msgs_where_def receiver_row_def)
  then have "row_msg (npm_receiver m) (receiver_row m) \<in> set msgs" using msgs by simp
  with t show ?thesis by (simp add: row_msg_def receiver_row_def)
qed

section \<open>Witnesses\<close>

lemma mem_insert_ok: "insert_ok (be_mysql mem_backends) fst"
  using mem_mysql_ok by (simp add: mysql_ok_def)

lemma mem_answers [simp]: "answers mem_backends w r \<longleftrightarrow>
    (case snd (dp_redis w) of [] \<Rightarrow> r = (fst (dp_redis w), []) | l # ls \<Rightarrow> l = Answered \<and> r = (fst (dp_redis w), ls))"
  by (auto simp: answers_def mem_redis_def split: prod.split list.split)

abbreviation proxy0 :: "(mem_redis_state, mem_sql) dbproxy" where
  "proxy0 \<equiv> mem_proxy empty_tables [] (\<lambda>_. None) []"

abbreviation hello :: NewPrivateMsg where
  "hello \<equiv> \<lparr>npm_sender = 1, npm_sender_msg_id = 10, npm_receiver = 2, npm_receiver_msg_id = 20,
    npm_message = ''hi'', npm_msg_time = 100, npm_client_time = 99\<rparr>"

abbreviation hello_group :: NewGroupMsg where
  "hello_group \<equiv> \<lparr>ngm_group_id = 7, ngm_user_and_msgids = [\<lparr>um_user_id = 1, um_msg_id = 10\<rparr>, \<lparr>um_user_id = 2, um_msg_id = 20\<rparr>],
    ngm_sender_user_id = 1, ngm_sender_msg_id = 10, ngm_message = ''hi'', ngm_msg_time = 100, ngm_client_time = 99\<rparr>"

definition mem_with :: "msg_row list \<Rightarrow> bool list \<Rightarrow> (mem_redis_state, mem_sql) dbproxy" where
  "mem_with rs fs = mem_proxy (empty_tables\<lparr>t_messages := rs\<rparr>) fs (\<lambda>_. None) []"

lemma messages_mem_with [simp]: "messages fst (mem_with rs fs) = rs"
  by (simp add: tables_of_def mem_with_def mem_proxy_def)

lemmas eval_tables = tables_of_def mem_with_def mem_proxy_def empty_tables_def
lemmas eval_keys = keys_free_def unique_rows_def unique_key_def sender_row_def receiver_row_def group_row_def
lemmas eval_proxy = insert_private_def sql_exec_def SetUserLastSendData_impl_def redis_CallMethod_def
  redis_call_def set_last_script_def set_sql_def mem_mysql_def mem_redis_def mem_cjson_def Let_def

lemma hello_saved: "snd (SavePrivateMsg mem_backends hello proxy0) = Inr ()"
  by (simp add: SavePrivateMsg_def eval_proxy eval_tables eval_keys)

lemma save_private_all_or_nothing_witness:
  "\<exists>w'. SavePrivateMsg mem_backends hello proxy0 = (w', Inr ()) \<and>
    messages fst w' = messages fst proxy0 @ [sender_row hello, receiver_row hello]"
proof -
  obtain w' where s: "SavePrivateMsg mem_backends hello proxy0 = (w', Inr ())"
    using hello_saved by (metis prod.collapse)
  with save_private_all_or_nothing [OF mem_insert_ok s] show ?thesis by simp
qed

lemma acknowledged_messages_stored_once_witness:
  "\<exists>w' log. save_all (save_message mem_backends) proxy0 [SavePrivate hello, SavePrivate hello] = (w', log) \<and>
    filter (\<lambda>y. unique_key y = unique_key (receiver_row hello)) (messages fst w') = [receiver_row hello]"
proof -
  obtain w' log where s: "save_all (save_message mem_backends) proxy0 [SavePrivate hello, SavePrivate hello] = (w', log)"
    by fastforce
  have u: "unique_rows (messages fst proxy0)" by (simp add: eval_tables eval_keys)
  have l: "(SavePrivate hello, Inr ()) \<in> set log"
    using s hello_saved by (auto split: prod.splits)
  have x: "receiver_row hello \<in> set (request_rows (SavePrivate hello))" by simp
  from acknowledged_messages_stored_once [OF mem_insert_ok u s l x] s show ?thesis by blast
qed

lemma private_retry_refused_witness:
  "\<exists>w' r. SavePrivateMsg mem_backends (hello\<lparr>npm_sender_msg_id := 11\<rparr>) (mem_with [sender_row hello, receiver_row hello] []) = (w', r) \<and>
    r = Inl (Failed EINVAL ''Fail to insert into messages.'')"
proof -
  let ?w = "mem_with [sender_row hello, receiver_row hello] []"
  obtain w' r where s: "SavePrivateMsg mem_backends (hello\<lparr>npm_sender_msg_id := 11\<rparr>) ?w = (w', r)" by fastforce
  have k: "unique_key (sender_row (hello\<lparr>npm_sender_msg_id := 11\<rparr>)) \<in> unique_key ` set (messages fst ?w)"
    by (simp add: eval_tables eval_keys)
  from private_retry_refused [OF mem_insert_ok k s] s show ?thesis by blast
qed

lemma private_to_self_refused_witness:
  "\<exists>w' r. SavePrivateMsg mem_backends (hello\<lparr>npm_receiver := 1\<rparr>) proxy0 = (w', r) \<and>
    r = Inl (Failed EINVAL ''Fail to insert into messages.'')"
proof -
  obtain w' r where s: "SavePrivateMsg mem_backends (hello\<lparr>npm_receiver := 1\<rparr>) proxy0 = (w', r)" by fastforce
  have k: "npm_sender (hello\<lparr>npm_receiver := 1\<rparr>) = npm_receiver (hello\<lparr>npm_receiver := 1\<rparr>)" by simp
  from private_to_self_refused [OF mem_insert_ok k s] s show ?thesis by blast
qed

lemma save_group_stores_prefix_witness:
  "\<exists>w' r. SaveGroupMsg mem_backends hello_group (mem_with [] [False, True]) = (w', r) \<and>
    (\<exists>k \<le> 2. messages fst w' = map (group_row hello_group) (take k (ngm_user_and_msgids hello_group)))"
proof -
  obtain w' r where s: "SaveGroupMsg mem_backends hello_group (mem_with [] [False, True]) = (w', r)" by fastforce
  have e: "messages fst (mem_with [] [False, True]) = []" by (simp add: eval_tables)
  have n: "length (ngm_user_and_msgids hello_group) = 2" by simp
  show ?thesis using save_group_stores_prefix [OF mem_insert_ok s, unfolded e n append_Nil] s by blast
qed

theorem group_retries_never_complete_witness:
  "\<exists>w' log. save_all (\<lambda>w m. SaveGroupMsg mem_backends m w) (mem_with [group_row hello_group \<lparr>um_user_id = 1, um_msg_id = 10\<rparr>] [])
      [hello_group, hello_group] = (w', log) \<and>
    messages fst w' = [group_row hello_group \<lparr>um_user_id = 1, um_msg_id = 10\<rparr>]"
proof -
  let ?w = "mem_with [group_row hello_group \<lparr>um_user_id = 1, um_msg_id = 10\<rparr>] []"
  obtain w' log where s: "save_all (\<lambda>w m. SaveGroupMsg mem_backends m w) ?w [hello_group, hello_group] = (w', log)"
    by fastforce
  have m: "messages fst ?w = [group_row hello_group \<lparr>um_user_id = 1, um_msg_id = 10\<rparr>]" by (simp add: eval_tables)
  have u: "unique_rows (messages fst ?w)" by (simp add: m eval_keys)
  have f: "\<forall>m \<in> set [hello_group, hello_group]. \<exists>um ums. ngm_user_and_msgids m = um # ums \<and>
      unique_key (group_row m um) \<in> unique_key ` set (messages fst ?w)"
    by (simp add: m eval_keys)
  from group_retries_never_complete [OF mem_insert_ok u f s] s m show ?thesis by auto
qed

abbreviation last_99 :: UserLastSendData where
  "last_99 \<equiv> \<lparr>ul_user_id = 1, ul_msg_id = 10, ul_client_time = 99, ul_msg_time = 100\<rparr>"

lemma mem_redis_ok': "redis_ok (be_redis mem_backends)" "cjson_ok (be_cjson mem_backends)"
  by (simp_all add: mem_redis_ok mem_cjson_ok)

lemma last_send_time_is_monotone_witness:
  "\<exists>w' r new. SetUserLastSendData mem_backends (last_99\<lparr>ul_client_time := 50\<rparr>)
      (mem_proxy empty_tables [] [last_send_key 1 \<mapsto> mem_encode [to_string 10, to_string 99, to_string 100]] []) = (w', r) \<and>
    cached_last mem_backends (dp_redis w') 1 = Some new \<and> 99 \<le> new"
proof -
  let ?m = "[last_send_key 1 \<mapsto> mem_encode [to_string 10, to_string 99, to_string 100]]"
  let ?w = "mem_proxy empty_tables [] ?m []"
  obtain w' r where s: "SetUserLastSendData mem_backends (last_99\<lparr>ul_client_time := 50\<rparr>) ?w = (w', r)" by fastforce
  have l: "rd_link (be_redis mem_backends) (dp_redis ?w) = (Answered, (?m, []))"
    by (simp add: mem_redis_def mem_proxy_def)
  have o: "cached_last mem_backends (?m, []) 1 = Some 99"
    by (rule cached_last_encoded [OF mem_redis_ok'(2)]) (simp add: mem_redis_def mem_cjson_def)
  from last_send_time_is_monotone [OF mem_redis_ok' s l o] s show ?thesis by blast
qed

lemma documented_last_is_read_back_witness:
  "snd (GetUserLastSendData mem_backends 1 (mem_proxy empty_tables []
      [last_send_key 1 \<mapsto> ''['' @ to_string 10 @ '','' @ to_string 99 @ '','' @ to_string 100 @ '']''] [])) =
    Inr (last_answer (10, 99, 100))"
proof -
  let ?m = "[last_send_key 1 \<mapsto> ''['' @ to_string 10 @ '','' @ to_string 99 @ '','' @ to_string 100 @ '']'']"
  have a: "answers mem_backends (mem_proxy empty_tables [] ?m []) (?m, [])" by (simp add: mem_proxy_def)
  show ?thesis
    by (rule documented_last_is_read_back [OF a]) (simp_all add: mem_redis_def in_i64_def in_i32_def)
qed

theorem stored_last_reads_as_zero_witness:
  "\<exists>w' res. SetUserLastSendData mem_backends last_99 proxy0 = (w', res) \<and>
    snd (GetUserLastSendData mem_backends 1 w') = Inr (last_answer (0, 0, 0))"
proof -
  obtain w' res where s: "SetUserLastSendData mem_backends last_99 proxy0 = (w', res)" by fastforce
  have a: "answers mem_backends proxy0 ((\<lambda>_. None), [])" by (simp add: mem_proxy_def)
  have n: "rd_get (be_redis mem_backends) ((\<lambda>_. None), []) (last_send_key (ul_user_id last_99)) = None"
    by (simp add: mem_redis_def)
  have ls: "snd (dp_redis w') = []"
    using s by (auto simp: SetUserLastSendData_def eval_proxy mem_proxy_def)
  then have g: "answers mem_backends w' (dp_redis w')" by (cases "dp_redis w'") simp
  from stored_last_reads_as_zero [OF mem_redis_ok' a n s g] s show ?thesis by auto
qed

lemma last_from_table_is_newest_witness:
  "\<exists>w' d. GetUserLastSendData mem_backends 1 (mem_with [sender_row hello, receiver_row hello] []) = (w', Inr d) \<and>
    d = last_answer (10, 99, 100)"
proof -
  let ?w = "mem_with [sender_row hello, receiver_row hello] []"
  obtain w' d where g: "GetUserLastSendData mem_backends 1 ?w = (w', Inr d)"
    by (simp add: GetUserLastSendData_def eval_proxy eval_tables cmd_get_def bulk_def)
  have a: "answers mem_backends ?w ((\<lambda>_. None), [])" by (simp add: eval_tables)
  have n: "rd_get (be_redis mem_backends) ((\<lambda>_. None), []) (last_send_key 1) = None" by (simp add: mem_redis_def)
  have ok: "mysql_ok (be_mysql mem_backends) fst" by (simp add: mem_mysql_ok)
  have m: "messages fst ?w = [sender_row hello, receiver_row hello]" by (simp add: eval_tables)
  from last_from_table_is_newest [OF ok a n g] have "d = last_answer (10, 99, 100)"
    by (simp add: m sender_row_def receiver_row_def)
  with g show ?thesis by blast
qed

abbreviation sign1 :: SigninData where
  "sign1 \<equiv> \<lparr>sd_user_id = 1, sd_password = ''x'', sd_client_timestamp = 0, sd_access_addr = ''10.0.0.1:5000''\<rparr>"

lemma sign_in_is_visible_witness:
  "\<exists>w1 res w2 ss. AuthAndSaveSession mem_backends sign1 proxy0 = (w1, res) \<and>
    GetSessions mem_backends [2, 1] w1 = (w2, Inr ss) \<and>
    ss ! 1 = \<lparr>se_has_session = True, se_user_id = 1, se_addr = ''10.0.0.1:5000''\<rparr>"
proof -
  let ?m = "[session_key 1 \<mapsto> ''10.0.0.1:5000'']"
  let ?w1 = "mem_proxy empty_tables [] ?m []"
  have s: "AuthAndSaveSession mem_backends sign1 proxy0 = (?w1, Inr 0)"
    by (simp add: AuthAndSaveSession_def redis_CallMethod_def redis_call_def cmd_set_ex_def mem_redis_def mem_proxy_def)
  have a: "answers mem_backends proxy0 ((\<lambda>_. None), [])" "answers mem_backends ?w1 (?m, [])"
    by (simp_all add: mem_proxy_def)
  have e: "\<And>u. rd_get (be_redis mem_backends) (?m, []) (session_key u) = rd_get (be_redis mem_backends) (dp_redis ?w1) (session_key u)"
    by (simp add: mem_proxy_def)
  obtain w2 ss where g: "GetSessions mem_backends [2, 1] ?w1 = (w2, Inr ss)"
    by (simp add: get_sessions_answer [OF a(2)])
  have us: "[2, 1] \<noteq> ([] :: int list)" "1 < length [2, 1 :: int]" "[2, 1] ! 1 = sd_user_id sign1" by simp_all
  from sign_in_is_visible [OF mem_redis_ok'(1) a(1) s a(2) e us(1) g us(2,3)] s g show ?thesis by auto
qed

theorem saved_message_is_read_by_receiver_witness:
  "\<exists>w1 w2 msgs. SavePrivateMsg mem_backends hello proxy0 = (w1, Inr ()) \<and>
    GetMsgs mem_backends \<lparr>ra_user_id = 2, ra_start_msg_id = 0, ra_end_msg_id = 100\<rparr> w1 = (w2, Inr msgs) \<and>
    \<lparr>m_user_id = 2, m_msg_id = 20, m_sender = 1, m_receiver = 2, m_message = ''hi'', m_group_id = 0,
      m_client_time = 99, m_msg_time = 100\<rparr> \<in> set msgs"
proof -
  obtain w1 where s: "SavePrivateMsg mem_backends hello proxy0 = (w1, Inr ())"
    using hello_saved by (metis prod.collapse)
  obtain w2 msgs where g: "GetMsgs mem_backends \<lparr>ra_user_id = npm_receiver hello, ra_start_msg_id = 0, ra_end_msg_id = 100\<rparr> w1 = (w2, Inr msgs)"
    by (auto simp: GetMsgs_def mem_mysql_def split_def)
  have ok: "mysql_ok (be_mysql mem_backends) fst" by (simp add: mem_mysql_ok)
  from saved_message_is_read_by_receiver [OF ok s g] s g show ?thesis by (simp add: in_i32_def)
qed

end
