(* ===== verification/Timers.thy ===== *)
theory Timers
  imports Main
begin

text \<open>
  The timers of brpc's bthread library (\<^verbatim>\<open>bthread_timer_add\<close>, \<^verbatim>\<open>bthread_timer_del\<close>), which the
  access server and the client both use: a parameter with its documented behaviour, and an
  instance that counts its ids.
\<close>

section \<open>The interface\<close>

record 'tm timer_ops =
  tm_add :: "'tm \<Rightarrow> int \<Rightarrow> nat \<Rightarrow> nat \<times> 'tm"
  tm_del :: "'tm \<Rightarrow> nat \<Rightarrow> int \<times> 'tm"

text \<open>
  Documented behaviour, over a view of the timers: what has become of each id, and the
  argument of a timer that has not run. An id is new and not 0 (the invalid id), and
  deleting answers 0 exactly when the timer had not run, which then never runs.
\<close>

datatype timer_view = Unused | Pending nat | Gone

definition pend :: "('tm \<Rightarrow> nat \<Rightarrow> timer_view) \<Rightarrow> 'tm \<Rightarrow> nat \<Rightarrow> nat option" where
  "pend view t i = (case view t i of Pending a \<Rightarrow> Some a | _ \<Rightarrow> None)"

definition timer_ok :: "'tm timer_ops \<Rightarrow> ('tm \<Rightarrow> nat \<Rightarrow> timer_view) \<Rightarrow> bool" where
  "timer_ok ops view \<longleftrightarrow>
     (\<forall>t at a i t'. tm_add ops t at a = (i, t') \<longrightarrow>
        i \<noteq> 0 \<and> view t i = Unused \<and> view t' = (view t)(i := Pending a)) \<and>
     (\<forall>t i r t'. tm_del ops t i = (r, t') \<longrightarrow>
        (if pend view t i = None then r \<noteq> 0 \<and> view t' = view t
         else r = 0 \<and> view t' = (view t)(i := Gone)))"

section \<open>Timers to evaluate on\<close>

type_synonym mem_timers = "nat \<times> (nat \<Rightarrow> timer_view)"

definition mem_view :: "mem_timers \<Rightarrow> nat \<Rightarrow> timer_view" where
  "mem_view t i = (if fst t < i then Unused else if i = 0 then Unused
     else if snd t i = Unused then Gone else snd t i)"

definition no_timers :: mem_timers where
  "no_timers = (0, \<lambda>i. Unused)"

text \<open>
  An id that has not been handed out is unused in the view, whatever the table holds for
  it, so a deletion of it has to be answered with a failure too.
\<close>

definition mem_timers_ops :: "mem_timers timer_ops" where
  "mem_timers_ops = \<lparr>
     tm_add = (\<lambda>t at a. (Suc (fst t), (Suc (fst t), (snd t)(Suc (fst t) := Pending a)))),
     tm_del = (\<lambda>t i. if pend mem_view t i = None then (1, t) else (0, (fst t, (snd t)(i := Gone))))\<rparr>"

lemma mem_timers_ok: "timer_ok mem_timers_ops mem_view"
  by (auto simp: timer_ok_def mem_timers_ops_def mem_view_def pend_def fun_eq_iff split: if_splits timer_view.splits)

lemma no_timers_unused: "\<forall>i. mem_view no_timers i = Unused"
  by (simp add: mem_view_def no_timers_def)

end
