(* ===== verification/Access.thy ===== *)
theory Access
  imports Messages Timers
begin

text \<open>
  The access server (\<^verbatim>\<open>server/access/access_service.cc\<close>): the table of the clients' waiting
  calls (\<open>id_map\<close>), the heartbeat timers, and the handlers. A waiting \<^verbatim>\<open>PullData\<close> call is a
  number: its closure, its answer object and its controller are all named by it, and a null
  pointer is \<open>None\<close>. Running a closure sends the answer of the call.

  The bodies of the table's operations run under the mutex of the user's bucket, and what
  they do after the unlock (running a closure, deleting an argument) does not touch the
  table, so each operation is one step. The timer library of brpc is the parameter
  \<open>timer_ops\<close>, and so is the time of day.
\<close>

section \<open>State\<close>

record Data =
  d_done :: "nat option"
  d_msgs :: "nat option"
  d_cntl :: "nat option"
  d_heartbeat_timeout_id :: nat
  d_hbarg :: "nat option"

datatype effect = CloseConnection nat | RunClosure nat

text \<open>
  \<open>hbargs\<close> is the heap of \<^verbatim>\<open>HeartBeatTimeoutArg\<close> objects, with the user of each; \<open>next_arg\<close>
  is the address of the next one. \<open>responses\<close> holds the answer under construction of each
  call, \<open>effects\<close> what has been done to the connections, in order.
\<close>

record 'tm access =
  id_map :: "nat \<Rightarrow> int \<Rightarrow> Data option"
  timers :: 'tm
  hbargs :: "nat \<Rightarrow> int option"
  next_arg :: nat
  responses :: "nat \<Rightarrow> Msg list"
  effects :: "effect list"

definition set_entry :: "nat \<Rightarrow> int \<Rightarrow> Data option \<Rightarrow> 'tm access \<Rightarrow> 'tm access" where
  "set_entry b u d s = s\<lparr>id_map := (id_map s)(b := (id_map s b)(u := d))\<rparr>"

definition emit :: "effect list \<Rightarrow> 'tm access \<Rightarrow> 'tm access" where
  "emit es s = s\<lparr>effects := effects s @ es\<rparr>"

definition new_hbarg :: "int \<Rightarrow> 'tm access \<Rightarrow> nat \<times> 'tm access" where
  "new_hbarg u s = (next_arg s, s\<lparr>hbargs := (hbargs s)(next_arg s \<mapsto> u), next_arg := Suc (next_arg s)\<rparr>)"

definition delete_hbarg :: "nat option \<Rightarrow> 'tm access \<Rightarrow> fault + 'tm access" where
  "delete_hbarg p s = (case p of None \<Rightarrow> Inr s
     | Some a \<Rightarrow> if hbargs s a = None then Inl DoubleFree else Inr (s\<lparr>hbargs := (hbargs s)(a := None)\<rparr>))"

text \<open>
  \<^verbatim>\<open>if (id != 0) if (bthread_timer_del(id) == 0) ...\<close>: whether a timer was cancelled.
\<close>

definition cancel_timer :: "'tm timer_ops \<Rightarrow> nat \<Rightarrow> 'tm access \<Rightarrow> bool \<times> 'tm access" where
  "cancel_timer ops i s = (if i = 0 then (False, s)
     else (case tm_del ops (timers s) i of (r, tm) \<Rightarrow> (r = 0, s\<lparr>timers := tm\<rparr>)))"

definition arm_timer :: "'tm timer_ops \<Rightarrow> int \<Rightarrow> nat \<Rightarrow> 'tm access \<Rightarrow> nat \<times> 'tm access" where
  "arm_timer ops at arg s = (case tm_add ops (timers s) at arg of (i, tm) \<Rightarrow> (i, s\<lparr>timers := tm\<rparr>))"

text \<open>
  \<^verbatim>\<open>FLAGS_recv_heartbeat_timeout_s * 1000000\<close> is a product of two 32-bit integers, the time
  it is added to has 64 bits.
\<close>

definition timeout_at :: "int \<Rightarrow> int \<Rightarrow> fault + int" where
  "timeout_at timeout_s cur_time_us =
     fbind (i32 (timeout_s * 1000000)) (\<lambda>heartbeat_timeout_us. i64 (cur_time_us + heartbeat_timeout_us))"

section \<open>The operations on the table\<close>

definition ResetHeartBeatTimer ::
  "'tm timer_ops \<Rightarrow> int \<Rightarrow> int \<Rightarrow> int \<Rightarrow> 'tm access \<Rightarrow> fault + 'tm access" where
  "ResetHeartBeatTimer ops timeout_s now user_id s =
     fbind (timeout_at timeout_s now) (\<lambda>at.
     fbind (bucket_of user_id) (\<lambda>bucket.
       (case new_hbarg user_id s of (hbarg, s1) \<Rightarrow>
         (case id_map s1 bucket user_id of
            Some data \<Rightarrow>
              (case cancel_timer ops (d_heartbeat_timeout_id data) s1 of (cancelled, s2) \<Rightarrow>
                (case arm_timer ops at hbarg s2 of (i, s3) \<Rightarrow>
                  delete_hbarg (if cancelled then d_hbarg data else None)
                    (set_entry bucket user_id
                      (Some (data\<lparr>d_heartbeat_timeout_id := i, d_hbarg := Some hbarg\<rparr>)) s3)))
          | None \<Rightarrow>
              (case arm_timer ops at hbarg s1 of (i, s2) \<Rightarrow>
                Inr (set_entry bucket user_id
                  (Some \<lparr>d_done = None, d_msgs = None, d_cntl = None,
                         d_heartbeat_timeout_id = i, d_hbarg = Some hbarg\<rparr>) s2))))))"

text \<open>
  \<^verbatim>\<open>cntl->CloseConnection(...); done->Run();\<close> under the guard \<^verbatim>\<open>msgs != nullptr\<close>: the other
  two pointers are not tested.
\<close>

definition close_and_run :: "Data \<Rightarrow> 'tm access \<Rightarrow> fault + 'tm access" where
  "close_and_run data s = (case d_msgs data of
      None \<Rightarrow> Inr s
    | Some m \<Rightarrow> (case (d_cntl data, d_done data) of
        (Some c, Some d) \<Rightarrow> Inr (emit [CloseConnection c, RunClosure d] s)
      | _ \<Rightarrow> Inl NullDeref))"

text \<open>The result says whether the user had an entry (\<^verbatim>\<open>butil::Status\<close>).\<close>

definition ClearUserData ::
  "'tm timer_ops \<Rightarrow> int \<Rightarrow> 'tm access \<Rightarrow> fault + bool \<times> 'tm access" where
  "ClearUserData ops user_id s =
     fbind (bucket_of user_id) (\<lambda>bucket.
       (case id_map s bucket user_id of
          None \<Rightarrow> Inr (False, s)
        | Some data \<Rightarrow>
            (case cancel_timer ops (d_heartbeat_timeout_id data) s of (cancelled, s1) \<Rightarrow>
              fbind (close_and_run data (set_entry bucket user_id None s1)) (\<lambda>s2.
              fbind (delete_hbarg (if cancelled then d_hbarg data else None) s2) (\<lambda>s3.
              Inr (True, s3))))))"

text \<open>
  The handler of a timer that runs owns its argument: it reads the user, clears the user's
  data and deletes the argument.
\<close>

definition UserHeartBeatTimeoutHeadler ::
  "'tm timer_ops \<Rightarrow> nat \<Rightarrow> 'tm access \<Rightarrow> fault + 'tm access" where
  "UserHeartBeatTimeoutHeadler ops arg s =
     (case hbargs s arg of
        None \<Rightarrow> Inl UseAfterFree
      | Some user_id \<Rightarrow>
          fbind (ClearUserData ops user_id s) (\<lambda>(found, s1). delete_hbarg (Some arg) s1))"

definition PushClosureAndReply ::
  "'tm timer_ops \<Rightarrow> int \<Rightarrow> int \<Rightarrow> int \<Rightarrow> nat \<Rightarrow> 'tm access \<Rightarrow> fault + 'tm access" where
  "PushClosureAndReply ops timeout_s now user_id call s =
     fbind (bucket_of user_id) (\<lambda>bucket.
       (case new_hbarg user_id s of (ptr, s1) \<Rightarrow>
         (case (case id_map s1 bucket user_id of
              None \<Rightarrow> (None, None, \<lparr>d_done = Some call, d_msgs = Some call, d_cntl = Some call,
                                     d_heartbeat_timeout_id = 0, d_hbarg = None\<rparr>, s1)
            | Some data \<Rightarrow>
                (case cancel_timer ops (d_heartbeat_timeout_id data) s1 of (cancelled, s2) \<Rightarrow>
                  (d_done data,
                   if cancelled then d_hbarg data else None,
                   data\<lparr>d_done := Some call, d_msgs := Some call, d_cntl := Some call,
                        d_heartbeat_timeout_id := (if cancelled then 0 else d_heartbeat_timeout_id data),
                        d_hbarg := (if cancelled then None else d_hbarg data)\<rparr>,
                   s2))) of
            (lazy_run, lazy_delete, data, s2) \<Rightarrow>
              fbind (timeout_at timeout_s now) (\<lambda>at.
                (case arm_timer ops at ptr s2 of (i, s3) \<Rightarrow>
                  delete_hbarg lazy_delete
                    (emit (case lazy_run of None \<Rightarrow> [] | Some c \<Rightarrow> [RunClosure c])
                      (set_entry bucket user_id (Some (data\<lparr>d_heartbeat_timeout_id := i\<rparr>)) s3)))))))"

text \<open>
  \<open>want\<close> says whether the caller passes places for the pointers. Without them the waiting
  closure is run here.
\<close>

definition PopClosureAndReply ::
  "int \<Rightarrow> bool \<Rightarrow> 'tm access \<Rightarrow> fault + (nat option \<times> nat option \<times> nat option) \<times> 'tm access" where
  "PopClosureAndReply user_id want s =
     fbind (bucket_of user_id) (\<lambda>bucket.
       (case id_map s bucket user_id of
          None \<Rightarrow> Inr ((None, None, None), s)
        | Some data \<Rightarrow>
            (let cleared = set_entry bucket user_id
                   (Some (data\<lparr>d_done := None, d_msgs := None, d_cntl := None\<rparr>)) s in
             if want then Inr ((d_done data, d_msgs data, d_cntl data), cleared)
             else (case d_done data of
                None \<Rightarrow> Inr ((None, None, None), s)
              | Some c \<Rightarrow> Inr ((None, None, None), emit [RunClosure c] cleared)))))"

text \<open>
  The clean-up at shutdown goes over the buckets without locking and without erasing; the
  order of each bucket is the container's, here the parameter \<open>order\<close>.
\<close>

definition clear_entry :: "'tm timer_ops \<Rightarrow> Data \<Rightarrow> 'tm access \<Rightarrow> fault + 'tm access" where
  "clear_entry ops data s =
     fbind (close_and_run data s) (\<lambda>s1.
       (case cancel_timer ops (d_heartbeat_timeout_id data) s1 of (cancelled, s2) \<Rightarrow>
         delete_hbarg (if cancelled then d_hbarg data else None) s2))"

fun clear_users :: "'tm timer_ops \<Rightarrow> nat \<Rightarrow> int list \<Rightarrow> 'tm access \<Rightarrow> fault + 'tm access" where
  "clear_users ops b [] s = Inr s"
| "clear_users ops b (u # us) s =
     fbind (case id_map s b u of None \<Rightarrow> Inr s | Some data \<Rightarrow> clear_entry ops data s)
       (clear_users ops b us)"

fun clear_buckets :: "'tm timer_ops \<Rightarrow> (nat \<Rightarrow> int list) \<Rightarrow> nat list \<Rightarrow> 'tm access \<Rightarrow> fault + 'tm access" where
  "clear_buckets ops order [] s = Inr s"
| "clear_buckets ops order (b # bs) s = fbind (clear_users ops b (order b) s) (clear_buckets ops order bs)"

definition ClearClosureAndReply :: "'tm timer_ops \<Rightarrow> (nat \<Rightarrow> int list) \<Rightarrow> 'tm access \<Rightarrow> fault + 'tm access" where
  "ClearClosureAndReply ops order s = clear_buckets ops order [0..<nat kBucketNum] s"

section \<open>The handlers on the table\<close>

definition PullData ::
  "'tm timer_ops \<Rightarrow> int \<Rightarrow> int \<Rightarrow> int \<Rightarrow> nat \<Rightarrow> 'tm access \<Rightarrow> fault + 'tm access" where
  "PullData ops timeout_s now user_id call s = PushClosureAndReply ops timeout_s now user_id call s"

definition HeartBeat ::
  "'tm timer_ops \<Rightarrow> int \<Rightarrow> int \<Rightarrow> int \<Rightarrow> 'tm access \<Rightarrow> fault + 'tm access" where
  "HeartBeat ops timeout_s now user_id s = ResetHeartBeatTimer ops timeout_s now user_id s"

definition SendtoAccess :: "Msg \<Rightarrow> 'tm access \<Rightarrow> fault + 'tm access" where
  "SendtoAccess msg s =
     fbind (PopClosureAndReply (m_user_id msg) True s) (\<lambda>((client_done, msgs, client_cntl), s1).
       (case client_done of
          None \<Rightarrow> Inr s1
        | Some d \<Rightarrow> (case msgs of
            None \<Rightarrow> Inl NullDeref
          | Some m \<Rightarrow> Inr (emit [RunClosure d]
              (s1\<lparr>responses := (responses s1)(m := responses s1 m @ [msg])\<rparr>)))))"

section \<open>The handlers that call other servers\<close>

text \<open>
  \<open>code\<close> is the request code that selects a logic server; \<open>crc32c\<close> is brpc's checksum over
  the eight bytes of the id.
\<close>

record 'l remote =
  rm_SendMsg :: "nat \<Rightarrow> NewMsg \<Rightarrow> 'l \<Rightarrow> 'l \<times> MsgReply result"
  rm_GetMsgs :: "nat \<Rightarrow> MsgIdRange \<Rightarrow> 'l \<Rightarrow> 'l \<times> Msg list result"
  rm_GetFriends :: "nat \<Rightarrow> user_id_t \<Rightarrow> 'l \<Rightarrow> 'l \<times> UserInfo list result"
  rm_GetGroups :: "nat \<Rightarrow> user_id_t \<Rightarrow> 'l \<Rightarrow> 'l \<times> GroupInfo list result"
  rm_GetGroupMembers :: "nat \<Rightarrow> group_id_t \<Rightarrow> 'l \<Rightarrow> 'l \<times> UserInfo list result"
  rm_AuthAndSaveSession :: "SigninData \<Rightarrow> 'l \<Rightarrow> 'l \<times> int result"

definition le_bytes :: "int \<Rightarrow> nat list" where
  "le_bytes i = map (\<lambda>k. nat (i div 256 ^ k mod 256)) [0..<8]"

definition Hash :: "(nat list \<Rightarrow> nat) \<Rightarrow> int \<Rightarrow> nat" where
  "Hash crc32c key = crc32c (le_bytes key)"

definition access_SignIn ::
  "'l remote \<Rightarrow> string \<Rightarrow> SigninData \<Rightarrow> 'l \<Rightarrow> 'l \<times> int result" where
  "access_SignIn rm local_side signin_data l =
     and_then (rm_AuthAndSaveSession rm (signin_data\<lparr>sd_access_addr := local_side\<rparr>) l)
       (\<lambda>l last_msg_id. (l, Inr last_msg_id))"

text \<open>\<^verbatim>\<open>SignOut\<close> prepares a call to the proxy and does not make it.\<close>

definition access_SignOut :: "user_id_t \<Rightarrow> 'l \<Rightarrow> 'l \<times> int result" where
  "access_SignOut user_id l = (l, Inr 0)"

definition access_SendMsg ::
  "'tm timer_ops \<Rightarrow> 'l remote \<Rightarrow> (nat list \<Rightarrow> nat) \<Rightarrow> int \<Rightarrow> int \<Rightarrow> NewMsg \<Rightarrow> 'tm access \<Rightarrow> 'l \<Rightarrow>
   fault + 'tm access \<times> 'l \<times> MsgReply result" where
  "access_SendMsg ops rm crc32c timeout_s now new_msg s l =
     fbind (ResetHeartBeatTimer ops timeout_s now (nm_user_id new_msg) s) (\<lambda>s1.
       (case rm_SendMsg rm (Hash crc32c (nm_peer_id new_msg)) new_msg l of (l1, r) \<Rightarrow> Inr (s1, l1, r)))"

definition access_GetMsgs :: "'l remote \<Rightarrow> (nat list \<Rightarrow> nat) \<Rightarrow> MsgIdRange \<Rightarrow> 'l \<Rightarrow> 'l \<times> Msg list result" where
  "access_GetMsgs rm crc32c msg_range l = rm_GetMsgs rm (Hash crc32c (ra_user_id msg_range)) msg_range l"

definition access_GetFriends :: "'l remote \<Rightarrow> (nat list \<Rightarrow> nat) \<Rightarrow> user_id_t \<Rightarrow> 'l \<Rightarrow> 'l \<times> UserInfo list result" where
  "access_GetFriends rm crc32c user_id l = rm_GetFriends rm (Hash crc32c user_id) user_id l"

definition access_GetGroups :: "'l remote \<Rightarrow> (nat list \<Rightarrow> nat) \<Rightarrow> user_id_t \<Rightarrow> 'l \<Rightarrow> 'l \<times> GroupInfo list result" where
  "access_GetGroups rm crc32c user_id l = rm_GetGroups rm (Hash crc32c user_id) user_id l"

definition access_GetGroupMembers :: "'l remote \<Rightarrow> (nat list \<Rightarrow> nat) \<Rightarrow> group_id_t \<Rightarrow> 'l \<Rightarrow> 'l \<times> UserInfo list result" where
  "access_GetGroupMembers rm crc32c group_id l = rm_GetGroupMembers rm (Hash crc32c group_id) group_id l"

end
