(* ===== verification/Access_Correct.thy ===== *)
theory Access_Correct
  imports Access
begin

text \<open>
  What the access server promises about the calls it holds. Every operation on the table
  either leaves the waiting calls alone or hands one user's slot over: the call that was
  in it is run, and the slot gets the new call or nothing. The locale \<open>reply_table\<close> draws the
  consequence for any sequence of steps; the machine \<open>access_step\<close> interleaves the handlers
  with the timers, and is the interpretation.
\<close>

section \<open>Views of the table\<close>

definition entry :: "'tm access \<Rightarrow> int \<Rightarrow> Data option" where
  "entry s u = id_map s (nat (u mod 16)) u"

definition waits :: "'tm access \<Rightarrow> int \<Rightarrow> nat option" where
  "waits s u = (case entry s u of None \<Rightarrow> None | Some d \<Rightarrow> d_done d)"

definition runs :: "'tm access \<Rightarrow> nat \<Rightarrow> nat" where
  "runs s c = count_list (effects s) (RunClosure c)"

definition whole :: "Data \<Rightarrow> bool" where
  "whole d \<longleftrightarrow> d_msgs d = d_done d \<and> d_cntl d = d_done d"

definition data_ok :: "'tm access \<Rightarrow> bool" where
  "data_ok s \<longleftrightarrow> (\<forall>u d. entry s u = Some d \<longrightarrow> whole d)"

lemma bucket_of_Inr: "bucket_of u = Inr b \<Longrightarrow> b = nat (u mod 16)"
proof (cases "0 \<le> u")
  case False
  assume b: "bucket_of u = Inr b"
  with False have "16 dvd u" using bucket_of_negative [of u] by fastforce
  then have "u mod 16 = 0" by simp
  moreover have "b = 0" using b False \<open>16 dvd u\<close>
    by (simp add: bucket_of_def kBucketNum_def smod_int_alt_def Let_def)
  ultimately show ?thesis by simp
qed (simp add: bucket_of_nonneg)

lemma entry_set_entry [simp]: "entry (set_entry (nat (u mod 16)) u d s) = (entry s)(u := d)"
  by (auto simp: entry_def set_entry_def fun_eq_iff)

lemma set_entry_frame [simp]:
  "timers (set_entry b u d s) = timers s" "hbargs (set_entry b u d s) = hbargs s"
  "next_arg (set_entry b u d s) = next_arg s" "responses (set_entry b u d s) = responses s"
  "effects (set_entry b u d s) = effects s"
  by (simp_all add: set_entry_def)

lemma entry_frame [simp]:
  "entry (s\<lparr>timers := tm\<rparr>) = entry s" "entry (s\<lparr>hbargs := h\<rparr>) = entry s"
  "entry (s\<lparr>next_arg := n\<rparr>) = entry s" "entry (s\<lparr>responses := r\<rparr>) = entry s"
  "entry (s\<lparr>effects := e\<rparr>) = entry s" "entry (emit es s) = entry s"
  by (simp_all add: entry_def fun_eq_iff emit_def)

lemma emit_frame [simp]:
  "timers (emit es s) = timers s" "hbargs (emit es s) = hbargs s"
  "next_arg (emit es s) = next_arg s" "responses (emit es s) = responses s"
  "effects (emit es s) = effects s @ es"
  by (simp_all add: emit_def)

lemma id_map_entry: "id_map s (nat (u mod 16)) u = entry s u"
  by (simp add: entry_def)

lemma new_hbarg_eq:
  "new_hbarg u s = (a, s1) \<longleftrightarrow>
     a = next_arg s \<and> s1 = s\<lparr>hbargs := (hbargs s)(next_arg s \<mapsto> u), next_arg := Suc (next_arg s)\<rparr>"
  by (auto simp: new_hbarg_def)

lemma delete_hbarg_Inr:
  "delete_hbarg p s = Inr s' \<longleftrightarrow>
     (case p of None \<Rightarrow> s' = s | Some a \<Rightarrow> hbargs s a \<noteq> None \<and> s' = s\<lparr>hbargs := (hbargs s)(a := None)\<rparr>)"
  by (auto simp: delete_hbarg_def split: option.splits)

lemma delete_hbarg_faults: "delete_hbarg p s \<noteq> Inl NullDeref"
  by (auto simp: delete_hbarg_def split: option.splits)

text \<open>Cancelling only touches the timers.\<close>

lemma cancel_frame: "cancel_timer ops i s = (r, s') \<Longrightarrow> \<exists>tm. s' = s\<lparr>timers := tm\<rparr>"
  by (auto simp: cancel_timer_def split: prod.splits if_splits) (metis access.surjective access.update_convs(2))

lemma arm_frame: "arm_timer ops at a s = (i, s') \<Longrightarrow> \<exists>tm. s' = s\<lparr>timers := tm\<rparr>"
  by (auto simp: arm_timer_def split: prod.splits)

lemma close_and_run_Inr:
  assumes "close_and_run data s = Inr s'" and "whole data"
  shows "s' = (case d_done data of None \<Rightarrow> s | Some c \<Rightarrow> emit [CloseConnection c, RunClosure c] s)"
  using assms by (auto simp: close_and_run_def whole_def split: option.splits)

lemma close_and_run_no_null: "whole data \<Longrightarrow> \<exists>s'. close_and_run data s = Inr s'"
  by (auto simp: close_and_run_def whole_def split: option.splits)

section \<open>Handing a slot over\<close>

definition handover :: "('s \<Rightarrow> 'u \<Rightarrow> nat option) \<Rightarrow> ('s \<Rightarrow> nat \<Rightarrow> nat) \<Rightarrow> 's \<Rightarrow> 's \<Rightarrow> 'u \<Rightarrow> nat option \<Rightarrow> bool" where
  "handover w r s s' u new \<longleftrightarrow>
     w s' = (w s)(u := new) \<and> (\<forall>c. r s' c = r s c + (if w s u = Some c then 1 else 0))"

definition untouched :: "('s \<Rightarrow> 'u \<Rightarrow> nat option) \<Rightarrow> ('s \<Rightarrow> nat \<Rightarrow> nat) \<Rightarrow> 's \<Rightarrow> 's \<Rightarrow> bool" where
  "untouched w r s s' \<longleftrightarrow> w s' = w s \<and> r s' = r s"

lemma runs_append: "effects s' = effects s @ es \<Longrightarrow> runs s' c = runs s c + count_list es (RunClosure c)"
  by (simp add: runs_def)

lemma waits_upd:
  "entry s' = (entry s)(u := Some d) \<Longrightarrow> waits s' = (waits s)(u := d_done d)"
  "entry s' = (entry s)(u := None) \<Longrightarrow> waits s' = (waits s)(u := None)"
  by (auto simp: waits_def fun_eq_iff)

lemma data_ok_upd:
  "entry s' = (entry s)(u := Some d) \<Longrightarrow> data_ok s \<Longrightarrow> whole d \<Longrightarrow> data_ok s'"
  "entry s' = (entry s)(u := None) \<Longrightarrow> data_ok s \<Longrightarrow> data_ok s'"
  by (auto simp: data_ok_def split: if_splits)

lemma data_okD: "data_ok s \<Longrightarrow> entry s u = Some d \<Longrightarrow> whole d"
  by (simp add: data_ok_def)

section \<open>What each operation does\<close>

text \<open>
  The full effect of the operations that arm a timer, in one shape: the old timer is
  cancelled if there is one, a new one is armed with a new argument, the argument of the
  cancelled timer that the entry remembers is freed, and the entry is replaced.
\<close>

definition old_timer :: "'tm access \<Rightarrow> int \<Rightarrow> nat" where
  "old_timer s u = (case entry s u of None \<Rightarrow> 0 | Some d \<Rightarrow> d_heartbeat_timeout_id d)"

definition old_arg :: "'tm access \<Rightarrow> int \<Rightarrow> nat option" where
  "old_arg s u = (case entry s u of None \<Rightarrow> None | Some d \<Rightarrow> d_hbarg d)"

definition freed :: "bool \<Rightarrow> nat option \<Rightarrow> (nat \<Rightarrow> int option) \<Rightarrow> nat \<Rightarrow> int option" where
  "freed cancelled p h = (if cancelled then (case p of None \<Rightarrow> h | Some a \<Rightarrow> h(a := None)) else h)"

definition rearmed ::
  "'tm timer_ops \<Rightarrow> int \<Rightarrow> int \<Rightarrow> 'tm access \<Rightarrow> 'tm access \<Rightarrow> bool \<Rightarrow> nat \<Rightarrow> bool" where
  "rearmed ops at u s s' cancelled i \<longleftrightarrow> (\<exists>s1 s2.
     cancel_timer ops (old_timer s u) s = (cancelled, s1) \<and>
     arm_timer ops at (next_arg s) s1 = (i, s2) \<and>
     timers s' = timers s2 \<and> next_arg s' = Suc (next_arg s) \<and> responses s' = responses s \<and>
     hbargs s' = freed cancelled (old_arg s u) ((hbargs s)(next_arg s \<mapsto> u)))"

lemma cancel_0: "cancel_timer ops 0 s = (False, s)"
  by (simp add: cancel_timer_def)

lemma cancel_timers: "cancel_timer ops i s = (r, s1) \<Longrightarrow> timers t = timers s \<Longrightarrow>
    cancel_timer ops i t = (r, t\<lparr>timers := timers s1\<rparr>)"
  by (auto simp: cancel_timer_def split: if_splits prod.splits)

lemma arm_timers: "arm_timer ops at a s = (i, s1) \<Longrightarrow> timers t = timers s \<Longrightarrow>
    arm_timer ops at a t = (i, t\<lparr>timers := timers s1\<rparr>)"
  by (auto simp: arm_timer_def split: prod.splits)
lemma reset_spec:
  assumes "ResetHeartBeatTimer ops timeout_s now u s = Inr s'"
  obtains at cancelled i where "rearmed ops at u s s' cancelled i" and "timeout_at timeout_s now = Inr at" and "effects s' = effects s"
    and "entry s' = (entry s)(u := Some (case entry s u of
           None \<Rightarrow> \<lparr>d_done = None, d_msgs = None, d_cntl = None, d_heartbeat_timeout_id = i, d_hbarg = Some (next_arg s)\<rparr>
         | Some d \<Rightarrow> d\<lparr>d_heartbeat_timeout_id := i, d_hbarg := Some (next_arg s)\<rparr>))"
proof -
  let ?s1 = "s\<lparr>hbargs := (hbargs s)(next_arg s \<mapsto> u), next_arg := Suc (next_arg s)\<rparr>"
  obtain at b where at: "timeout_at timeout_s now = Inr at" and b: "bucket_of u = Inr b"
    using assms by (auto simp: ResetHeartBeatTimer_def fbind_Inr)
  note run = assms [unfolded ResetHeartBeatTimer_def at b fbind_simps bucket_of_Inr [OF b] id_map_entry new_hbarg_def prod.case]
  show ?thesis
  proof (cases "entry s u")
    case None
    obtain i s2 where arm: "arm_timer ops at (next_arg s) ?s1 = (i, s2)"
      by fastforce
    from arm_frame [OF arm] obtain tm where s2: "s2 = ?s1\<lparr>timers := tm\<rparr>" by blast
    have "arm_timer ops at (next_arg s) s = (i, s\<lparr>timers := tm\<rparr>)"
      using arm_timers [OF arm, of s] s2 by simp
    then have "rearmed ops at u s s' False i"
      using run None arm s2 by (auto simp: rearmed_def old_timer_def cancel_0 freed_def)
    with run None arm s2 at show ?thesis by (intro that [of at False i]) auto
  next
    case (Some d)
    obtain r s2 where del: "cancel_timer ops (d_heartbeat_timeout_id d) ?s1 = (r, s2)" by fastforce
    from cancel_frame [OF del] obtain tm where s2: "s2 = ?s1\<lparr>timers := tm\<rparr>" by blast
    obtain i s3 where arm: "arm_timer ops at (next_arg s) s2 = (i, s3)" by fastforce
    from arm_frame [OF arm] obtain tm' where s3: "s3 = s2\<lparr>timers := tm'\<rparr>" by blast
    have "cancel_timer ops (d_heartbeat_timeout_id d) s = (r, s\<lparr>timers := tm\<rparr>)"
      using cancel_timers [OF del, of s] s2 by simp
    moreover have "arm_timer ops at (next_arg s) (s\<lparr>timers := tm\<rparr>) = (i, s\<lparr>timers := tm'\<rparr>)"
      using arm_timers [OF arm, of "s\<lparr>timers := tm\<rparr>"] s2 s3 by simp
    ultimately have "rearmed ops at u s s' r i"
      using run Some del arm s2 s3
      by (auto simp: rearmed_def old_timer_def old_arg_def freed_def delete_hbarg_Inr
            split: option.splits if_splits)
    with run Some del arm s2 s3 at show ?thesis
      by (intro that [of at r i]) (auto simp: delete_hbarg_Inr split: option.splits)
  qed
qed

lemma push_spec:
  assumes "PushClosureAndReply ops timeout_s now u call s = Inr s'"
  obtains at cancelled i where "rearmed ops at u s s' cancelled i" and "timeout_at timeout_s now = Inr at"
    and "effects s' = effects s @ (case waits s u of None \<Rightarrow> [] | Some c \<Rightarrow> [RunClosure c])"
    and "entry s' = (entry s)(u \<mapsto> \<lparr>d_done = Some call, d_msgs = Some call, d_cntl = Some call,
           d_heartbeat_timeout_id = i, d_hbarg = (if cancelled then None else old_arg s u)\<rparr>)"
proof -
  let ?s1 = "s\<lparr>hbargs := (hbargs s)(next_arg s \<mapsto> u), next_arg := Suc (next_arg s)\<rparr>"
  obtain b where b: "bucket_of u = Inr b"
    using assms by (auto simp: PushClosureAndReply_def fbind_Inr)
  note run = assms [unfolded PushClosureAndReply_def b fbind_simps bucket_of_Inr [OF b] id_map_entry new_hbarg_def prod.case]
  obtain at where at: "timeout_at timeout_s now = Inr at"
    using run by (cases "timeout_at timeout_s now") (auto split: prod.splits option.splits)
  show ?thesis
  proof (cases "entry s u")
    case None
    obtain i s2 where arm: "arm_timer ops at (next_arg s) ?s1 = (i, s2)" by fastforce
    from arm_frame [OF arm] obtain tm where s2: "s2 = ?s1\<lparr>timers := tm\<rparr>" by blast
    have "arm_timer ops at (next_arg s) s = (i, s\<lparr>timers := tm\<rparr>)"
      using arm_timers [OF arm, of s] s2 by simp
    then have "rearmed ops at u s s' False i"
      using run None arm s2 at
      by (auto simp: rearmed_def old_timer_def cancel_0 freed_def delete_hbarg_def)
    with run None arm s2 at show ?thesis
      by (intro that [of at False i]) (auto simp: delete_hbarg_def waits_def old_arg_def)
  next
    case (Some d)
    obtain r s2 where del: "cancel_timer ops (d_heartbeat_timeout_id d) ?s1 = (r, s2)" by fastforce
    from cancel_frame [OF del] obtain tm where s2: "s2 = ?s1\<lparr>timers := tm\<rparr>" by blast
    obtain i s3 where arm: "arm_timer ops at (next_arg s) s2 = (i, s3)" by fastforce
    from arm_frame [OF arm] obtain tm' where s3: "s3 = s2\<lparr>timers := tm'\<rparr>" by blast
    have "cancel_timer ops (d_heartbeat_timeout_id d) s = (r, s\<lparr>timers := tm\<rparr>)"
      using cancel_timers [OF del, of s] s2 by simp
    moreover have "arm_timer ops at (next_arg s) (s\<lparr>timers := tm\<rparr>) = (i, s\<lparr>timers := tm'\<rparr>)"
      using arm_timers [OF arm, of "s\<lparr>timers := tm\<rparr>"] s2 s3 by simp
    ultimately have "rearmed ops at u s s' r i"
      using run Some del arm s2 s3 at
      by (auto simp: rearmed_def old_timer_def old_arg_def freed_def delete_hbarg_Inr
            split: option.splits if_splits)
    with run Some del arm s2 s3 at show ?thesis
      by (intro that [of at r i]) (auto simp: delete_hbarg_Inr waits_def old_arg_def split: option.splits)
  qed
qed

lemma clear_spec:
  assumes "ClearUserData ops u s = Inr (found, s')" and "data_ok s"
  shows "case entry s u of None \<Rightarrow> \<not> found \<and> s' = s
    | Some d \<Rightarrow> found \<and> entry s' = (entry s)(u := None) \<and>
        effects s' = effects s @ (case d_done d of None \<Rightarrow> [] | Some c \<Rightarrow> [CloseConnection c, RunClosure c]) \<and>
        next_arg s' = next_arg s \<and> responses s' = responses s \<and>
        (\<exists>cancelled s1. cancel_timer ops (d_heartbeat_timeout_id d) s = (cancelled, s1) \<and>
           timers s' = timers s1 \<and> hbargs s' = freed cancelled (d_hbarg d) (hbargs s))"
proof -
  obtain b where b: "bucket_of u = Inr b" using assms by (auto simp: ClearUserData_def fbind_Inr)
  note run = assms(1) [unfolded ClearUserData_def b fbind_simps bucket_of_Inr [OF b] id_map_entry]
  show ?thesis
  proof (cases "entry s u")
    case None with run show ?thesis by simp
  next
    case (Some d)
    note w = data_okD [OF assms(2) Some]
    obtain r s1 where del: "cancel_timer ops (d_heartbeat_timeout_id d) s = (r, s1)" by fastforce
    from cancel_frame [OF del] obtain tm where s1: "s1 = s\<lparr>timers := tm\<rparr>" by blast
    from run Some del obtain s2 where
      s2: "close_and_run d (set_entry (nat (u mod 16)) u None s1) = Inr s2"
      and found: "found" and s': "delete_hbarg (if r then d_hbarg d else None) s2 = Inr s'"
      by (auto simp: fbind_Inr)
    from close_and_run_Inr [OF s2 w] s1 have
      "timers s2 = tm" "hbargs s2 = hbargs s" "next_arg s2 = next_arg s" "responses s2 = responses s"
      "entry s2 = (entry s)(u := None)"
      "effects s2 = effects s @ (case d_done d of None \<Rightarrow> [] | Some c \<Rightarrow> [CloseConnection c, RunClosure c])"
      by (auto split: option.splits)
    with s' found Some del s1 show ?thesis
      by (auto simp: delete_hbarg_Inr freed_def split: option.splits if_splits)
  qed
qed

lemma deliver_spec:
  assumes "SendtoAccess m s = Inr s'" and "data_ok s"
  shows "timers s' = timers s \<and> hbargs s' = hbargs s \<and> next_arg s' = next_arg s \<and>
    (case waits s (m_user_id m) of
       None \<Rightarrow> entry s' = entry s \<and> effects s' = effects s \<and> responses s' = responses s
     | Some c \<Rightarrow> effects s' = effects s @ [RunClosure c] \<and>
         responses s' = (responses s)(c := responses s c @ [m]) \<and>
         entry s' = (entry s)(m_user_id m :=
           Some ((the (entry s (m_user_id m)))\<lparr>d_done := None, d_msgs := None, d_cntl := None\<rparr>)))"
proof -
  let ?u = "m_user_id m"
  obtain b where b: "bucket_of ?u = Inr b"
    using assms by (auto simp: SendtoAccess_def PopClosureAndReply_def fbind_Inr)
  note run = assms(1) [unfolded SendtoAccess_def PopClosureAndReply_def b fbind_simps bucket_of_Inr [OF b] id_map_entry]
  show ?thesis
  proof (cases "entry s ?u")
    case None with run show ?thesis by (simp add: waits_def)
  next
    case (Some d)
    note w = data_okD [OF assms(2) Some]
    show ?thesis
    proof (cases "d_done d")
      case None
      have "d\<lparr>d_done := None, d_msgs := None, d_cntl := None\<rparr> = d"
        using w None by (cases d) (simp add: whole_def)
      with run Some None w show ?thesis by (auto simp: waits_def whole_def fun_upd_idem)
    next
      case (Some c)
      with run \<open>entry s ?u = Some d\<close> w show ?thesis by (auto simp: waits_def whole_def)
    qed
  qed
qed

lemma handler_spec:
  assumes "UserHeartBeatTimeoutHeadler ops a s = Inr s'"
  obtains u found s1 where "hbargs s a = Some u" and "ClearUserData ops u s = Inr (found, s1)"
    and "s' = s1\<lparr>hbargs := (hbargs s1)(a := None)\<rparr>"
  using assms
  by (auto simp: UserHeartBeatTimeoutHeadler_def fbind_Inr delete_hbarg_Inr split: option.splits)

text \<open>No operation meets a null pointer while the three pointers of each entry agree.\<close>

lemma clear_no_null: "data_ok s \<Longrightarrow> ClearUserData ops u s \<noteq> Inl NullDeref"
proof
  assume ok: "data_ok s" and bad: "ClearUserData ops u s = Inl NullDeref"
  obtain b where b: "bucket_of u = Inr b"
    using bad by (cases "bucket_of u") (auto simp: ClearUserData_def bucket_of_def Let_def split: if_splits)
  note run = bad [unfolded ClearUserData_def b fbind_simps bucket_of_Inr [OF b] id_map_entry]
  obtain d where d: "entry s u = Some d" using run by (cases "entry s u") auto
  from run d show False
    by (auto simp: fbind_def delete_hbarg_def split: prod.splits sum.splits option.splits if_splits)
      (metis close_and_run_no_null data_okD ok d sum.distinct(1))
qed
section \<open>The contract of a table of waiting calls\<close>

text \<open>
  \<open>accounted w r s C\<close>: each call of \<open>C\<close> either waits in one slot and has not been run, or
  waits nowhere and has been run once; no other call is known.
\<close>

definition accounted :: "('s \<Rightarrow> 'u \<Rightarrow> nat option) \<Rightarrow> ('s \<Rightarrow> nat \<Rightarrow> nat) \<Rightarrow> 's \<Rightarrow> nat set \<Rightarrow> bool" where
  "accounted w r s C \<longleftrightarrow>
     (\<forall>c\<in>C. r s c = 0 \<and> (\<exists>!u. w s u = Some c) \<or> r s c = 1 \<and> (\<forall>u. w s u \<noteq> Some c)) \<and>
     (\<forall>c. c \<notin> C \<longrightarrow> r s c = 0 \<and> (\<forall>u. w s u \<noteq> Some c))"

lemma accounted_untouched: "untouched w r s s' \<Longrightarrow> accounted w r s C \<Longrightarrow> accounted w r s' C"
  by (simp add: untouched_def accounted_def)

lemma accounted_handover_None:
  assumes h: "handover w r s s' u None" and a: "accounted w r s C"
  shows "accounted w r s' C"
  unfolding accounted_def
proof (intro conjI ballI allI impI)
  fix c assume "c \<in> C"
  with a have "r s c = 0 \<and> (\<exists>!u. w s u = Some c) \<or> r s c = 1 \<and> (\<forall>u. w s u \<noteq> Some c)"
    by (simp add: accounted_def)
  with h show "r s' c = 0 \<and> (\<exists>!u. w s' u = Some c) \<or> r s' c = 1 \<and> (\<forall>u. w s' u \<noteq> Some c)"
    by (cases "w s u = Some c") (auto simp: handover_def)
qed (use a h in \<open>auto simp: accounted_def handover_def\<close>)

lemma accounted_handover_Some:
  assumes h: "handover w r s s' u (Some n)" and a: "accounted w r s C" and n: "n \<notin> C"
  shows "accounted w r s' (insert n C)"
  unfolding accounted_def
proof (intro conjI ballI allI impI)
  fix c assume c: "c \<in> insert n C"
  show "r s' c = 0 \<and> (\<exists>!u. w s' u = Some c) \<or> r s' c = 1 \<and> (\<forall>u. w s' u \<noteq> Some c)"
  proof (cases "c = n")
    case True
    from n a have "r s n = 0" "\<forall>u. w s u \<noteq> Some n" by (auto simp: accounted_def)
    with True h show ?thesis by (auto simp: handover_def)
  next
    case False
    with c a have "r s c = 0 \<and> (\<exists>!u. w s u = Some c) \<or> r s c = 1 \<and> (\<forall>u. w s u \<noteq> Some c)"
      by (simp add: accounted_def)
    with h False show ?thesis
      by (cases "w s u = Some c") (auto simp: handover_def)
  qed
next
  fix c assume "c \<notin> insert n C"
  with a h show "r s' c = 0" by (auto simp: accounted_def handover_def)
next
  fix c u' assume "c \<notin> insert n C"
  with a h show "w s' u' \<noteq> Some c" by (auto simp: accounted_def handover_def)
qed

definition calls_of :: "('o \<Rightarrow> nat option) \<Rightarrow> 'o list \<Rightarrow> nat list" where
  "calls_of issues os = List.map_filter issues os"

lemma calls_of_simps [simp]:
  "calls_of issues [] = []"
  "calls_of issues (o1 # os) = (case issues o1 of None \<Rightarrow> calls_of issues os | Some c \<Rightarrow> c # calls_of issues os)"
  by (simp_all add: calls_of_def map_filter_simps split: option.split)

locale reply_table =
  fixes step :: "'s \<Rightarrow> 'o \<Rightarrow> 's \<Rightarrow> bool"
    and w :: "'s \<Rightarrow> 'u \<Rightarrow> nat option"
    and r :: "'s \<Rightarrow> nat \<Rightarrow> nat"
    and inv :: "'s \<Rightarrow> bool"
    and issues :: "'o \<Rightarrow> nat option"
  assumes step_inv: "step s o1 s' \<Longrightarrow> inv s \<Longrightarrow> inv s'"
    and step_issues: "step s o1 s' \<Longrightarrow> inv s \<Longrightarrow> issues o1 = Some c \<Longrightarrow> \<exists>u. handover w r s s' u (Some c)"
    and step_other: "step s o1 s' \<Longrightarrow> inv s \<Longrightarrow> issues o1 = None \<Longrightarrow>
                       untouched w r s s' \<or> (\<exists>u. handover w r s s' u None)"
begin

lemma path_inv: "path step s os s' \<Longrightarrow> inv s \<Longrightarrow> inv s'"
  by (erule path_keeps) (auto intro: step_inv)

lemma step_accounted:
  assumes "step s o1 s'" "inv s" "accounted w r s C"
    and "\<And>c. issues o1 = Some c \<Longrightarrow> c \<notin> C"
  shows "accounted w r s' (set_option (issues o1) \<union> C)"
proof (cases "issues o1")
  case None
  with step_other [OF assms(1,2)] assms(3) show ?thesis
    by (auto intro: accounted_untouched accounted_handover_None)
next
  case (Some c)
  with step_issues [OF assms(1,2)] assms(3,4) show ?thesis
    by (auto dest: accounted_handover_Some)
qed

lemma path_accounted:
  assumes "path step s os s'" "inv s" "accounted w r s C"
    and "distinct (calls_of issues os)" "set (calls_of issues os) \<inter> C = {}"
  shows "accounted w r s' (set (calls_of issues os) \<union> C)"
  using assms
proof (induction arbitrary: C rule: path.induct)
  case (path_Cons s o1 s1 os s')
  have "accounted w r s1 (set_option (issues o1) \<union> C)"
    by (rule step_accounted [OF path_Cons.hyps(1) path_Cons.prems(1,2)])
      (use path_Cons.prems(4) in auto)
  from path_Cons.IH [OF step_inv [OF path_Cons.hyps(1) path_Cons.prems(1)] this] path_Cons.prems(3,4)
  show ?case by (cases "issues o1") (auto simp: insert_commute Un_commute)
qed simp

lemma run_or_waiting:
  assumes "path step s os s'" "inv s" "accounted w r s {}"
    and "distinct (calls_of issues os)" "c \<in> set (calls_of issues os)"
  shows "r s' c = 0 \<and> (\<exists>!u. w s' u = Some c) \<or> r s' c = 1 \<and> (\<forall>u. w s' u \<noteq> Some c)"
  using path_accounted [OF assms(1-4)] assms(5) by (simp add: accounted_def)

end

section \<open>The machine\<close>

text \<open>
  A configuration is the server with the arguments of the timers that have fired and whose
  handler has not got the bucket's mutex yet. \<open>Fire i\<close> is the timer library starting the
  handler of the timer \<open>i\<close>, \<open>Handle a\<close> the handler's body with the argument \<open>a\<close>.
\<close>

type_synonym 'tm config = "'tm access \<times> nat list"

datatype label = Pull int int nat | Beat int int | Deliver Msg | Fire nat | Handle nat

inductive access_step ::
  "'tm timer_ops \<Rightarrow> ('tm \<Rightarrow> nat \<Rightarrow> timer_view) \<Rightarrow> int \<Rightarrow> 'tm config \<Rightarrow> label \<Rightarrow> 'tm config \<Rightarrow> bool"
  for ops view timeout_s where
  step_pull: "PullData ops timeout_s now u c s = Inr s' \<Longrightarrow>
    access_step ops view timeout_s (s, hs) (Pull now u c) (s', hs)"
| step_beat: "HeartBeat ops timeout_s now u s = Inr s' \<Longrightarrow>
    access_step ops view timeout_s (s, hs) (Beat now u) (s', hs)"
| step_deliver: "SendtoAccess m s = Inr s' \<Longrightarrow>
    access_step ops view timeout_s (s, hs) (Deliver m) (s', hs)"
| step_fire: "view (timers s) i = Pending a \<Longrightarrow> view tm = (view (timers s))(i := Gone) \<Longrightarrow>
    access_step ops view timeout_s (s, hs) (Fire i) (s\<lparr>timers := tm\<rparr>, a # hs)"
| step_handle: "a \<in> set hs \<Longrightarrow> UserHeartBeatTimeoutHeadler ops a s = Inr s' \<Longrightarrow>
    access_step ops view timeout_s (s, hs) (Handle a) (s', remove1 a hs)"

inductive_cases access_stepE: "access_step ops view timeout_s x l y"
inductive_cases pullE: "access_step ops view timeout_s x (Pull now u c) y"

fun issued_call :: "label \<Rightarrow> nat option" where
  "issued_call (Pull now u c) = Some c"
| "issued_call _ = None"

definition access0 :: "'tm \<Rightarrow> 'tm access" where
  "access0 tm = \<lparr>id_map = (\<lambda>b u. None), timers = tm, hbargs = (\<lambda>a. None), next_arg = 0,
     responses = (\<lambda>c. []), effects = []\<rparr>"

section \<open>The slots of the access server\<close>

lemma push_handover:
  assumes "PullData ops timeout_s now u c s = Inr s'"
  shows "handover waits runs s s' u (Some c)" and "data_ok s \<Longrightarrow> data_ok s'"
proof -
  from assms obtain r i where e: "effects s' = effects s @ (case waits s u of None \<Rightarrow> [] | Some c \<Rightarrow> [RunClosure c])"
    and m: "entry s' = (entry s)(u \<mapsto> \<lparr>d_done = Some c, d_msgs = Some c, d_cntl = Some c,
           d_heartbeat_timeout_id = i, d_hbarg = (if r then None else old_arg s u)\<rparr>)"
    unfolding PullData_def by (rule push_spec)
  show "handover waits runs s s' u (Some c)"
    using waits_upd(1) [OF m] runs_append [OF e] by (auto simp: handover_def split: option.splits)
  show "data_ok s \<Longrightarrow> data_ok s'" by (rule data_ok_upd(1) [OF m]) (auto simp: whole_def)
qed

lemma beat_untouched:
  assumes "HeartBeat ops timeout_s now u s = Inr s'"
  shows "untouched waits runs s s'" and "data_ok s \<Longrightarrow> data_ok s'"
proof -
  from assms obtain i where e: "effects s' = effects s"
    and m: "entry s' = (entry s)(u := Some (case entry s u of
           None \<Rightarrow> \<lparr>d_done = None, d_msgs = None, d_cntl = None, d_heartbeat_timeout_id = i, d_hbarg = Some (next_arg s)\<rparr>
         | Some d \<Rightarrow> d\<lparr>d_heartbeat_timeout_id := i, d_hbarg := Some (next_arg s)\<rparr>))"
    unfolding HeartBeat_def by (rule reset_spec)
  show "untouched waits runs s s'"
    using waits_upd(1) [OF m] e by (auto simp: untouched_def runs_def fun_eq_iff waits_def split: option.splits)
  show "data_ok s \<Longrightarrow> data_ok s'"
    by (rule data_ok_upd(1) [OF m]) (auto simp: whole_def dest: data_okD split: option.splits)
qed

lemma deliver_handover:
  assumes "SendtoAccess m s = Inr s'" "data_ok s"
  shows "handover waits runs s s' (m_user_id m) None" and "data_ok s'"
proof -
  note spec = deliver_spec [OF assms]
  have "handover waits runs s s' (m_user_id m) None \<and> data_ok s'"
  proof (cases "waits s (m_user_id m)")
    case None
    with spec have e: "entry s' = entry s" "effects s' = effects s" by auto
    then have "waits s' = waits s" by (simp add: waits_def fun_eq_iff)
    with None e assms(2) show ?thesis
      by (auto simp: handover_def runs_def fun_eq_iff data_ok_def)
  next
    case (Some c)
    with spec have e: "effects s' = effects s @ [RunClosure c]"
      and m: "entry s' = (entry s)(m_user_id m :=
           Some ((the (entry s (m_user_id m)))\<lparr>d_done := None, d_msgs := None, d_cntl := None\<rparr>))"
      by auto
    from waits_upd(1) [OF m] runs_append [OF e] Some data_ok_upd(1) [OF m assms(2)]
    show ?thesis by (auto simp: handover_def whole_def)
  qed
  then show "handover waits runs s s' (m_user_id m) None" and "data_ok s'" by auto
qed

lemma clear_handover:
  assumes "ClearUserData ops u s = Inr (found, s')" "data_ok s"
  shows "handover waits runs s s' u None" and "data_ok s'"
proof -
  note spec = clear_spec [OF assms]
  have "handover waits runs s s' u None \<and> data_ok s'"
  proof (cases "entry s u")
    case None
    with spec assms(2) show ?thesis by (auto simp: handover_def waits_def fun_eq_iff)
  next
    case (Some d)
    with spec have m: "entry s' = (entry s)(u := None)"
      and e: "effects s' = effects s @ (case d_done d of None \<Rightarrow> [] | Some c \<Rightarrow> [CloseConnection c, RunClosure c])"
      by auto
    from waits_upd(2) [OF m] runs_append [OF e] Some data_ok_upd(2) [OF m assms(2)]
    show ?thesis by (auto simp: handover_def waits_def split: option.splits)
  qed
  then show "handover waits runs s s' u None" and "data_ok s'" by auto
qed

lemma handover_frame:
  "handover waits runs s s1 u new \<Longrightarrow> entry s' = entry s1 \<Longrightarrow> effects s' = effects s1 \<Longrightarrow>
   handover waits runs s s' u new"
  by (simp add: handover_def waits_def runs_def fun_eq_iff)

lemma handle_handover:
  assumes "UserHeartBeatTimeoutHeadler ops a s = Inr s'" "data_ok s"
  shows "\<exists>u. hbargs s a = Some u \<and> handover waits runs s s' u None" and "data_ok s'"
proof -
  from assms(1) obtain u found s1 where "hbargs s a = Some u" and c: "ClearUserData ops u s = Inr (found, s1)"
    and s': "s' = s1\<lparr>hbargs := (hbargs s1)(a := None)\<rparr>"
    by (rule handler_spec)
  moreover have "handover waits runs s s' u None"
    by (rule handover_frame [OF clear_handover(1) [OF c assms(2)]]) (simp_all add: s')
  ultimately show "\<exists>u. hbargs s a = Some u \<and> handover waits runs s s' u None" by blast
  show "data_ok s'" using clear_handover(2) [OF c assms(2)] by (simp add: data_ok_def s')
qed

interpretation table: reply_table "access_step ops view timeout_s"
    "\<lambda>x. waits (fst x)" "\<lambda>x. runs (fst x)" "\<lambda>x. data_ok (fst x)" issued_call
  for ops :: "'tm timer_ops" and view timeout_s
proof unfold_locales
  fix x y :: "'tm config" and l
  assume s: "access_step ops view timeout_s x l y" and ok: "data_ok (fst x)"
  from s ok show "data_ok (fst y)"
    by (cases rule: access_step.cases)
      (auto intro: push_handover(2) beat_untouched(2) deliver_handover(2) handle_handover(2)
        simp: data_ok_def [of "timers_update f s" for f s], auto simp: data_ok_def)
  fix c
  show "issued_call l = Some c \<Longrightarrow> \<exists>u. handover (\<lambda>x. waits (fst x)) (\<lambda>x. runs (fst x)) x y u (Some c)"
    using s ok by (cases rule: access_step.cases)
      (auto simp: handover_def dest!: push_handover(1))
  show "issued_call l = None \<Longrightarrow> untouched (\<lambda>x. waits (fst x)) (\<lambda>x. runs (fst x)) x y \<or>
          (\<exists>u. handover (\<lambda>x. waits (fst x)) (\<lambda>x. runs (fst x)) x y u None)"
    using s ok
  proof (cases rule: access_step.cases)
    case (step_beat now u s s' hs)
    then show ?thesis using beat_untouched(1) [OF step_beat(4)] by (simp add: untouched_def)
  next
    case (step_deliver m s s' hs)
    then show ?thesis using deliver_handover(1) [of m s s'] ok by (auto simp: handover_def)
  next
    case (step_fire s i a tm hs)
    then show ?thesis by (auto simp: untouched_def waits_def runs_def fun_eq_iff)
  next
    case (step_handle a hs s s')
    then show ?thesis using handle_handover(1) [of ops a s s'] ok by (auto simp: handover_def)
  qed simp
qed

section \<open>What the answers hold\<close>

text \<open>Who waits with a call has made it, and answers hold messages with \<open>Q\<close> for that user.\<close>

definition served :: "(int \<times> nat) set \<Rightarrow> (Msg \<Rightarrow> bool) \<Rightarrow> 'tm access \<Rightarrow> bool" where
  "served P Q s \<longleftrightarrow> data_ok s \<and> (\<forall>u c. waits s u = Some c \<longrightarrow> (u, c) \<in> P) \<and>
     (\<forall>c m. m \<in> set (responses s c) \<longrightarrow> (m_user_id m, c) \<in> P \<and> Q m)"

lemma served_mono: "served P Q s \<Longrightarrow> (\<And>m. Q m \<Longrightarrow> Q' m) \<Longrightarrow> served P Q' s"
  unfolding served_def by blast

lemma served_same:
  "served P Q s \<Longrightarrow> data_ok s' \<Longrightarrow> responses s' = responses s \<Longrightarrow>
   (\<And>u c. waits s' u = Some c \<Longrightarrow> waits s u = Some c \<or> (u, c) \<in> P) \<Longrightarrow> served P Q s'"
  unfolding served_def by metis

lemma access_step_served:
  assumes step: "access_step ops view timeout_s x l y" and x: "served P Q (fst x)"
    and pull: "\<And>now u c. l = Pull now u c \<Longrightarrow> (u, c) \<in> P" and msg: "\<And>m. l = Deliver m \<Longrightarrow> Q m"
  shows "served P Q (fst y)"
  using step
proof (cases rule: access_step.cases)
  case (step_pull now u c s s' hs)
  from step_pull(4) have r: "responses s' = responses s"
    unfolding PullData_def by (rule push_spec) (auto simp: rearmed_def)
  show ?thesis
    by (rule served_same [OF x]) (use push_handover [OF step_pull(4)] r x pull step_pull(1-3)
      in \<open>auto simp: handover_def served_def split: if_splits\<close>)
next
  case (step_beat now u s s' hs)
  from step_beat(4) have r: "responses s' = responses s"
    unfolding HeartBeat_def by (rule reset_spec) (auto simp: rearmed_def)
  show ?thesis
    by (rule served_same [OF x]) (use beat_untouched [OF step_beat(4)] r x step_beat(1-3)
      in \<open>auto simp: untouched_def served_def\<close>)
next
  case (step_deliver m s s' hs)
  have ok: "data_ok s" using x step_deliver by (simp add: served_def)
  note d = deliver_spec [OF step_deliver(4) ok] deliver_handover [OF step_deliver(4) ok]
  show ?thesis
  proof (cases "waits s (m_user_id m)")
    case None
    show ?thesis
      by (rule served_same [OF x]) (use d None step_deliver(1-3) in \<open>auto simp: handover_def split: if_splits\<close>)
  next
    case (Some c)
    have p: "(m_user_id m, c) \<in> P" using x Some step_deliver(1) unfolding served_def by simp
    have "responses s' = (responses s)(c := responses s c @ [m])" using d(1) Some by simp
    moreover have "waits s' = (waits s)(m_user_id m := None)" using d(2) by (simp add: handover_def)
    ultimately show ?thesis
      using x p msg [OF step_deliver(2)] d(3) step_deliver(1,3)
      by (auto simp: served_def split: if_splits)
  qed
next
  case (step_fire s i a tm hs)
  show ?thesis
    by (rule served_same [OF x]) (use x step_fire(1-3) in \<open>auto simp: served_def data_ok_def waits_def\<close>)
next
  case (step_handle a hs s s')
  have ok: "data_ok s" using x step_handle by (simp add: served_def)
  from handler_spec [OF step_handle(5)] obtain u found s1 where
    c: "ClearUserData ops u s = Inr (found, s1)" and s': "s' = s1\<lparr>hbargs := (hbargs s1)(a := None)\<rparr>" by metis
  have r: "responses s' = responses s"
    using clear_spec [OF c ok] s' by (cases "entry s u") auto
  from handle_handover [OF step_handle(5) ok] obtain u' where
    h: "handover waits runs s s' u' None" "data_ok s'" by blast
  show ?thesis
    by (rule served_same [OF x]) (use h r step_handle(1-3) in \<open>auto simp: handover_def split: if_splits\<close>)
qed

end
