(* ===== verification/Access_Timers.thy ===== *)
theory Access_Timers
  imports Access_Correct
begin

text \<open>
  The timers of the access server: in every reachable configuration the timers that have
  not fired are exactly the current ones of the entries, with a live argument that names
  the user, and an entry whose timer has fired has its handler on the way. So every entry
  is reclaimed by a timer, whatever the interleaving.
\<close>

definition armed :: "('tm \<Rightarrow> nat \<Rightarrow> timer_view) \<Rightarrow> 'tm access \<Rightarrow> int \<Rightarrow> nat \<Rightarrow> bool" where
  "armed view s u i \<longleftrightarrow> (\<exists>a. pend view (timers s) i = Some a \<and> hbargs s a = Some u)"

text \<open>
  \<open>guarded\<close>: arguments and ids are fresh when they are made; a pending timer is the current
  one of the user its argument names, and no handler has that argument; an entry's timer
  has been armed, is its own, and has either not run or left a handler for that user; the
  argument an entry remembers is its user's or already freed.
\<close>

definition guarded_entry :: "('tm \<Rightarrow> nat \<Rightarrow> timer_view) \<Rightarrow> 'tm access \<Rightarrow> nat list \<Rightarrow> int \<Rightarrow> Data \<Rightarrow> bool" where
  "guarded_entry view s hs u d \<longleftrightarrow>
     (\<forall>a. d_hbarg d = Some a \<longrightarrow> hbargs s a \<in> {None, Some u} \<and> a < next_arg s) \<and>
     view (timers s) (d_heartbeat_timeout_id d) \<noteq> Unused \<and>
     (\<forall>w dw. entry s w = Some dw \<longrightarrow> d_heartbeat_timeout_id dw = d_heartbeat_timeout_id d \<longrightarrow> w = u) \<and>
     (armed view s u (d_heartbeat_timeout_id d) \<or> (\<exists>a\<in>set hs. hbargs s a = Some u))"

definition guarded_timer :: "('tm \<Rightarrow> nat \<Rightarrow> timer_view) \<Rightarrow> 'tm access \<Rightarrow> nat list \<Rightarrow> nat \<Rightarrow> nat \<Rightarrow> bool" where
  "guarded_timer view s hs i a \<longleftrightarrow> a \<notin> set hs \<and>
     (\<exists>u d. hbargs s a = Some u \<and> entry s u = Some d \<and> d_heartbeat_timeout_id d = i)"

definition guarded :: "('tm \<Rightarrow> nat \<Rightarrow> timer_view) \<Rightarrow> 'tm config \<Rightarrow> bool" where
  "guarded view x \<longleftrightarrow> (case x of (s, hs) \<Rightarrow>
     view (timers s) 0 = Unused \<and>
     (\<forall>a. hbargs s a \<noteq> None \<or> a \<in> set hs \<longrightarrow> a < next_arg s) \<and>
     (\<forall>i a. pend view (timers s) i = Some a \<longrightarrow> guarded_timer view s hs i a) \<and>
     (\<forall>u d. entry s u = Some d \<longrightarrow> guarded_entry view s hs u d))"

lemma guardedI:
  assumes "view (timers s) 0 = Unused"
    and "\<And>a. hbargs s a \<noteq> None \<or> a \<in> set hs \<Longrightarrow> a < next_arg s"
    and "\<And>i a. pend view (timers s) i = Some a \<Longrightarrow> guarded_timer view s hs i a"
    and "\<And>u d. entry s u = Some d \<Longrightarrow> guarded_entry view s hs u d"
  shows "guarded view (s, hs)"
  using assms by (auto simp: guarded_def)

lemma guardedD:
  assumes "guarded view (s, hs)"
  shows guarded_0: "view (timers s) 0 = Unused"
    and guarded_live: "hbargs s a \<noteq> None \<Longrightarrow> a < next_arg s"
    and guarded_running: "a \<in> set hs \<Longrightarrow> a < next_arg s"
    and guarded_timers: "pend view (timers s) i = Some a \<Longrightarrow> guarded_timer view s hs i a"
    and guarded_entries: "entry s u = Some d \<Longrightarrow> guarded_entry view s hs u d"
  using assms by (auto simp: guarded_def)

lemma cancel_spec:
  assumes "timer_ok ops view" "cancel_timer ops i s = (r, s1)" "view (timers s) 0 = Unused"
  shows "r \<longleftrightarrow> pend view (timers s) i \<noteq> None"
    and "view (timers s1) = (if r then (view (timers s))(i := Gone) else view (timers s))"
proof -
  have "(r \<longleftrightarrow> pend view (timers s) i \<noteq> None) \<and>
    view (timers s1) = (if r then (view (timers s))(i := Gone) else view (timers s))"
  proof (cases "i = 0")
    case True with assms(2,3) show ?thesis by (auto simp: cancel_timer_def pend_def)
  next
    case False
    obtain r0 tm where del: "tm_del ops (timers s) i = (r0, tm)" by fastforce
    with assms(1) have "if pend view (timers s) i = None then r0 \<noteq> 0 \<and> view tm = view (timers s)
        else r0 = 0 \<and> view tm = (view (timers s))(i := Gone)"
      unfolding timer_ok_def by blast
    with False assms(2) del show ?thesis by (auto simp: cancel_timer_def split: if_splits)
  qed
  then show "r \<longleftrightarrow> pend view (timers s) i \<noteq> None"
    and "view (timers s1) = (if r then (view (timers s))(i := Gone) else view (timers s))" by auto
qed

lemma arm_spec:
  assumes "timer_ok ops view" "arm_timer ops at a s = (i, s1)"
  shows "i \<noteq> 0" "view (timers s) i = Unused" "view (timers s1) = (view (timers s))(i := Pending a)"
proof -
  obtain tm where add: "tm_add ops (timers s) at a = (i, tm)" and "s1 = s\<lparr>timers := tm\<rparr>"
    using assms(2) by (auto simp: arm_timer_def split: prod.splits)
  with assms(1) show "i \<noteq> 0" "view (timers s) i = Unused" "view (timers s1) = (view (timers s))(i := Pending a)"
    unfolding timer_ok_def by auto
qed

lemma rearmed_timers:
  assumes ops: "timer_ok ops view" and v: "view (timers s) 0 = Unused" and re: "rearmed ops at u s s' r i"
  shows rearmed_cancels: "r \<longleftrightarrow> pend view (timers s) (old_timer s u) \<noteq> None"
    and rearmed_view: "view (timers s') =
          (if r then (view (timers s))(old_timer s u := Gone, i := Pending (next_arg s))
           else (view (timers s))(i := Pending (next_arg s)))"
    and rearmed_new: "i \<noteq> 0 \<and> view (timers s) i = Unused"
    and rearmed_args: "hbargs s' = freed r (old_arg s u) ((hbargs s)(next_arg s \<mapsto> u))"
    and rearmed_next: "next_arg s' = Suc (next_arg s)"
proof -
  from re obtain at s1 s2 where c: "cancel_timer ops (old_timer s u) s = (r, s1)"
    and m: "arm_timer ops at (next_arg s) s1 = (i, s2)" and t: "timers s' = timers s2"
    and h: "hbargs s' = freed r (old_arg s u) ((hbargs s)(next_arg s \<mapsto> u))"
    and n: "next_arg s' = Suc (next_arg s)"
    by (auto simp: rearmed_def)
  note cs = cancel_spec [OF ops c v] and ms = arm_spec [OF ops m]
  show "r \<longleftrightarrow> pend view (timers s) (old_timer s u) \<noteq> None" by (rule cs(1))
  show "view (timers s') =
          (if r then (view (timers s))(old_timer s u := Gone, i := Pending (next_arg s))
           else (view (timers s))(i := Pending (next_arg s)))"
    by (simp add: t ms(3) cs(2))
  show "i \<noteq> 0 \<and> view (timers s) i = Unused"
    using ms(1,2) cs(2) by (auto split: if_splits)
  show "hbargs s' = freed r (old_arg s u) ((hbargs s)(next_arg s \<mapsto> u))" by (rule h)
  show "next_arg s' = Suc (next_arg s)" by (rule n)
qed

text \<open>
  Arguments after an operation on the user \<open>u\<close>: it frees arguments of \<open>u\<close> and makes new
  ones, from address \<open>n\<close>, for \<open>u\<close>.
\<close>

definition concerns :: "nat \<Rightarrow> int \<Rightarrow> (nat \<Rightarrow> int option) \<Rightarrow> (nat \<Rightarrow> int option) \<Rightarrow> bool" where
  "concerns n u h h' \<longleftrightarrow> (\<forall>a. h' a = h a \<or> h a = Some u \<and> h' a = None \<or> n \<le> a \<and> h a = None \<and> h' a = Some u)"

lemma concerns_other: "concerns n u h h' \<Longrightarrow> w \<noteq> u \<Longrightarrow> h' a = Some w \<longleftrightarrow> h a = Some w"
  unfolding concerns_def by (metis option.distinct(1) option.inject)

lemma concerns_old: "concerns n u h h' \<Longrightarrow> a < n \<Longrightarrow> h' a \<in> {None, h a}"
  unfolding concerns_def by (metis insert_iff not_less)

lemma concerns_live: "concerns n u h h' \<Longrightarrow> h' a \<noteq> None \<Longrightarrow> h a \<noteq> None \<or> n \<le> a"
  unfolding concerns_def by metis

lemma concerns_freed:
  assumes "\<And>a. p = Some a \<Longrightarrow> h a \<in> {None, Some u}"
  shows "concerns n u h (freed r p h)"
  using assms by (auto simp: concerns_def freed_def split: option.splits)

lemma concerns_new:
  assumes "\<And>a. p = Some a \<Longrightarrow> h a \<in> {None, Some u} \<and> a < n" and "h n = None"
  shows "concerns n u h (freed r p (h(n \<mapsto> u)))"
  using assms by (fastforce simp: concerns_def freed_def split: option.splits)

lemma other_entry:
  assumes g: "guarded view (s, hs)" and w: "entry s w = Some dw" "w \<noteq> u"
    and c: "concerns (next_arg s) u (hbargs s) (hbargs s')" and n: "next_arg s \<le> next_arg s'"
    and e: "entry s' = (entry s)(u := du)"
    and v: "view (timers s') (d_heartbeat_timeout_id dw) = view (timers s) (d_heartbeat_timeout_id dw)"
    and i: "\<And>d. du = Some d \<Longrightarrow> d_heartbeat_timeout_id d \<noteq> d_heartbeat_timeout_id dw"
    and hs: "\<And>a. a \<in> set hs \<Longrightarrow> hbargs s a = Some w \<Longrightarrow> a \<in> set hs'"
  shows "guarded_entry view s' hs' w dw"
proof -
  note ge = guarded_entries [OF g w(1), unfolded guarded_entry_def]
  have "hbargs s' a \<in> {None, Some w} \<and> a < next_arg s'" if "d_hbarg dw = Some a" for a
    using ge that concerns_old [OF c, of a] n by force
  moreover have "armed view s' w (d_heartbeat_timeout_id dw)"
    if "armed view s w (d_heartbeat_timeout_id dw)"
    using that v concerns_other [OF c w(2)] by (auto simp: armed_def pend_def split: timer_view.splits)
  moreover have "\<exists>a\<in>set hs'. hbargs s' a = Some w" if "\<exists>a\<in>set hs. hbargs s a = Some w"
    using that hs concerns_other [OF c w(2)] by blast
  moreover have "w' = w" if "entry s' w' = Some d'" "d_heartbeat_timeout_id d' = d_heartbeat_timeout_id dw" for w' d'
    using that ge i e by (auto split: if_splits)
  ultimately show ?thesis
    unfolding guarded_entry_def using ge v by (intro conjI allI impI) (blast, blast, simp, blast, blast)
qed

lemma other_timer:
  assumes g: "guarded view (s, hs)" and p: "pend view (timers s) j = Some a" and j: "j \<noteq> old_timer s u"
    and c: "concerns (next_arg s) u (hbargs s) (hbargs s')"
    and e: "entry s' = (entry s)(u := du)" and hs: "set hs' \<subseteq> set hs"
  shows "guarded_timer view s' hs' j a"
proof -
  from guarded_timers [OF g p] obtain w dw where
    "a \<notin> set hs" and w: "hbargs s a = Some w" "entry s w = Some dw" "d_heartbeat_timeout_id dw = j"
    by (auto simp: guarded_timer_def)
  moreover have "w \<noteq> u" using w j by (auto simp: old_timer_def)
  ultimately show ?thesis
    using concerns_other [OF c, of w a] e hs by (auto simp: guarded_timer_def)
qed

lemma old_arg_own:
  assumes g: "guarded view (s, hs)" and a: "old_arg s u = Some a"
  shows "hbargs s a \<in> {None, Some u} \<and> a < next_arg s"
proof -
  from a obtain d where d: "entry s u = Some d" "d_hbarg d = Some a"
    by (auto simp: old_arg_def split: option.splits)
  from guarded_entries [OF g d(1)] d(2) show ?thesis unfolding guarded_entry_def by blast
qed

lemma id_used:
  assumes g: "guarded view (s, hs)" and w: "entry s w = Some dw"
  shows "view (timers s) (d_heartbeat_timeout_id dw) \<noteq> Unused"
    and "entry s u \<noteq> None \<Longrightarrow> old_timer s u = d_heartbeat_timeout_id dw \<Longrightarrow> w = u"
proof -
  note ge = guarded_entries [OF g w, unfolded guarded_entry_def]
  show "view (timers s) (d_heartbeat_timeout_id dw) \<noteq> Unused" using ge by blast
  assume "entry s u \<noteq> None" "old_timer s u = d_heartbeat_timeout_id dw"
  then obtain d where "entry s u = Some d" "d_heartbeat_timeout_id d = d_heartbeat_timeout_id dw"
    by (auto simp: old_timer_def)
  with ge have "u = w" by blast
  then show "w = u" by simp
qed

text \<open>
  One lemma serves the operations that arm a timer: they differ only in the argument that
  the entry remembers.
\<close>

lemma rearmed_guarded:
  assumes ops: "timer_ok ops view" and g: "guarded view (s, hs)"
    and re: "rearmed ops at u s s' r i" and e: "entry s' = (entry s)(u \<mapsto> d)"
    and i: "d_heartbeat_timeout_id d = i"
    and p: "d_hbarg d = Some (next_arg s) \<or> d_hbarg d = None \<or> d_hbarg d = old_arg s u"
  shows "guarded view (s', hs)"
proof -
  let ?n = "next_arg s"
  note re_facts = ops guarded_0 [OF g] re
  note canc = rearmed_cancels [OF re_facts] and vw = rearmed_view [OF re_facts]
    and new = rearmed_new [OF re_facts] and args = rearmed_args [OF re_facts]
    and nxt = rearmed_next [OF re_facts]
  have fresh: "hbargs s ?n = None" using guarded_live [OF g, of ?n] by blast
  have c: "concerns ?n u (hbargs s) (hbargs s')"
    unfolding args by (rule concerns_new [OF old_arg_own [OF g] fresh])
  have n: "hbargs s' ?n = Some u"
    using old_arg_own [OF g, of u ?n] by (auto simp: args freed_def split: option.splits)
  have old0: "\<not> r \<or> old_timer s u \<noteq> 0"
    using canc guarded_0 [OF g] by (auto simp: pend_def)
  show ?thesis
  proof (rule guardedI)
    show "view (timers s') 0 = Unused"
      using vw new guarded_0 [OF g] old0 by auto
  next
    fix a assume "hbargs s' a \<noteq> None \<or> a \<in> set hs"
    moreover have "hbargs s' a \<noteq> None \<Longrightarrow> a \<noteq> ?n \<Longrightarrow> hbargs s a \<noteq> None"
      by (auto simp: args freed_def split: option.splits if_splits)
    ultimately show "a < next_arg s'"
      using guarded_live [OF g, of a] guarded_running [OF g, of a] nxt by fastforce
  next
    fix j a assume a: "pend view (timers s') j = Some a"
    show "guarded_timer view s' hs j a"
    proof (cases "j = i")
      case True
      with a vw have "a = ?n" by (auto simp: pend_def split: if_splits)
      with True n e i guarded_running [OF g, of ?n] show ?thesis by (auto simp: guarded_timer_def)
    next
      case False
      with a vw canc have "pend view (timers s) j = Some a" "j \<noteq> old_timer s u"
        by (auto simp: pend_def split: if_splits)
      with c e show ?thesis by (intro other_timer [OF g _ _ c e]) auto
    qed
  next
    fix w dw assume a: "entry s' w = Some dw"
    show "guarded_entry view s' hs w dw"
    proof (cases "w = u")
      case False
      with a e have w: "entry s w = Some dw" by simp
      have ne: "d_heartbeat_timeout_id dw \<noteq> i"
        using id_used(1) [OF g w] new by auto
      have "r \<Longrightarrow> d_heartbeat_timeout_id dw \<noteq> old_timer s u"
      proof
        assume r "d_heartbeat_timeout_id dw = old_timer s u"
        with canc guarded_0 [OF g] have "entry s u \<noteq> None"
          by (auto simp: old_timer_def pend_def split: option.splits)
        with id_used(2) [OF g w, of u] False \<open>d_heartbeat_timeout_id dw = old_timer s u\<close>
        show False by simp
      qed
      with ne vw have "view (timers s') (d_heartbeat_timeout_id dw) = view (timers s) (d_heartbeat_timeout_id dw)"
        by auto
      then show ?thesis
        using ne i by (intro other_entry [OF g w False c _ e]) (auto simp: nxt)
    next
      case True
      with a e have dw: "dw = d" by simp
      have vi: "view (timers s') i = Pending ?n" using vw by simp
      have "\<forall>w dw'. entry s' w = Some dw' \<longrightarrow> d_heartbeat_timeout_id dw' = i \<longrightarrow> w = u"
        using e new id_used(1) [OF g] by (auto split: if_splits)
      moreover have "hbargs s' b \<in> {None, Some u} \<and> b < next_arg s'" if "d_hbarg d = Some b" for b
        using that p n nxt old_arg_own [OF g, of u b] concerns_old [OF c, of b] by auto
      ultimately show ?thesis
        using vi n i True dw by (auto simp: guarded_entry_def armed_def pend_def)
    qed
  qed
qed

text \<open>The operation that drops an entry, and the handler that does so with its argument.\<close>

lemma clear_guarded:
  assumes ops: "timer_ok ops view" and g: "guarded view (s, hs)" and ok: "data_ok s"
    and run: "ClearUserData ops u s = Inr (found, s1)"
    and s': "entry s' = entry s1" "timers s' = timers s1" "next_arg s' = next_arg s1"
    and h: "concerns (next_arg s) u (hbargs s1) (hbargs s')"
    and hs: "set hs' \<subseteq> set hs" "\<And>a w. a \<in> set hs \<Longrightarrow> w \<noteq> u \<Longrightarrow> hbargs s a = Some w \<Longrightarrow> a \<in> set hs'"
    and live: "\<And>a. hbargs s' a \<noteq> None \<Longrightarrow> a < next_arg s"
  shows "guarded view (s', hs')"
proof -
  have "entry s1 = (entry s)(u := None) \<and> next_arg s1 = next_arg s \<and>
    concerns (next_arg s) u (hbargs s) (hbargs s1) \<and>
    view (timers s1) = (if pend view (timers s) (old_timer s u) = None then view (timers s)
       else (view (timers s))(old_timer s u := Gone))"
  proof (cases "entry s u")
    case None
    with clear_spec [OF run ok] have "s1 = s" by simp
    with None guarded_0 [OF g] show ?thesis
      by (auto simp: concerns_def old_timer_def pend_def fun_upd_idem)
  next
    case (Some d)
    with clear_spec [OF run ok] obtain r s2 where
      m: "entry s1 = (entry s)(u := None)" "next_arg s1 = next_arg s" and
      del: "cancel_timer ops (d_heartbeat_timeout_id d) s = (r, s2)" and
      t: "timers s1 = timers s2" "hbargs s1 = freed r (d_hbarg d) (hbargs s)"
      by auto
    have "concerns (next_arg s) u (hbargs s) (hbargs s1)"
      unfolding t(2) using old_arg_own [OF g, of u] Some by (intro concerns_freed) (auto simp: old_arg_def)
    with m t cancel_spec [OF ops del guarded_0 [OF g]] Some show ?thesis by (auto simp: old_timer_def)
  qed
  then have e: "entry s' = (entry s)(u := None)" and n: "next_arg s' = next_arg s"
    and c1: "concerns (next_arg s) u (hbargs s) (hbargs s1)"
    and v: "view (timers s') = (if pend view (timers s) (old_timer s u) = None then view (timers s)
       else (view (timers s))(old_timer s u := Gone))"
    using s' by auto
  have c: "concerns (next_arg s) u (hbargs s) (hbargs s')"
    unfolding concerns_def
  proof
    fix a
    show "hbargs s' a = hbargs s a \<or> hbargs s a = Some u \<and> hbargs s' a = None \<or>
        next_arg s \<le> a \<and> hbargs s a = None \<and> hbargs s' a = Some u"
      using c1 h live [of a] unfolding concerns_def
      by (metis not_less option.distinct(1))
  qed
  show ?thesis
  proof (rule guardedI)
    show "view (timers s') 0 = Unused"
      using guarded_0 [OF g] v by (auto simp: pend_def)
  next
    fix a assume "hbargs s' a \<noteq> None \<or> a \<in> set hs'"
    then show "a < next_arg s'"
      using live guarded_running [OF g] hs(1) n by auto
  next
    fix j a assume "pend view (timers s') j = Some a"
    then have "pend view (timers s) j = Some a" "j \<noteq> old_timer s u"
      using v by (auto simp: pend_def split: if_splits)
    then show "guarded_timer view s' hs' j a" by (intro other_timer [OF g _ _ c e hs(1)])
  next
    fix w dw assume "entry s' w = Some dw"
    then have w: "entry s w = Some dw" "w \<noteq> u" using e by (auto split: if_splits)
    have "pend view (timers s) (old_timer s u) \<noteq> None \<Longrightarrow> d_heartbeat_timeout_id dw \<noteq> old_timer s u"
    proof
      assume "pend view (timers s) (old_timer s u) \<noteq> None" "d_heartbeat_timeout_id dw = old_timer s u"
      with guarded_0 [OF g] have "entry s u \<noteq> None"
        by (auto simp: old_timer_def pend_def split: option.splits)
      with id_used(2) [OF g w(1), of u] w(2) \<open>d_heartbeat_timeout_id dw = old_timer s u\<close>
      show False by simp
    qed
    then show "guarded_entry view s' hs' w dw"
      using hs(2) v w(2) by (intro other_entry [OF g w c _ e]) (auto simp: n)
  qed
qed

lemma fire_guarded:
  assumes g: "guarded view (s, hs)" and p: "view (timers s) i = Pending a"
    and tm: "view tm = (view (timers s))(i := Gone)"
  shows "guarded view (s\<lparr>timers := tm\<rparr>, a # hs)"
proof -
  have pa: "pend view (timers s) i = Some a" using p by (simp add: pend_def)
  note t = guarded_timers [OF g this, unfolded guarded_timer_def]
  then obtain u d where a: "hbargs s a = Some u" "entry s u = Some d" "d_heartbeat_timeout_id d = i" by auto
  show ?thesis
  proof (rule guardedI)
    show "view (timers (s\<lparr>timers := tm\<rparr>)) 0 = Unused"
      using tm p guarded_0 [OF g] by (cases "i = 0") auto
  next
    fix b assume "hbargs (s\<lparr>timers := tm\<rparr>) b \<noteq> None \<or> b \<in> set (a # hs)"
    then show "b < next_arg (s\<lparr>timers := tm\<rparr>)"
      using a guarded_live [OF g, of b] guarded_running [OF g, of b] by auto
  next
    fix j b assume "pend view (timers (s\<lparr>timers := tm\<rparr>)) j = Some b"
    then have j: "pend view (timers s) j = Some b" "j \<noteq> i"
      using tm by (auto simp: pend_def split: if_splits)
    from guarded_timers [OF g j(1)] j(2) a show "guarded_timer view (s\<lparr>timers := tm\<rparr>) (a # hs) j b"
      by (auto simp: guarded_timer_def)
  next
    fix w dw assume "entry (s\<lparr>timers := tm\<rparr>) w = Some dw"
    then have w: "entry s w = Some dw" by simp
    note ge = guarded_entries [OF g w, unfolded guarded_entry_def]
    have "armed view (s\<lparr>timers := tm\<rparr>) w (d_heartbeat_timeout_id dw) \<or> (\<exists>b\<in>set (a # hs). hbargs s b = Some w)"
    proof (cases "w = u")
      case False
      with ge a have "d_heartbeat_timeout_id dw \<noteq> i" by blast
      with ge tm show ?thesis by (auto simp: armed_def pend_def)
    qed (use a in auto)
    with ge tm show "guarded_entry view (s\<lparr>timers := tm\<rparr>) (a # hs) w dw"
      by (auto simp: guarded_entry_def)
  qed
qed
lemma handle_guarded:
  assumes ops: "timer_ok ops view" and g: "guarded view (s, hs)" and ok: "data_ok s"
    and run: "UserHeartBeatTimeoutHeadler ops a s = Inr s'"
  shows "guarded view (s', remove1 a hs)"
proof -
  from run obtain u found s1 where u: "hbargs s a = Some u" and c: "ClearUserData ops u s = Inr (found, s1)"
    and s': "s' = s1\<lparr>hbargs := (hbargs s1)(a := None)\<rparr>"
    by (rule handler_spec)
  have sub: "hbargs s1 b \<in> {None, hbargs s b}" for b
    using clear_spec [OF c ok] by (auto simp: freed_def split: option.splits if_splits)
  have conc: "concerns (next_arg s) u (hbargs s1) (hbargs s')"
    using sub [of a] u by (auto simp: concerns_def s')
  show ?thesis
  proof (rule clear_guarded [OF ops g ok c _ _ _ conc])
    show "set (remove1 a hs) \<subseteq> set hs" by (rule set_remove1_subset)
    show "\<And>b w. b \<in> set hs \<Longrightarrow> w \<noteq> u \<Longrightarrow> hbargs s b = Some w \<Longrightarrow> b \<in> set (remove1 a hs)"
      using u by (metis in_set_remove1 option.inject)
    fix b assume "hbargs s' b \<noteq> None"
    then have "hbargs s b \<noteq> None" using sub [of b] by (auto simp: s' split: if_splits)
    then show "b < next_arg s" by (rule guarded_live [OF g])
  qed (simp_all add: s')
qed

text \<open>Changes that keep the timers and the arguments, and of the entries only the pointers.\<close>

definition same_timers :: "Data \<Rightarrow> Data \<Rightarrow> bool" where
  "same_timers d d' \<longleftrightarrow> d_heartbeat_timeout_id d' = d_heartbeat_timeout_id d \<and> d_hbarg d' = d_hbarg d"

lemma same_timers_guarded:
  assumes g: "guarded view (s, hs)"
    and f: "timers s' = timers s" "hbargs s' = hbargs s" "next_arg s' = next_arg s"
    and e: "\<And>u. rel_option same_timers (entry s u) (entry s' u)"
  shows "guarded view (s', hs)"
proof -
  have fwd: "\<exists>d'. entry s' u = Some d' \<and> d_heartbeat_timeout_id d' = d_heartbeat_timeout_id d"
    if "entry s u = Some d" for u d
    using e [of u] that by (cases "entry s' u") (auto simp: same_timers_def)
  have bwd: "\<exists>d. entry s u = Some d \<and> d_heartbeat_timeout_id d' = d_heartbeat_timeout_id d \<and> d_hbarg d' = d_hbarg d"
    if "entry s' u = Some d'" for u d'
    using e [of u] that by (cases "entry s u") (auto simp: same_timers_def)
  show ?thesis
  proof (rule guardedI)
    show "view (timers s') 0 = Unused" using guarded_0 [OF g] f by simp
  next
    fix a show "hbargs s' a \<noteq> None \<or> a \<in> set hs \<Longrightarrow> a < next_arg s'"
      using guarded_live [OF g] guarded_running [OF g] f by auto
  next
    fix i a assume "pend view (timers s') i = Some a"
    then have "guarded_timer view s hs i a" using guarded_timers [OF g] f by simp
    then show "guarded_timer view s' hs i a"
      using fwd f unfolding guarded_timer_def by metis
  next
    fix u d' assume "entry s' u = Some d'"
    from bwd [OF this] obtain d where d: "entry s u = Some d"
      "d_heartbeat_timeout_id d' = d_heartbeat_timeout_id d" "d_hbarg d' = d_hbarg d" by blast
    from guarded_entries [OF g d(1)] have ge: "guarded_entry view s hs u d" .
    have "w = u" if "entry s' w = Some dw'" "d_heartbeat_timeout_id dw' = d_heartbeat_timeout_id d" for w dw'
      using bwd [OF that(1)] that(2) ge by (auto simp: guarded_entry_def)
    then show "guarded_entry view s' hs u d'"
      using ge unfolding guarded_entry_def armed_def d(2,3) f by blast
  qed
qed

lemma step_guarded:
  assumes ops: "timer_ok ops view" and step: "access_step ops view timeout_s x l y"
    and x: "guarded view x \<and> data_ok (fst x)"
  shows "guarded view y \<and> data_ok (fst y)"
proof
  show "data_ok (fst y)" using table.step_inv [OF step] x by simp
  from step x show "guarded view y"
  proof (cases rule: access_step.cases)
    case (step_pull now u c s s' hs)
    then have g: "guarded view (s, hs)" using x by simp
    from step_pull(4) obtain at r i where re: "rearmed ops at u s s' r i"
      and e: "entry s' = (entry s)(u \<mapsto> \<lparr>d_done = Some c, d_msgs = Some c, d_cntl = Some c,
           d_heartbeat_timeout_id = i, d_hbarg = (if r then None else old_arg s u)\<rparr>)"
      unfolding PullData_def by (rule push_spec)
    show ?thesis unfolding step_pull by (rule rearmed_guarded [OF ops g re e]) simp_all
  next
    case (step_beat now u s s' hs)
    then have g: "guarded view (s, hs)" using x by simp
    from step_beat(4) obtain at r i where re: "rearmed ops at u s s' r i"
      and e: "entry s' = (entry s)(u := Some (case entry s u of
           None \<Rightarrow> \<lparr>d_done = None, d_msgs = None, d_cntl = None, d_heartbeat_timeout_id = i, d_hbarg = Some (next_arg s)\<rparr>
         | Some d \<Rightarrow> d\<lparr>d_heartbeat_timeout_id := i, d_hbarg := Some (next_arg s)\<rparr>))"
      unfolding HeartBeat_def by (rule reset_spec)
    show ?thesis unfolding step_beat
      by (rule rearmed_guarded [OF ops g re e]) (simp_all split: option.split)
  next
    case (step_deliver m s s' hs)
    then have g: "guarded view (s, hs)" and ok: "data_ok s" using x by auto
    note spec = deliver_spec [OF step_deliver(4) ok]
    show ?thesis unfolding step_deliver
    proof (rule same_timers_guarded [OF g])
      fix u
      show "rel_option same_timers (entry s u) (entry s' u)"
        using spec by (cases "entry s u") (auto simp: waits_def same_timers_def split: option.splits)
    qed (use spec in auto)
  next
    case (step_fire s i a tm hs)
    with x show ?thesis by (auto intro: fire_guarded)
  next
    case (step_handle a hs s s')
    with x show ?thesis by (auto intro: handle_guarded [OF ops])
  qed
qed

lemma access0_ok:
  assumes "\<forall>i. view tm i = Unused"
  shows "guarded view (access0 tm, []) \<and> data_ok (fst (access0 tm, []))"
  using assms
  by (auto simp: guarded_def access0_def entry_def data_ok_def guarded_timer_def pend_def)

lemma reached_guarded:
  assumes "timer_ok ops view" "\<forall>i. view tm i = Unused" "path (access_step ops view timeout_s) (access0 tm, []) ls (s, hs)"
  shows "guarded view (s, hs)" and "data_ok s"
  using path_keeps [OF assms(3), of "\<lambda>x. guarded view x \<and> data_ok (fst x)"]
    access0_ok [of view tm, OF assms(2)] step_guarded [OF assms(1)]
  by auto

end
