(* ===== verification/Access_Claims.thy ===== *)
theory Access_Claims
  imports Access_Timers
begin

text \<open>
  What the access server does with the calls of its clients, with the timers that reclaim
  them and with the memory of the timers' arguments, over any interleaving of the handlers
  and the timers. The witnesses run it on a timer library that counts its ids.
\<close>

text \<open>The runs that the witnesses use, as the values the operations return.\<close>

abbreviation idle :: "mem_timers access" where
  "idle \<equiv> access0 no_timers"

definition right :: "'e + 'a \<Rightarrow> 'a" where
  "right r = projr r"

lemma right_Inr: "\<not> isl r \<Longrightarrow> r = Inr (right r)"
  by (cases r) (simp_all add: right_def)

definition pulled :: "mem_timers access" where
  "pulled = right (PullData mem_timers_ops 400 0 5 100 idle)"

definition beaten :: "mem_timers access" where
  "beaten = right (HeartBeat mem_timers_ops 400 0 5 idle)"

definition fired :: "mem_timers access \<Rightarrow> nat \<Rightarrow> mem_timers access" where
  "fired s i = s\<lparr>timers := (fst (timers s), (snd (timers s))(i := Gone))\<rparr>"

abbreviation mem_step :: "mem_timers config \<Rightarrow> label \<Rightarrow> mem_timers config \<Rightarrow> bool" where
  "mem_step \<equiv> access_step mem_timers_ops mem_view 400"

lemma pulled_eq: "PullData mem_timers_ops 400 0 5 100 idle = Inr pulled"
  unfolding pulled_def by (rule right_Inr) code_simp

lemma beaten_eq: "HeartBeat mem_timers_ops 400 0 5 idle = Inr beaten"
  unfolding beaten_def by (rule right_Inr) code_simp

lemma mem_fire:
  "mem_view (timers s) i = Pending a \<Longrightarrow> mem_step (s, hs) (Fire i) (fired s i, a # hs)"
  unfolding fired_def
  by (rule step_fire) (auto simp: mem_view_def fun_eq_iff split: if_splits)

section \<open>The calls\<close>

text \<open>
  C11: Over any interleaving of pulls, heartbeats, deliveries, timers firing and handlers
  running, each \<^verbatim>\<open>PullData\<close> call that the server took is in exactly one of two states: it waits
  in the slot of exactly one user and its closure has not been run, or no slot has it and
  its closure has been run exactly once. No answer is lost and none is sent twice.
\<close>

theorem every_pull_waits_or_is_answered_once:
  assumes "path (access_step ops view timeout_s) (access0 tm, []) ls (s, hs)"
    and "distinct (calls_of issued_call ls)" and "c \<in> set (calls_of issued_call ls)"
  shows "runs s c = 0 \<and> (\<exists>!u. waits s u = Some c) \<or> runs s c = 1 \<and> (\<forall>u. waits s u \<noteq> Some c)"
proof -
  have "accounted (\<lambda>x. waits (fst x)) (\<lambda>x. runs (fst x)) (access0 tm, []) {}"
    and "data_ok (fst (access0 tm, []))"
    by (simp_all add: accounted_def access0_def waits_def entry_def runs_def data_ok_def)
  from table.run_or_waiting [OF assms(1) this(2,1) assms(2,3)] show ?thesis by simp
qed

definition delivered :: "mem_timers access" where
  "delivered = right (SendtoAccess \<lparr>m_user_id = 5, m_msg_id = 1, m_sender = 6, m_receiver = 5,
     m_message = ''hi'', m_group_id = 0, m_client_time = 9, m_msg_time = 9\<rparr> pulled)"

abbreviation hi :: Msg where
  "hi \<equiv> \<lparr>m_user_id = 5, m_msg_id = 1, m_sender = 6, m_receiver = 5,
     m_message = ''hi'', m_group_id = 0, m_client_time = 9, m_msg_time = 9\<rparr>"

lemma delivered_eq: "SendtoAccess hi pulled = Inr delivered"
  unfolding delivered_def by (rule right_Inr) code_simp

theorem every_pull_waits_or_is_answered_once_witness:
  "runs delivered 100 = 1 \<and> (\<forall>u. waits delivered u \<noteq> Some 100)"
proof -
  have p: "path mem_step (idle, []) [Pull 0 5 100, Deliver hi] (delivered, [])"
    by (rule path_Cons, rule step_pull, rule pulled_eq, rule path1, rule step_deliver, rule delivered_eq)
  have "runs delivered 100 \<noteq> 0" by code_simp
  with every_pull_waits_or_is_answered_once [OF p, of 100] show ?thesis by simp
qed

text \<open>
  In every configuration that the server can reach, over any interleaving of handlers and timers, no
  handler of a request and no timer dereferences a null pointer, although the code tests only one
  of the three pointers of an entry before it uses the other two.
\<close>

lemma pointers_are_never_null:
  assumes "path (access_step ops view timeout_s) (access0 tm, []) ls (s, hs)"
  shows "SendtoAccess m s \<noteq> Inl NullDeref \<and> UserHeartBeatTimeoutHeadler ops a s \<noteq> Inl NullDeref \<and>
    PullData ops timeout_s now u c s \<noteq> Inl NullDeref \<and> HeartBeat ops timeout_s now u s \<noteq> Inl NullDeref"
proof -
  have ok: "data_ok s"
    using table.path_inv [OF assms] by (simp add: data_ok_def access0_def entry_def)
  have "SendtoAccess m s \<noteq> Inl NullDeref"
  proof
    assume bad: "SendtoAccess m s = Inl NullDeref"
    obtain b where b: "bucket_of (m_user_id m) = Inr b"
      using bad by (cases "bucket_of (m_user_id m)")
        (auto simp: SendtoAccess_def PopClosureAndReply_def bucket_of_def Let_def split: if_splits)
    note run = bad [unfolded SendtoAccess_def PopClosureAndReply_def b fbind_simps bucket_of_Inr [OF b] id_map_entry]
    from run ok show False
      by (auto simp: whole_def dest: data_okD split: option.splits)
  qed
  moreover have "UserHeartBeatTimeoutHeadler ops a s \<noteq> Inl NullDeref"
    using clear_no_null [OF ok, of ops] delete_hbarg_faults
    by (auto simp: UserHeartBeatTimeoutHeadler_def fbind_def split: option.splits sum.splits)
  moreover have "PullData ops timeout_s now u c s \<noteq> Inl NullDeref"
    using delete_hbarg_faults
    by (auto simp: PullData_def PushClosureAndReply_def fbind_def bucket_of_def Let_def timeout_at_def
          i32_def i64_def split: option.splits sum.splits prod.splits if_splits)
  moreover have "HeartBeat ops timeout_s now u s \<noteq> Inl NullDeref"
    using delete_hbarg_faults
    by (auto simp: HeartBeat_def ResetHeartBeatTimer_def fbind_def bucket_of_def Let_def timeout_at_def
          i32_def i64_def split: option.splits sum.splits prod.splits if_splits)
  ultimately show ?thesis by blast
qed

lemma pointers_are_never_null_witness:
  "SendtoAccess hi pulled \<noteq> Inl NullDeref"
proof -
  have "path mem_step (idle, []) [Pull 0 5 100] (pulled, [])"
    by (rule path1, rule step_pull, rule pulled_eq)
  from pointers_are_never_null [OF this, of hi 0 0 0 0] show ?thesis by blast
qed
text \<open>
  A message that reaches the access server while a call of its user waits is appended
  to the answer of that call, which is sent; the slot is empty afterwards, and the next
  message for the user before the next pull is dropped: it is put in no answer and no call
  is run for it.
\<close>

lemma one_message_per_pull:
  assumes "data_ok s" and "PullData ops timeout_s now u c s = Inr s1"
    and "SendtoAccess m s1 = Inr s2" and "m_user_id m = u"
    and "SendtoAccess m' s2 = Inr s3" and "m_user_id m' = u"
  shows "responses s2 = (responses s)(c := responses s c @ [m]) \<and> runs s2 c = Suc (runs s1 c) \<and>
    responses s3 = responses s2 \<and> effects s3 = effects s2 \<and> waits s3 u = None"
proof -
  note h = push_handover [OF assms(2)]
  have ok: "data_ok s1" by (rule h(2) [OF assms(1)])
  have w: "waits s1 u = Some c" using h(1) by (simp add: handover_def)
  have r: "responses s1 = responses s"
    using assms(2) unfolding PullData_def by (rule push_spec) (auto simp: rearmed_def)
  note d = deliver_spec [OF assms(3) ok] deliver_handover [OF assms(3) ok]
  have w2: "waits s2 u = None" using d(2) assms(4) by (simp add: handover_def)
  from d w assms(4) have "responses s2 = (responses s1)(c := responses s1 c @ [m])"
    and "runs s2 c = Suc (runs s1 c)" by (auto simp: handover_def)
  moreover have "responses s3 = responses s2 \<and> effects s3 = effects s2 \<and> waits s3 u = None"
    using deliver_spec [OF assms(5) d(3)] deliver_handover(1) [OF assms(5) d(3)] w2 assms(6)
    by (simp add: handover_def)
  ultimately show ?thesis using r by simp
qed

lemma idle_ok: "data_ok idle"
  by (simp add: data_ok_def access0_def entry_def)

definition delivered_twice :: "mem_timers access" where
  "delivered_twice = right (SendtoAccess (hi\<lparr>m_msg_id := 2\<rparr>) delivered)"

lemma delivered_twice_eq: "SendtoAccess (hi\<lparr>m_msg_id := 2\<rparr>) delivered = Inr delivered_twice"
  unfolding delivered_twice_def by (rule right_Inr) code_simp

lemma one_message_per_pull_witness:
  "responses delivered 100 = [hi] \<and> responses delivered_twice = responses delivered \<and>
   waits delivered_twice 5 = None"
  using one_message_per_pull [OF idle_ok pulled_eq delivered_eq _ delivered_twice_eq]
  by (simp add: access0_def)

text \<open>
  A second pull of a user takes the slot over: the call that waited is answered at once
  with what it holds (no message is added to it), the new call waits, and the slots of all
  other users are as they were.
\<close>

lemma newer_pull_releases_older:
  assumes "waits s u = Some c" and "PullData ops timeout_s now u c' s = Inr s'"
  shows "effects s' = effects s @ [RunClosure c] \<and> responses s' = responses s \<and>
    waits s' = (waits s)(u \<mapsto> c')"
proof -
  have "responses s' = responses s \<and>
      effects s' = effects s @ (case waits s u of None \<Rightarrow> [] | Some c \<Rightarrow> [RunClosure c])"
    using assms(2) unfolding PullData_def by (rule push_spec) (auto simp: rearmed_def)
  with assms(1) push_handover(1) [OF assms(2)] show ?thesis by (simp add: handover_def)
qed

definition pulled_twice :: "mem_timers access" where
  "pulled_twice = right (PullData mem_timers_ops 400 7 5 101 pulled)"

lemma pulled_twice_eq: "PullData mem_timers_ops 400 7 5 101 pulled = Inr pulled_twice"
  unfolding pulled_twice_def by (rule right_Inr) code_simp

lemma newer_pull_releases_older_witness:
  "effects pulled_twice = [RunClosure 100] \<and> waits pulled_twice 5 = Some 101"
proof -
  have "waits pulled 5 = Some 100" by code_simp
  moreover have "effects pulled = []" by code_simp
  ultimately show ?thesis using newer_pull_releases_older [OF _ pulled_twice_eq] by simp
qed

section \<open>The timers\<close>

text \<open>
  C27: Every entry of the table is guarded: in every reachable configuration, the entry of
  a user either has its timer pending with a live argument that names that user, or the
  handler of its timer has started and holds such an argument. So no client is kept
  for ever, however pulls, heartbeats, deliveries and firing timers interleave.
\<close>

theorem every_entry_has_a_timer:
  assumes "timer_ok ops view" and "\<forall>i. view tm i = Unused"
    and "path (access_step ops view timeout_s) (access0 tm, []) ls (s, hs)"
    and "entry s u = Some d"
  shows "armed view s u (d_heartbeat_timeout_id d) \<or> (\<exists>a\<in>set hs. hbargs s a = Some u)"
  using guarded_entries [OF reached_guarded(1) [OF assms(1-3)] assms(4)]
  by (simp add: guarded_entry_def)

lemma pulled_path: "path mem_step (idle, []) [Pull 0 5 100] (pulled, [])"
  by (rule path1, rule step_pull, rule pulled_eq)

lemma beaten_path: "path mem_step (idle, []) [Beat 0 5] (beaten, [])"
  by (rule path1, rule step_beat, rule beaten_eq)

lemma pulled_entry: "\<exists>d. entry pulled 5 = Some d"
proof -
  have "waits pulled 5 = Some 100" by code_simp
  then show ?thesis by (auto simp: waits_def split: option.splits)
qed

theorem every_entry_has_a_timer_witness:
  "\<exists>d. entry pulled 5 = Some d \<and> armed mem_view pulled 5 (d_heartbeat_timeout_id d)"
  using pulled_entry every_entry_has_a_timer [OF mem_timers_ok no_timers_unused pulled_path] by fastforce

text \<open>
  When the timer of a user runs, the handler removes that user's entry and no other:
  a waiting call is told that the connection closes and is then answered, once, and nobody
  else's slot changes.
\<close>

lemma timeout_drops_only_its_user:
  assumes "data_ok s" and "hbargs s a = Some u" and "UserHeartBeatTimeoutHeadler ops a s = Inr s'"
  shows "entry s' = (entry s)(u := None) \<and> responses s' = responses s \<and> hbargs s' a = None \<and>
    effects s' = effects s @ (case waits s u of None \<Rightarrow> [] | Some c \<Rightarrow> [CloseConnection c, RunClosure c])"
proof -
  obtain found s1 where c: "ClearUserData ops u s = Inr (found, s1)"
    and s': "s' = s1\<lparr>hbargs := (hbargs s1)(a := None)\<rparr>"
    using handler_spec [OF assms(3)] assms(2) by (metis option.inject)
  from clear_spec [OF c assms(1)] show ?thesis
    by (cases "entry s u") (auto simp: s' waits_def fun_upd_idem)
qed

definition expired :: "mem_timers access" where
  "expired = right (UserHeartBeatTimeoutHeadler mem_timers_ops 0 (fired pulled 1))"

lemma expired_eq: "UserHeartBeatTimeoutHeadler mem_timers_ops 0 (fired pulled 1) = Inr expired"
  unfolding expired_def by (rule right_Inr) code_simp

lemma timeout_drops_only_its_user_witness:
  "effects expired = [CloseConnection 100, RunClosure 100]"
proof -
  have "data_ok pulled" by (rule push_handover(2) [OF pulled_eq idle_ok])
  then have "data_ok (fired pulled 1)" by (simp add: data_ok_def fired_def)
  moreover have "hbargs (fired pulled 1) 0 = Some 5" by code_simp
  moreover have "waits (fired pulled 1) 5 = Some 100" "effects (fired pulled 1) = []" by code_simp+
  ultimately show ?thesis using timeout_drops_only_its_user [OF _ _ expired_eq] by fastforce
qed
section \<open>The arguments of the timers\<close>

text \<open>
  Nobody owns an argument that is live when no handler has it and no entry remembers it, and no timer has
  it but those of \<open>I\<close>. Without such a timer, nothing can free it.
\<close>

definition unowned :: "('tm \<Rightarrow> nat \<Rightarrow> timer_view) \<Rightarrow> nat set \<Rightarrow> nat \<Rightarrow> int \<Rightarrow> 'tm config \<Rightarrow> bool" where
  "unowned view I a w x \<longleftrightarrow> (case x of (s, hs) \<Rightarrow>
     hbargs s a = Some w \<and> a < next_arg s \<and> a \<notin> set hs \<and>
     (\<forall>i. view (timers s) i = Pending a \<longrightarrow> i \<in> I) \<and> (\<forall>u d. entry s u = Some d \<longrightarrow> d_hbarg d \<noteq> Some a))"

lemma unownedD:
  assumes "unowned view I a w (s, hs)"
  shows "hbargs s a = Some w" "a < next_arg s" "a \<notin> set hs" "view (timers s) i = Pending a \<Longrightarrow> i \<in> I"
    and "entry s u = Some d \<Longrightarrow> d_hbarg d \<noteq> Some a" "old_arg s u \<noteq> Some a"
  using assms by (auto simp: unowned_def old_arg_def split: option.splits)

lemma rearmed_unowned:
  assumes ops: "timer_ok ops view" and v: "view (timers s) 0 = Unused" and l: "unowned view I a w (s, hs)"
    and re: "rearmed ops at u s s' r i" and e: "entry s' = (entry s)(u \<mapsto> d)"
    and p: "d_hbarg d = Some (next_arg s) \<or> d_hbarg d = None \<or> d_hbarg d = old_arg s u"
  shows "unowned view I a w (s', hs)"
proof -
  note f = rearmed_view [OF ops v re] rearmed_args [OF ops v re] rearmed_next [OF ops v re]
  have "d_hbarg d \<noteq> Some a" using p unownedD(2,6) [OF l] by auto
  moreover have "hbargs s' a = hbargs s a"
    using unownedD(2,6) [OF l] f(2) by (auto simp: freed_def split: option.splits)
  ultimately show ?thesis
    using unownedD [OF l] f e by (auto simp: unowned_def less_Suc_eq split: if_splits)
qed

lemma step_unowned:
  assumes ops: "timer_ok ops view" and step: "access_step ops view timeout_s x l y"
    and x: "(guarded view x \<and> data_ok (fst x)) \<and> unowned view I a w x" and fire: "\<And>i. l = Fire i \<Longrightarrow> i \<notin> I"
  shows "(guarded view y \<and> data_ok (fst y)) \<and> unowned view I a w y"
proof
  show "guarded view y \<and> data_ok (fst y)" using step_guarded [OF ops step] x by blast
  from step x show "unowned view I a w y"
  proof (cases rule: access_step.cases)
    case (step_pull now u c s s' hs)
    then have l: "unowned view I a w (s, hs)" and g: "guarded view (s, hs)" using x by simp_all
    from step_pull(4) obtain at r i where re: "rearmed ops at u s s' r i"
      and e: "entry s' = (entry s)(u \<mapsto> \<lparr>d_done = Some c, d_msgs = Some c, d_cntl = Some c,
           d_heartbeat_timeout_id = i, d_hbarg = (if r then None else old_arg s u)\<rparr>)"
      unfolding PullData_def by (rule push_spec)
    show ?thesis unfolding step_pull by (rule rearmed_unowned [OF ops guarded_0 [OF g] l re e]) simp
  next
    case (step_beat now u s s' hs)
    then have l: "unowned view I a w (s, hs)" and g: "guarded view (s, hs)" using x by simp_all
    from step_beat(4) obtain at r i where re: "rearmed ops at u s s' r i"
      and e: "entry s' = (entry s)(u := Some (case entry s u of
           None \<Rightarrow> \<lparr>d_done = None, d_msgs = None, d_cntl = None, d_heartbeat_timeout_id = i, d_hbarg = Some (next_arg s)\<rparr>
         | Some d \<Rightarrow> d\<lparr>d_heartbeat_timeout_id := i, d_hbarg := Some (next_arg s)\<rparr>))"
      unfolding HeartBeat_def by (rule reset_spec)
    show ?thesis unfolding step_beat
      by (rule rearmed_unowned [OF ops guarded_0 [OF g] l re e]) (simp split: option.split)
  next
    case (step_deliver m s s' hs)
    then have l: "unowned view I a w (s, hs)" and ok: "data_ok s" using x by simp_all
    from deliver_spec [OF step_deliver(4) ok] unownedD [OF l] show ?thesis unfolding step_deliver
      by (auto simp: unowned_def waits_def split: option.splits if_splits)
  next
    case (step_fire s i b tm hs)
    then have l: "unowned view I a w (s, hs)" using x by simp
    have "b \<noteq> a" using step_fire(2,4) unownedD(4) [OF l, of i] fire by auto
    moreover have tm: "view tm = (view (timers s))(i := Gone)" by (rule step_fire(5))
    ultimately show ?thesis using l unfolding step_fire unowned_def by (simp add: tm)
  next
    case (step_handle b hs s s')
    then have l: "unowned view I a w (s, hs)" and g: "guarded view (s, hs)" and ok: "data_ok s" using x by simp_all
    have b: "b \<noteq> a" using step_handle(4) unownedD(3) [OF l] by auto
    from step_handle(5) obtain u found s1 where c: "ClearUserData ops u s = Inr (found, s1)"
      and s': "s' = s1\<lparr>hbargs := (hbargs s1)(b := None)\<rparr>"
      by (rule handler_spec)
    have "unowned view I a w (s1, hs)"
    proof (cases "entry s u")
      case None with clear_spec [OF c ok] l show ?thesis by simp
    next
      case (Some d)
      with clear_spec [OF c ok] obtain r s2 where
        m: "entry s1 = (entry s)(u := None)" "next_arg s1 = next_arg s" and
        del: "cancel_timer ops (d_heartbeat_timeout_id d) s = (r, s2)" and
        t: "timers s1 = timers s2" "hbargs s1 = freed r (d_hbarg d) (hbargs s)"
        by auto
      from unownedD(5) [OF l Some] have "hbargs s1 a = hbargs s a"
        by (auto simp: t(2) freed_def split: option.splits)
      with m t(1) cancel_spec(2) [OF ops del guarded_0 [OF g]] unownedD [OF l] show ?thesis
        by (auto simp: unowned_def split: if_splits)
    qed
    with b show ?thesis unfolding step_handle s'
      by (auto simp: unowned_def dest: notin_set_remove1)
  qed
qed

text \<open>Nobody but the timer that it arms has the argument of a pull.\<close>

lemma pull_unowned:
  assumes "timer_ok ops view" and g: "guarded view (s, hs)"
    and pull: "PullData ops timeout_s now u c s = Inr s1" and d: "entry s1 u = Some d"
  shows "unowned view {d_heartbeat_timeout_id d} (next_arg s) u (s1, hs)"
proof -
  let ?a = "next_arg s"
  from pull obtain at r i where re: "rearmed ops at u s s1 r i"
    and e: "entry s1 = (entry s)(u \<mapsto> \<lparr>d_done = Some c, d_msgs = Some c, d_cntl = Some c,
           d_heartbeat_timeout_id = i, d_hbarg = (if r then None else old_arg s u)\<rparr>)"
    unfolding PullData_def by (rule push_spec)
  note f = rearmed_view [OF assms(1) guarded_0 [OF g] re] rearmed_args [OF assms(1) guarded_0 [OF g] re]
    rearmed_next [OF assms(1) guarded_0 [OF g] re]
  have old: "d_hbarg dw \<noteq> Some ?a" if "entry s w = Some dw" for w dw
    using guarded_entries [OF g that] unfolding guarded_entry_def by blast
  then have "old_arg s u \<noteq> Some ?a" by (auto simp: old_arg_def split: option.splits)
  then have "hbargs s1 ?a = Some u" "\<forall>w dw. entry s1 w = Some dw \<longrightarrow> d_hbarg dw \<noteq> Some ?a"
    using f(2) e old by (auto simp: freed_def split: option.splits)
  moreover have "view (timers s1) k = Pending ?a \<longrightarrow> k \<in> {d_heartbeat_timeout_id d}" for k
  proof -
    have "view (timers s) k \<noteq> Pending ?a"
      using guarded_timers [OF g, of k ?a] guarded_live [OF g, of ?a] by (auto simp: guarded_timer_def pend_def)
    then show ?thesis using f(1) e d by auto
  qed
  moreover have "?a \<notin> set hs" using guarded_running [OF g, of ?a] by auto
  ultimately show ?thesis using f(3) by (simp add: unowned_def)
qed

text \<open>A heartbeat of the user cancels that timer, and does not know the argument.\<close>

lemma beat_unowned:
  assumes "timer_ok ops view" and g: "guarded view (s, hs)" and a: "unowned view {i} a u (s, hs)"
    and beat: "HeartBeat ops timeout_s now u s = Inr s'"
  shows "unowned view {} a u (s', hs)"
proof -
  note v = guarded_0 [OF g]
  from beat obtain at r j where re: "rearmed ops at u s s' r j"
    and e: "entry s' = (entry s)(u := Some (case entry s u of
           None \<Rightarrow> \<lparr>d_done = None, d_msgs = None, d_cntl = None, d_heartbeat_timeout_id = j, d_hbarg = Some (next_arg s)\<rparr>
         | Some d \<Rightarrow> d\<lparr>d_heartbeat_timeout_id := j, d_hbarg := Some (next_arg s)\<rparr>))"
    unfolding HeartBeat_def by (rule reset_spec)
  have k: "unowned view {i} a u (s', hs)"
    by (rule rearmed_unowned [OF assms(1) v a re e]) (simp split: option.split)
  have "view (timers s') k \<noteq> Pending a" for k
  proof
    assume p: "view (timers s') k = Pending a"
    have "view (timers s) k = Pending a" "k \<noteq> old_timer s u \<or> \<not> r"
      using p rearmed_view [OF assms(1) v re] unownedD(2) [OF a] by (auto split: if_splits)
    moreover from this(1) have "pend view (timers s) k = Some a" by (simp add: pend_def)
    from guarded_timers [OF g this] unownedD(1) [OF a] have "old_timer s u = k"
      by (auto simp: guarded_timer_def old_timer_def)
    ultimately show False using rearmed_cancels [OF assms(1) v re] by (simp add: pend_def)
  qed
  with k show ?thesis by (simp add: unowned_def)
qed

lemma path_unowned:
  assumes ops: "timer_ok ops view"
  shows "path (access_step ops view timeout_s) x ls y \<Longrightarrow> (guarded view x \<and> data_ok (fst x)) \<and> unowned view I a w x \<Longrightarrow>
    \<forall>i \<in> I. Fire i \<notin> set ls \<Longrightarrow> (guarded view y \<and> data_ok (fst y)) \<and> unowned view I a w y"
proof (induction rule: path.induct)
  case (path_Cons x l x1 ls y)
  have "(guarded view x1 \<and> data_ok (fst x1)) \<and> unowned view I a w x1"
    by (rule step_unowned [OF ops path_Cons.hyps(1) path_Cons.prems(1)]) (use path_Cons.prems(2) in auto)
  from path_Cons.IH [OF this] path_Cons.prems(2) show ?case by simp
qed simp

text \<open>
  C37: \<^verbatim>\<open>PushClosureAndReply\<close> does not remember the argument of the timer it arms. So when a
  user pulls, and sends a heartbeat or a message before the timer of that pull has fired, whatever comes
  in between, the argument of the pull stays live through every later run of the server: one argument
  leaks for every such pull.
\<close>

theorem pull_leaks_its_argument:
  assumes "timer_ok ops view" and "\<forall>i. view tm i = Unused"
    and "path (access_step ops view timeout_s) (access0 tm, []) ls (s, hs)"
    and "PullData ops timeout_s now u c s = Inr s1" and "entry s1 u = Some d"
    and "path (access_step ops view timeout_s) (s1, hs) ls1 (s2, hs2)" and "Fire (d_heartbeat_timeout_id d) \<notin> set ls1"
    and "HeartBeat ops timeout_s now' u s2 = Inr s3"
    and "path (access_step ops view timeout_s) (s3, hs2) ls2 (s4, hs4)"
  shows "hbargs s4 (next_arg s) = Some u"
proof -
  let ?a = "next_arg s" and ?I = "{d_heartbeat_timeout_id d}"
  note g = reached_guarded [OF assms(1-3)]
  from step_guarded [OF assms(1) step_pull [OF assms(4)]] g pull_unowned [OF assms(1) g(1) assms(4,5)]
  have "(guarded view (s1, hs) \<and> data_ok (fst (s1, hs))) \<and> unowned view ?I ?a u (s1, hs)" by auto
  from path_unowned [OF assms(1,6) this] assms(7)
  have s2: "guarded view (s2, hs2)" "data_ok s2" "unowned view ?I ?a u (s2, hs2)" by auto
  from step_guarded [OF assms(1) step_beat [OF assms(8)]] s2 beat_unowned [OF assms(1) s2(1,3) assms(8)]
  have "(guarded view (s3, hs2) \<and> data_ok (fst (s3, hs2))) \<and> unowned view {} ?a u (s3, hs2)" by auto
  from path_unowned [OF assms(1,9) this] have "unowned view {} ?a u (s4, hs4)" by blast
  then show ?thesis by (rule unownedD(1))
qed

definition rebeaten :: "mem_timers access" where
  "rebeaten = right (HeartBeat mem_timers_ops 400 9 5 pulled)"

lemma rebeaten_eq: "HeartBeat mem_timers_ops 400 9 5 pulled = Inr rebeaten"
  unfolding rebeaten_def by (rule right_Inr) code_simp

theorem pull_leaks_its_argument_witness: "hbargs rebeaten 0 = Some 5"
proof -
  obtain d where "entry pulled 5 = Some d" using pulled_entry by blast
  from pull_leaks_its_argument [OF mem_timers_ok no_timers_unused path_Nil pulled_eq this path_Nil _ rebeaten_eq path_Nil]
  show ?thesis by (simp add: access0_def)
qed

text \<open>
  C28: When the timer of a user was armed by a heartbeat or by a message that the user sent, the
  entry remembers its argument. A pull that comes after such a timer has fired, and before its
  handler has the bucket's mutex, keeps the argument in the entry next to the new timer. The
  handler then cancels the new timer, frees that argument for it, and frees it once more as its
  own: a double free. (Of a timer that a pull armed the entry does not remember the argument.)
\<close>

theorem pull_during_timeout_double_frees:
  assumes "timer_ok ops view" and "guarded view (s, hs)" and "data_ok s" and "entry s u = Some d"
    and "d_hbarg d = Some a" and "view (timers s) (d_heartbeat_timeout_id d) = Pending a"
    and "view tm = (view (timers s))(d_heartbeat_timeout_id d := Gone)"
    and "PullData ops timeout_s now u c (s\<lparr>timers := tm\<rparr>) = Inr s1"
  shows "UserHeartBeatTimeoutHeadler ops a s1 = Inl DoubleFree"
proof -
  let ?s = "s\<lparr>timers := tm\<rparr>"
  note step1 = step_fire [where ops = ops and timeout_s = timeout_s and hs = hs, OF assms(6,7)]
  from step_guarded [OF assms(1) step1] assms(2,3) have g: "guarded view (?s, a # hs)" by simp
  note v = guarded_0 [OF g]
  have h: "hbargs s a = Some u"
  proof -
    have "pend view (timers s) (d_heartbeat_timeout_id d) = Some a" using assms(6) by (simp add: pend_def)
    from guarded_timers [OF assms(2) this] obtain w dw where w: "hbargs s a = Some w" "entry s w = Some dw"
      "d_heartbeat_timeout_id dw = d_heartbeat_timeout_id d" by (auto simp: guarded_timer_def)
    from guarded_entries [OF assms(2,4)] w(2,3) have "w = u" unfolding guarded_entry_def by blast
    with w(1) show ?thesis by simp
  qed
  from assms(8) obtain at r i where re: "rearmed ops at u ?s s1 r i"
    and e: "entry s1 = (entry ?s)(u \<mapsto> \<lparr>d_done = Some c, d_msgs = Some c, d_cntl = Some c,
           d_heartbeat_timeout_id = i, d_hbarg = (if r then None else old_arg ?s u)\<rparr>)"
    unfolding PullData_def by (rule push_spec)
  note f = rearmed_cancels [OF assms(1) v re] rearmed_view [OF assms(1) v re] rearmed_args [OF assms(1) v re]
    rearmed_new [OF assms(1) v re] rearmed_next [OF assms(1) v re]
  have old: "old_timer ?s u = d_heartbeat_timeout_id d" "old_arg ?s u = Some a"
    using assms(4,5) by (auto simp: old_timer_def old_arg_def)
  then have nr: "\<not> r" using f(1) assms(7) by (simp add: pend_def)
  have a: "a < next_arg s" using guarded_live [OF assms(2), of a] h by simp
  have h1: "hbargs s1 a = Some u" using f(3) nr h a by (auto simp: freed_def)
  have pi: "pend view (timers s1) i = Some (next_arg s)" using f(2) nr by (simp add: pend_def)
  obtain b where b: "bucket_of u = Inr b"
    using assms(8) by (auto simp: PullData_def PushClosureAndReply_def fbind_Inr)
  have w1: "entry s1 u = Some \<lparr>d_done = Some c, d_msgs = Some c, d_cntl = Some c,
           d_heartbeat_timeout_id = i, d_hbarg = Some a\<rparr>"
    using e nr old by simp
  obtain q s2 where del: "cancel_timer ops i s1 = (q, s2)" by fastforce
  have v1: "view (timers s1) 0 = Unused" using f(2,4) nr v by auto
  have q: "q" using cancel_spec(1) [OF assms(1) del v1] pi by simp
  from cancel_frame [OF del] obtain tm' where s2: "s2 = s1\<lparr>timers := tm'\<rparr>" by blast
  have "\<exists>s3. ClearUserData ops u s1 = Inr (True, s3) \<and> hbargs s3 a = None"
    using w1 del q h1
    by (simp add: ClearUserData_def b bucket_of_Inr [OF b] id_map_entry close_and_run_def delete_hbarg_def s2)
  then show ?thesis using h1 by (auto simp: UserHeartBeatTimeoutHeadler_def delete_hbarg_def)
qed

definition late_pull :: "mem_timers access" where
  "late_pull = right (PullData mem_timers_ops 400 400000000 5 100 (fired beaten 1))"

lemma late_pull_eq: "PullData mem_timers_ops 400 400000000 5 100 (fired beaten 1) = Inr late_pull"
  unfolding late_pull_def by (rule right_Inr) code_simp

theorem pull_during_timeout_double_frees_witness:
  "UserHeartBeatTimeoutHeadler mem_timers_ops 0 late_pull = Inl DoubleFree"
proof -
  note g = reached_guarded [OF mem_timers_ok no_timers_unused beaten_path]
  have "map_option (\<lambda>d. (d_hbarg d, d_heartbeat_timeout_id d)) (entry beaten 5) = Some (Some 0, 1)"
    by code_simp
  then obtain d where d: "entry beaten 5 = Some d" "d_hbarg d = Some 0" "d_heartbeat_timeout_id d = 1"
    by auto
  have p: "mem_view (timers beaten) (d_heartbeat_timeout_id d) = Pending 0"
    unfolding d(3) by code_simp
  then have "mem_view (fst (timers beaten), (snd (timers beaten))(1 := Gone)) =
      (mem_view (timers beaten))(d_heartbeat_timeout_id d := Gone)"
    by (auto simp: mem_view_def fun_eq_iff d(3) split: if_splits)
  from pull_during_timeout_double_frees [OF mem_timers_ok g d(1,2) p this late_pull_eq [unfolded fired_def]]
  show ?thesis .
qed

section \<open>Bounds\<close>

text \<open>
  A negative user id that is not a multiple of 16 makes every table operation index its
  bucket array out of bounds, so any client that pulls or signs on with such an id takes
  the server into undefined behaviour.
\<close>

lemma negative_user_is_out_of_bounds:
  assumes "u < 0" and "\<not> 16 dvd u" and "m_user_id m = u"
  shows "PullData ops timeout_s now u c s = Inl OutOfBounds \<and> SendtoAccess m s = Inl OutOfBounds \<and>
    ClearUserData ops u s = Inl OutOfBounds \<and> (\<exists>f. HeartBeat ops timeout_s now u s = Inl f)"
  using bucket_of_negative [OF assms(1,2)] assms(3)
  by (cases "timeout_at timeout_s now")
    (simp_all add: PullData_def PushClosureAndReply_def SendtoAccess_def PopClosureAndReply_def
      ClearUserData_def HeartBeat_def ResetHeartBeatTimer_def)

lemma negative_user_is_out_of_bounds_witness:
  "PullData mem_timers_ops 400 0 (- 3) 100 idle = Inl OutOfBounds"
  using negative_user_is_out_of_bounds [of "- 3" "hi\<lparr>m_user_id := - 3\<rparr>" mem_timers_ops 400 0 100 idle] by simp

text \<open>
  The heartbeat timeout is computed in 32 bits: with \<^verbatim>\<open>--recv_heartbeat_timeout_s\<close> of 2148
  or more (36 minutes) no operation that arms a timer is defined, and with the default of
  400 the time at which the timer runs is 400 seconds from now.
\<close>

lemma timeout_flag_overflows:
  "(2148 \<le> timeout_s \<longrightarrow> (\<exists>f. PullData ops timeout_s now u c s = Inl f) \<and>
     (\<exists>f. HeartBeat ops timeout_s now u s = Inl f)) \<and>
   (0 \<le> now \<and> now < 2 ^ 62 \<longrightarrow> timeout_at 400 now = Inr (now + 400000000))"
proof (intro conjI impI)
  assume "2148 \<le> timeout_s"
  then have *: "timeout_at timeout_s now = Inl Overflow"
    by (simp add: timeout_at_def i32_def in_i32_def)
  show "\<exists>f. HeartBeat ops timeout_s now u s = Inl f"
    by (simp add: HeartBeat_def ResetHeartBeatTimer_def *)
  show "\<exists>f. PullData ops timeout_s now u c s = Inl f"
    by (cases "bucket_of u") (auto simp: PullData_def PushClosureAndReply_def * split: prod.splits)
qed (simp add: timeout_at_def i32_def i64_def in_i32_def in_i64_def)

lemma timeout_flag_overflows_witness:
  "(\<exists>f. PullData mem_timers_ops 3600 0 5 100 idle = Inl f) \<and> timeout_at 400 7 = Inr 400000007"
  using timeout_flag_overflows [of 3600 mem_timers_ops 0 5 100 idle]
    timeout_flag_overflows [of 400 mem_timers_ops 7 5 100 idle]
  by simp

end
