(* ===== verification/System.thy ===== *)
theory System
  imports Logic_Send DbProxy_Claims Access_Claims
begin

text \<open>
  The servers put together as they are deployed: the logic server's channels lead to the id
  generator and to the database proxy, over a network that decides the fate of each call.
\<close>

record ('d, 'r, 'q) world =
  wd_idgen :: "'d idgen"
  wd_db :: "('r, 'q) dbproxy"
  wd_net :: "fate list"

text \<open>
  One remote call takes the next fate of the network; when there are none left, calls are
  delivered.
\<close>

definition on_network ::
  "(('d, 'r, 'q) world \<Rightarrow> ('d, 'r, 'q) world \<times> 'a result) \<Rightarrow> ('d, 'r, 'q) world \<Rightarrow>
   ('d, 'r, 'q) world \<times> 'a result" where
  "on_network h w = (case wd_net w of [] \<Rightarrow> h w | f # fs \<Rightarrow> rpc f h (w\<lparr>wd_net := fs\<rparr>))"

definition to_db ::
  "(('r, 'q) dbproxy \<Rightarrow> ('r, 'q) dbproxy \<times> 'a result) \<Rightarrow> ('d, 'r, 'q) world \<Rightarrow>
   ('d, 'r, 'q) world \<times> 'a result" where
  "to_db h = on_network (\<lambda>w. case h (wd_db w) of (db, r) \<Rightarrow> (w\<lparr>wd_db := db\<rparr>, r))"

definition to_idgen ::
  "('d idgen \<Rightarrow> 'd idgen \<times> 'a result) \<Rightarrow> ('d, 'r, 'q) world \<Rightarrow> ('d, 'r, 'q) world \<times> 'a result" where
  "to_idgen h = on_network (\<lambda>w. case h (wd_idgen w) of (g, r) \<Rightarrow> (w\<lparr>wd_idgen := g\<rparr>, r))"

definition deployed ::
  "('r, 'q) backends \<Rightarrow> 'd leveldb \<Rightarrow> int \<Rightarrow> ('d, 'r, 'q) world stubs" where
  "deployed be ops N = \<lparr>
     st_GetUserLastSendData = (\<lambda>u. to_db (GetUserLastSendData be u)),
     st_IdGenerate = (\<lambda>q. to_idgen (\<lambda>s. IdGenService ops N s q)),
     st_GetGroupMembers = (\<lambda>g. to_db (GetGroupMembers be g)),
     st_SavePrivateMsg = (\<lambda>m. to_db (SavePrivateMsg be m)),
     st_SaveGroupMsg = (\<lambda>m. to_db (SaveGroupMsg be m)),
     st_GetSessions = (\<lambda>us. to_db (GetSessions be us)),
     st_GetMsgs = (\<lambda>r. to_db (GetMsgs be r)),
     st_GetFriends = (\<lambda>u. to_db (GetFriends be u)),
     st_GetGroups = (\<lambda>u. to_db (GetGroups be u))\<rparr>"

definition wd_members :: "('q \<Rightarrow> tables) \<Rightarrow> ('d, 'r, 'q) world \<Rightarrow> group_id_t \<Rightarrow> user_id_t set" where
  "wd_members view w g = {g_user_id m | m. m \<in> set (t_members (tables_of view (wd_db w))) \<and> g_group_id m = g}"

abbreviation wd_messages :: "('q \<Rightarrow> tables) \<Rightarrow> ('d, 'r, 'q) world \<Rightarrow> msg_row list" where
  "wd_messages view w \<equiv> messages view (wd_db w)"

section \<open>What a remote call can do\<close>

text \<open>
  A call either runs its handler, and then the caller has the answer or an error, or does
  not run it, and then the caller has an error.
\<close>

lemma to_db_cases:
  assumes "to_db h w = (w', r)"
  obtains (run) db res where "h (wd_db w) = (db, res)" "wd_db w' = db" "wd_idgen w' = wd_idgen w" "r = res \<or> isl r"
  | (lost) "wd_db w' = wd_db w" "wd_idgen w' = wd_idgen w" "isl r"
proof (cases "wd_net w")
  case Nil
  with assms show ?thesis by (intro run) (auto simp: to_db_def on_network_def split: prod.splits)
next
  case (Cons f fs)
  show ?thesis
  proof (cases f)
    case (RequestLost c t)
    with assms Cons show ?thesis by (intro lost) (auto simp: to_db_def on_network_def)
  qed (use assms Cons in \<open>auto simp: to_db_def on_network_def split: prod.splits intro: run\<close>)
qed

lemma to_db_Inr:
  assumes "to_db h w = (w', Inr x)"
  shows "h (wd_db w) = (wd_db w', Inr x) \<and> wd_idgen w' = wd_idgen w"
  using assms by (cases rule: to_db_cases) auto

lemma to_idgen_db:
  assumes "to_idgen h w = (w', r)"
  shows "wd_db w' = wd_db w"
proof (cases "wd_net w")
  case Nil
  with assms show ?thesis by (auto simp: to_idgen_def on_network_def split: prod.splits)
next
  case (Cons f fs)
  with assms show ?thesis
    by (cases f) (auto simp: to_idgen_def on_network_def split: prod.splits)
qed

lemma to_idgen_Inr:
  assumes "to_idgen h w = (w', Inr x)"
  shows "h (wd_idgen w) = (wd_idgen w', Inr x)"
  using assms by (auto simp: to_idgen_def on_network_def rpc_Inr split: list.splits prod.splits)

section \<open>The proxy's contract\<close>

lemma get_last_tables:
  assumes ok: "mysql_ok (be_mysql be) view" and "GetUserLastSendData be u w = (w', r)"
  shows "tables_of view w' = tables_of view w"
proof -
  obtain w1 c where c: "redis_CallMethod be (cmd_get (be_redis be) (last_send_key u)) w = (w1, c)" by fastforce
  note t1 = redis_CallMethod_tables [OF c, of view]
  obtain q res where s: "sql_messages (be_mysql be) (dp_sql w1 db_message_connect_pool) (last_sent_where u) = (q, res)"
    by fastforce
  have "\<forall>q P q' r. sql_messages (be_mysql be) q P = (q', r) \<longrightarrow> view q' = view q"
    using ok unfolding mysql_ok_def select_ok_def by blast
  then have "view q = tables_of view w1" using s unfolding tables_of_def by blast
  then have "w' = w1 \<or> w' = set_sql db_message_connect_pool q w1 \<Longrightarrow> tables_of view w' = tables_of view w1" by auto
  moreover have "w' = w1 \<or> w' = set_sql db_message_connect_pool q w1"
    using assms(2) c s
    by (auto simp: GetUserLastSendData_def Let_def split: sum.splits redis_reply.splits)
  ultimately show ?thesis using t1 by simp
qed

lemma select_members:
  assumes ok: "mysql_ok ops view" and eq: "sql_members ops q P = (q', r)"
  shows "view q' = view q" "r = Inr rs \<Longrightarrow> set rs = set (filter P (t_members (view q)))"
proof -
  have "\<forall>q P q' r. sql_members ops q P = (q', r) \<longrightarrow> view q' = view q \<and>
    (\<forall>rs. r = Inr rs \<longrightarrow> mset rs = mset (filter P (t_members (view q))))"
    using ok unfolding mysql_ok_def select_ok_def by (elim conjE)
  note A = this [rule_format, OF eq]
  show "view q' = view q" by (rule conjunct1 [OF A])
  show "r = Inr rs \<Longrightarrow> set rs = set (filter P (t_members (view q)))"
    using conjunct2 [OF A] mset_eq_setD by blast
qed

lemma members_tables:
  assumes ok: "mysql_ok (be_mysql be) view" and eq: "GetGroupMembers be g w = (w', r)"
  shows "tables_of view w' = tables_of view w"
    and "r = Inr us \<Longrightarrow> ui_user_id ` set us =
      {g_user_id m | m. m \<in> set (t_members (tables_of view w)) \<and> g_group_id m = g}"
proof -
  obtain q res where s: "sql_members (be_mysql be) (dp_sql w db_message_connect_pool) (\<lambda>r. g_group_id r = g) = (q, res)"
    by fastforce
  from eq s have w': "w' = set_sql db_message_connect_pool q w"
    by (auto simp: GetGroupMembers_def Let_def split: sum.splits)
  show "tables_of view w' = tables_of view w"
    using select_members(1) [OF ok s] w' by (simp add: tables_of_def [of view w])
  assume "r = Inr us"
  with eq s obtain rs where rs: "res = Inr rs"
    and us: "us = map (\<lambda>r. \<lparr>ui_user_id = g_user_id r, ui_name = g_user_name r\<rparr>) rs"
    by (auto simp: GetGroupMembers_def Let_def split: sum.splits)
  have "set rs = {m \<in> set (t_members (tables_of view w)). g_group_id m = g}"
    using select_members(2) [OF ok s rs] by (simp add: tables_of_def)
  then show "ui_user_id ` set us =
      {g_user_id m | m. m \<in> set (t_members (tables_of view w)) \<and> g_group_id m = g}"
    by (auto simp: us image_iff)
qed

lemma save_private_stub:
  assumes ok: "mysql_ok (be_mysql be) view" and eq: "to_db (SavePrivateMsg be m) w = (w', s)"
  shows "wd_messages view w' = wd_messages view w \<and> s \<noteq> Inr () \<or>
    wd_messages view w' = wd_messages view w @ [sender_row m, receiver_row m] \<and>
    keys_free (wd_messages view w) [sender_row m, receiver_row m]"
  using eq
proof (cases rule: to_db_cases)
  case (run db res)
  from ok have i: "insert_ok (be_mysql be) view" by (simp add: mysql_ok_def)
  from save_private_spec [OF i run(1)] run(2,4) show ?thesis by auto
qed auto

lemma save_group_stub:
  assumes ok: "mysql_ok (be_mysql be) view" and eq: "to_db (SaveGroupMsg be m) w = (w', s)"
  shows "\<exists>k. wd_messages view w' = wd_messages view w @ map (group_row m) (take k (ngm_user_and_msgids m)) \<and>
    (s = Inr () \<longrightarrow> length (ngm_user_and_msgids m) \<le> k) \<and>
    (unique_rows (wd_messages view w) \<longrightarrow> unique_rows (wd_messages view w'))"
  using eq
proof (cases rule: to_db_cases)
  case (run db res)
  from ok have i: "insert_ok (be_mysql be) view" by (simp add: mysql_ok_def)
  from save_group_spec [OF i run(1)] run(2,4) show ?thesis by auto
next
  case lost
  then show ?thesis by (intro exI [of _ 0]) auto
qed

interpretation deployed: logic_backend "deployed be ops N" "wd_messages view" "wd_members view"
  "\<lambda>w. mysql_ok (be_mysql be) view" for be :: "('r, 'q) backends" and ops :: "'d leveldb" and N view
proof unfold_locales
  fix w w' :: "('d, 'r, 'q) world"
  assume ok: "mysql_ok (be_mysql be) view"
  show "mysql_ok (be_mysql be) view \<and> wd_messages view w' = wd_messages view w \<and> wd_members view w' = wd_members view w"
    if "st_GetUserLastSendData (deployed be ops N) u w = (w', r)" for u r
  proof -
    from that have "to_db (GetUserLastSendData be u) w = (w', r)" by (simp add: deployed_def)
    then have "tables_of view (wd_db w') = tables_of view (wd_db w)"
      by (cases rule: to_db_cases) (use get_last_tables [OF ok] in fastforce)+
    with ok show ?thesis by (simp add: wd_members_def fun_eq_iff)
  qed
  show "ui_user_id ` set us = wd_members view w g"
    if "st_GetGroupMembers (deployed be ops N) g w = (w', Inr us)" for g us
  proof -
    from that have "GetGroupMembers be g (wd_db w) = (wd_db w', Inr us)"
      by (auto simp: deployed_def dest: to_db_Inr)
    from members_tables(2) [OF ok this] show ?thesis by (simp add: wd_members_def)
  qed
  show "mysql_ok (be_mysql be) view \<and> wd_messages view w' = wd_messages view w"
    if "st_GetGroupMembers (deployed be ops N) g w = (w', r')" for g r'
  proof -
    from that have "to_db (GetGroupMembers be g) w = (w', r')" by (simp add: deployed_def)
    then show ?thesis by (cases rule: to_db_cases) (use ok members_tables(1) in fastforce)+
  qed
  show "mysql_ok (be_mysql be) view \<and> wd_messages view w' = wd_messages view w"
    if "st_IdGenerate (deployed be ops N) q w = (w', r'')" for q r''
    using that ok to_idgen_db by (fastforce simp: deployed_def)
  show "map mi_user_id ids = map un_user_id q"
    if "st_IdGenerate (deployed be ops N) q w = (w', Inr ids)" for q ids
  proof -
    from that have "IdGenService ops N (wd_idgen w) q = (wd_idgen w', Inr ids)"
      by (auto simp: deployed_def dest: to_idgen_Inr)
    from arg_cong [OF service_reply_users [OF this], of "map fst"] show ?thesis by (simp add: comp_def)
  qed
  show "mysql_ok (be_mysql be) view \<and> (wd_messages view w' = wd_messages view w \<and> s \<noteq> Inr () \<or>
      wd_messages view w' = wd_messages view w @ [sender_row m, receiver_row m] \<and>
      keys_free (wd_messages view w) [sender_row m, receiver_row m])"
    if "st_SavePrivateMsg (deployed be ops N) m w = (w', s)" for m s
    using that save_private_stub [OF ok] ok by (simp add: deployed_def)
  show "mysql_ok (be_mysql be) view \<and> (\<exists>k. wd_messages view w' = wd_messages view w @
        map (group_row gm) (take k (ngm_user_and_msgids gm)) \<and>
        (s = Inr () \<longrightarrow> length (ngm_user_and_msgids gm) \<le> k) \<and>
        (unique_rows (wd_messages view w) \<longrightarrow> unique_rows (wd_messages view w')))"
    if "st_SaveGroupMsg (deployed be ops N) gm w = (w', s)" for gm s
    using that save_group_stub [OF ok] ok by (simp add: deployed_def)
qed

section \<open>The groups\<close>

text \<open>Nothing that the logic server calls changes who is a member of a group.\<close>

lemma to_db_members:
  assumes "\<And>db db' r. h db = (db', r) \<Longrightarrow> group_table view db' = group_table view db"
  shows "wd_members view (fst (to_db h w)) = wd_members view w"
proof -
  obtain w' r where e: "to_db h w = (w', r)" by fastforce
  then have "group_table view (wd_db w') = group_table view (wd_db w)"
    by (cases rule: to_db_cases) (auto dest: assms)
  with e show ?thesis by (simp add: wd_members_def fun_eq_iff)
qed

lemma calls_keep_members:
  fixes be :: "('r, 'q) backends" and ops :: "'d leveldb"
  assumes ok: "mysql_ok (be_mysql be) view"
  shows "calls_keep (deployed be ops N) (\<lambda>w. wd_members view w = G)"
  unfolding calls_keep_def
proof (intro allI impI conjI)
  fix w :: "('d, 'r, 'q) world" and u g q m gm
  assume G: "wd_members view w = G"
  have i: "insert_ok (be_mysql be) view" using ok by (simp add: mysql_ok_def)
  show "wd_members view (fst (st_GetUserLastSendData (deployed be ops N) u w)) = G"
    using to_db_members [of "GetUserLastSendData be u" view w] get_last_tables [OF ok] G by (simp add: deployed_def)
  show "wd_members view (fst (st_GetGroupMembers (deployed be ops N) g w)) = G"
    using to_db_members [of "GetGroupMembers be g" view w] members_tables(1) [OF ok] G by (simp add: deployed_def)
  show "wd_members view (fst (st_SavePrivateMsg (deployed be ops N) m w)) = G"
    using to_db_members [of "SavePrivateMsg be m" view w] save_members(1) [OF i] G by (simp add: deployed_def)
  show "wd_members view (fst (st_SaveGroupMsg (deployed be ops N) gm w)) = G"
    using to_db_members [of "SaveGroupMsg be gm" view w] save_members(2) [OF i] G by (simp add: deployed_def)
  obtain w' r where e: "to_idgen (\<lambda>s. IdGenService ops N s q) w = (w', r)" by fastforce
  from to_idgen_db [OF e] e G show "wd_members view (fst (st_IdGenerate (deployed be ops N) q w)) = G"
    by (simp add: deployed_def wd_members_def fun_eq_iff)
qed

lemma advance_members:
  "mysql_ok (be_mysql be) view \<Longrightarrow> advance (deployed be ops N) now t w = (w', r) \<Longrightarrow>
   wd_members view w' = wd_members view w"
  using advance_keeps [OF calls_keep_members, of be view w "wd_members view w" ops N now t] by simp

section \<open>Pushing through the proxy\<close>

lemma sessions_users:
  assumes "GetSessions be us w = (w', Inr ss)"
  shows "map se_user_id ss = us"
proof -
  from assms obtain w1 r where r: "reply_size r = length us"
    and ss: "ss = (case r of RArray rs \<Rightarrow> map to_session (zip us rs) | _ \<Rightarrow> [])"
    by (auto simp: GetSessions_def elim!: and_then_InrE split: if_splits redis_reply.splits)
  show ?thesis
  proof (cases r)
    case (RArray rs)
    with r have "length rs = length us" by (simp add: reply_size_def)
    moreover have "map se_user_id (map to_session (zip us rs)) = map fst (zip us rs)"
      by (auto simp: to_session_def split: prod.split redis_reply.split)
    ultimately show ?thesis by (simp add: ss RArray)
  qed (use r ss in \<open>simp_all add: reply_size_def\<close>)
qed

lemma deployed_push:
  assumes p: "SendtoPeers (deployed be ops N) args w m = (w2, m2, Inr calls)"
    and fit: "length (pa_id_reply args) = length (pa_id_request args)" "pa_id_request args \<noteq> []"
  shows "calls = [] \<or> (\<exists>ss. map se_user_id ss = map un_user_id (drop 1 (pa_id_request args)) \<and>
    calls = peer_calls args (map un_user_id (drop 1 (pa_id_request args))) ss (drop 1 (pa_id_reply args)))"
proof -
  let ?us = "map un_user_id (drop 1 (pa_id_request args))"
  obtain w1 r where g: "st_GetSessions (deployed be ops N) ?us w = (w1, r)" by fastforce
  show ?thesis
  proof (cases r)
    case (Inl e)
    with p g show ?thesis by (cases e) (auto simp: SendtoPeers_def Let_def)
  next
    case (Inr ss)
    with g have "GetSessions be ?us (wd_db w) = (wd_db w1, Inr ss)"
      by (auto simp: deployed_def dest: to_db_Inr)
    note u = sessions_users [OF this]
    from arg_cong [OF u, of length] have "length ss = length (pa_id_request args) - 1" by simp
    from SendtoPeers_eq [OF g [unfolded Inr] this fit] p u show ?thesis by auto
  qed
qed

text \<open>The proxy's own check is the only fault that a request for sessions can end in.\<close>

lemma sessions_fault:
  assumes "st_GetSessions (deployed be ops N) us w = (w', Inl (Fault f))"
  shows "f \<noteq> OutOfBounds"
proof -
  have h: "f = CheckFailed" if g: "GetSessions be us db = (db', Inl (Fault f))" for db db'
  proof -
    obtain db1 c where c: "redis_CallMethod be (cmd_mget (be_redis be) (map session_key us)) db = (db1, c)" by fastforce
    then have "c \<noteq> Inl (Fault f)"
      by (auto simp: redis_CallMethod_def redis_call_def split: prod.splits link.splits)
    with g c show ?thesis
      by (cases c) (auto simp: GetSessions_def split: if_splits redis_reply.splits)
  qed
  have "to_db (GetSessions be us) w = (w', Inl (Fault f))" using assms by (simp add: deployed_def)
  then have "\<exists>db db'. GetSessions be us db = (db', Inl (Fault f))"
  proof (cases "wd_net w")
    case (Cons f' fs)
    then show ?thesis using \<open>to_db (GetSessions be us) w = (w', Inl (Fault f))\<close>
      by (cases f') (auto simp: to_db_def on_network_def split: prod.splits)
  qed (auto simp: to_db_def on_network_def split: prod.splits)
  with h show ?thesis by blast
qed

end
