(* ===== verification/Mem_World.thy ===== *)
theory Mem_World
  imports System
begin

text \<open>
  A deployed system to evaluate on, for the witnesses: the in-memory leveldb, MySQL and redis
  behind a network that delivers every call it has no fate for.
\<close>

type_synonym mem_world = "(string \<Rightarrow> string option, mem_redis_state, mem_sql) world"

abbreviation mem_stubs :: "mem_world stubs" where
  "mem_stubs \<equiv> deployed mem_backends map_db 4"

definition mem_world :: "tables \<Rightarrow> (string \<Rightarrow> string option) \<Rightarrow> mem_world" where
  "mem_world t m = \<lparr>wd_idgen = fresh_idgen (\<lambda>_. None), wd_db = mem_proxy t [] m [], wd_net = []\<rparr>"

lemma mem_world_simps [simp]:
  "wd_messages fst (mem_world t m) = t_messages t" "dp_redis (wd_db (mem_world t m)) = (m, [])"
  "wd_members fst (mem_world t m) g = g_user_id ` set (filter (\<lambda>x. g_group_id x = g) (t_members t))"
  "wd_net (mem_world t m) = []"
  by (auto simp: mem_world_def mem_proxy_def tables_of_def wd_members_def)

lemma mem_ok: "mysql_ok (be_mysql mem_backends) fst" "cjson_ok (be_cjson mem_backends)"
  by (simp_all add: mem_mysql_ok mem_cjson_ok)

lemma mem_answered: "answers mem_backends (wd_db (mem_world t m)) (m, [])"
  by simp

lemma mem_rd_get [simp]: "rd_get mem_redis (m, ls) k = m k"
  by (simp add: mem_redis_def)

abbreviation hi_to_2 :: NewMsg where
  "hi_to_2 \<equiv> \<lparr>nm_user_id = 1, nm_peer_id = 2, nm_msg_type = PRIVATE, nm_message = ''hi'',
     nm_client_time = 99, nm_msg_time = 0\<rparr>"

abbreviation signed_in :: "string \<Rightarrow> string option" where
  "signed_in \<equiv> [session_key 2 \<mapsto> ''h:1'']"

lemma accepted_eq: "\<not> isl (snd r) \<Longrightarrow> snd (projr (snd r)) \<noteq> None \<Longrightarrow>
    r = (fst r, Inr (fst (projr (snd r)), Some (the (snd (projr (snd r))))))"
  by (cases r; cases "snd r") auto

lemma answered_eq: "\<not> isl (snd r) \<Longrightarrow> r = (fst r, Inr (fst (projr (snd r)), snd (projr (snd r))))"
  by (simp add: prod_eq_iff)

end
