(* ===== verification/System_Threads.thy ===== *)
theory System_Threads
  imports Mem_World
begin

text \<open>
  Many messages at once: the threads of the logic server over the deployed id generator and
  database proxy. The contract \<open>logic_ids\<close> holds of them with the id that the generator would go
  on from, so ids stay different, and a message is accepted once, however the threads
  interleave.
\<close>

lemma to_db_idgen: "to_db h w = (w', r) \<Longrightarrow> wd_idgen w' = wd_idgen w"
  by (erule to_db_cases) auto

lemma to_idgen_cases:
  assumes "to_idgen h w = (w', r)"
  obtains (run) g res where "h (wd_idgen w) = (g, res)" "wd_idgen w' = g" "r = res \<or> isl r"
  | (lost) "wd_idgen w' = wd_idgen w" "isl r"
proof (cases "wd_net w")
  case Nil
  with assms show ?thesis by (intro run) (auto simp: to_idgen_def on_network_def split: prod.splits)
next
  case (Cons f fs)
  show ?thesis
  proof (cases f)
    case (RequestLost c t)
    with assms Cons show ?thesis by (intro lost) (auto simp: to_idgen_def on_network_def)
  qed (use assms Cons in \<open>auto simp: to_idgen_def on_network_def split: prod.splits intro: run\<close>)
qed

definition generator_ok ::
  "'d leveldb \<Rightarrow> int \<Rightarrow> ('d \<Rightarrow> string \<Rightarrow> string option) \<Rightarrow> ('d, 'r, 'q) world \<Rightarrow> bool" where
  "generator_ok ops N contents w \<longleftrightarrow> 1 \<le> N \<and> idgen_inv ops contents (wd_idgen w)"

abbreviation next_id :: "('d \<Rightarrow> string \<Rightarrow> string option) \<Rightarrow> ('d, 'r, 'q) world \<Rightarrow> int \<Rightarrow> int" where
  "next_id contents w \<equiv> next_base contents (wd_idgen w)"

lemma deployed_db_calls:
  "st_GetUserLastSendData (deployed be ops N) u w = (w', r) \<Longrightarrow> wd_idgen w' = wd_idgen w"
  "st_GetGroupMembers (deployed be ops N) g w = (w', r') \<Longrightarrow> wd_idgen w' = wd_idgen w"
  "st_SavePrivateMsg (deployed be ops N) m w = (w', s) \<Longrightarrow> wd_idgen w' = wd_idgen w"
  "st_SaveGroupMsg (deployed be ops N) gm w = (w', s) \<Longrightarrow> wd_idgen w' = wd_idgen w"
  by (auto simp: deployed_def dest: to_db_idgen)

lemma deployed_ids:
  assumes inv: "generator_ok ops N contents w" and one: "\<forall>x \<in> set q. un_need_msgid_num x = 1"
    and g: "st_IdGenerate (deployed be ops N) q w = (w', r)"
  shows "generator_ok ops N contents w'" "next_id contents w v \<le> next_id contents w' v"
    "r = Inr ids \<Longrightarrow> distinct (ids_in ids) \<and>
      (\<forall>(v, i) \<in> set (ids_in ids). next_id contents w v < i \<and> i \<le> next_id contents w' v)"
proof -
  have i: "idgen_inv ops contents (wd_idgen w)" "1 \<le> N" using inv by (simp_all add: generator_ok_def)
  from g have "to_idgen (\<lambda>s. IdGenService ops N s q) w = (w', r)" by (simp add: deployed_def)
  then have "generator_ok ops N contents w' \<and> (\<forall>v. next_id contents w v \<le> next_id contents w' v) \<and>
    (\<forall>ids. r = Inr ids \<longrightarrow> distinct (ids_in ids) \<and>
      (\<forall>(v, i) \<in> set (ids_in ids). next_id contents w v < i \<and> i \<le> next_id contents w' v))"
  proof (cases rule: to_idgen_cases)
    case (run g res)
    have "\<forall>x \<in> set q. 1 \<le> un_need_msgid_num x" using one by simp
    from service_fresh [OF i this run(1)] run(2,3) inv show ?thesis by (auto simp: generator_ok_def)
  qed (use inv in \<open>auto simp: generator_ok_def\<close>)
  then show "generator_ok ops N contents w'" "next_id contents w v \<le> next_id contents w' v"
    "r = Inr ids \<Longrightarrow> distinct (ids_in ids) \<and>
      (\<forall>(v, i) \<in> set (ids_in ids). next_id contents w v < i \<and> i \<le> next_id contents w' v)" by auto
qed

interpretation threads: logic_ids "deployed be ops N" "wd_messages view" "wd_members view"
  "\<lambda>w. mysql_ok (be_mysql be) view" "next_id contents" "generator_ok ops N contents"
  for be :: "('r, 'q) backends" and ops :: "'d leveldb" and N view contents
proof unfold_locales
  fix w w' :: "('d, 'r, 'q) world" and q :: "UserAndIdNum list" and v
  assume g: "generator_ok ops N contents w"
  have same: "generator_ok ops N contents w' \<and> next_id contents w' = next_id contents w"
    if "wd_idgen w' = wd_idgen w" using g that by (simp add: generator_ok_def fun_eq_iff)
  show "generator_ok ops N contents w' \<and> next_id contents w' = next_id contents w"
    if "st_GetUserLastSendData (deployed be ops N) u w = (w', r)" for u r
    by (rule same) (rule deployed_db_calls(1) [OF that])
  show "generator_ok ops N contents w' \<and> next_id contents w' = next_id contents w"
    if "st_GetGroupMembers (deployed be ops N) u w = (w', r)" for u r
    by (rule same) (rule deployed_db_calls(2) [OF that])
  show "generator_ok ops N contents w' \<and> next_id contents w' = next_id contents w"
    if "st_SavePrivateMsg (deployed be ops N) m w = (w', r)" for m r
    by (rule same) (rule deployed_db_calls(3) [OF that])
  show "generator_ok ops N contents w' \<and> next_id contents w' = next_id contents w"
    if "st_SaveGroupMsg (deployed be ops N) m w = (w', r)" for m r
    by (rule same) (rule deployed_db_calls(4) [OF that])
  assume one: "\<forall>x \<in> set q. un_need_msgid_num x = 1"
  show "generator_ok ops N contents w' \<and> next_id contents w v \<le> next_id contents w' v"
    if "st_IdGenerate (deployed be ops N) q w = (w', r)" for r
    using deployed_ids(1,2) [OF g one that] by simp
  show "distinct (ids_in ids) \<and> (\<forall>(v, i) \<in> set (ids_in ids). next_id contents w v < i \<and> i \<le> next_id contents w' v)"
    if "st_IdGenerate (deployed be ops N) q w = (w', Inr ids)" for ids
    by (rule deployed_ids(3) [OF g one that refl])
qed

lemma server_ok_start:
  assumes "mysql_ok (be_mysql be) view" "idgen_inv ops contents (wd_idgen w)" "1 \<le> N"
    and "unique_rows (wd_messages view w)" "distinct (map row_id (wd_messages view w))"
    and "list_all (\<lambda>r. r_msg_id r \<le> next_id contents w (r_user_id r)) (wd_messages view w)"
  shows "threads.server_ok view be contents ops N (w, [])"
  unfolding threads.server_ok_def threads.all_ids_def generator_ok_def
  using assms by (auto simp: list_all_iff)

section \<open>Many messages at once\<close>

text \<open>
  However the threads of the logic server interleave, and whatever the network and the
  servers do to their calls, no two rows of the table give a user the same message id, and no
  two have the same unique key, as long as the id generator is not restarted.
\<close>

lemma concurrent_messages_get_distinct_ids:
  assumes "mysql_ok (be_mysql be) view" "idgen_inv ops contents (wd_idgen w)" "1 \<le> N"
    and "unique_rows (wd_messages view w)" "distinct (map row_id (wd_messages view w))"
    and "list_all (\<lambda>r. r_msg_id r \<le> next_id contents w (r_user_id r)) (wd_messages view w)"
    and "path (logic_step (deployed be ops N)) (w, []) ls (w', ts)"
  shows "distinct (map row_id (wd_messages view w')) \<and> unique_rows (wd_messages view w')"
proof -
  note ok = server_ok_start [OF assms(1-6)]
  from threads.logic_path_ok [OF assms(7) ok] show ?thesis
    by (simp add: threads.server_ok_def threads.all_ids_def)
qed

text \<open>
  A message is accepted as new at most once, over any interleaving of its
  retransmissions with each other and with other messages: the accepted messages of a run
  have different keys, none of which was in the table before, and all of which are in it
  afterwards. So each message is pushed to its receivers at most once.
\<close>

lemma a_message_is_accepted_once:
  assumes "mysql_ok (be_mysql be) view" "idgen_inv ops contents (wd_idgen w)" "1 \<le> N"
    and "unique_rows (wd_messages view w)" "distinct (map row_id (wd_messages view w))"
    and "list_all (\<lambda>r. r_msg_id r \<le> next_id contents w (r_user_id r)) (wd_messages view w)"
    and "path (logic_step (deployed be ops N)) (w, []) ls (w', ts)"
  shows "distinct (List.map_filter accepted_key ls) \<and>
    set (List.map_filter accepted_key ls) \<subseteq>
      unique_key ` set (wd_messages view w') - unique_key ` set (wd_messages view w)"
proof -
  note ok = server_ok_start [OF assms(1-6)]
  from threads.accepted_once [OF assms(7) ok] show ?thesis
    by (simp add: threads.stored_keys_def)
qed

section \<open>A schedule to evaluate on\<close>

text \<open>What happens next: a request arrives, or the thread with a number moves.\<close>

datatype choice = Take NewMsg | Go nat int

fun sched :: "'w stubs \<Rightarrow> choice list \<Rightarrow> 'w server \<Rightarrow> send_label list \<times> 'w server" where
  "sched st [] x = ([], x)"
| "sched st (Take nm # cs) (w, ts) =
     (case sched st cs (w, ts @ [Checking nm]) of (ls, y) \<Rightarrow> (Arrive nm # ls, y))"
| "sched st (Go i now # cs) (w, ts) =
     (if i < length ts
      then (case advance st now (ts ! i) w of
          (w', Inr t') \<Rightarrow>
            (case sched st cs (w', take i ts @ t' # drop (Suc i) ts) of (ls, y) \<Rightarrow> (Steps # ls, y))
        | (w', Inl r) \<Rightarrow>
            (case sched st cs (w', take i ts @ drop (Suc i) ts) of
               (ls, y) \<Rightarrow> (Answers (thread_msg (ts ! i)) r # ls, y)))
      else sched st cs (w, ts))"

lemma sched_path: "sched st cs x = (ls, y) \<Longrightarrow> path (logic_step st) x ls y"
proof (induction st cs x arbitrary: ls y rule: sched.induct)
  case (2 st nm cs w ts)
  then show ?case by (auto split: prod.splits intro: path_Cons logic_step.arrive)
next
  case (3 st i now cs w ts)
  show ?case
  proof (cases "i < length ts")
    case True
    obtain w' out where a: "advance st now (ts ! i) w = (w', out)" by fastforce
    note ts = id_take_nth_drop [OF True]
    show ?thesis
    proof (cases out)
      case (Inl r)
      obtain ls' where ls: "ls = Answers (thread_msg (ts ! i)) r # ls'"
        and p: "path (logic_step st) (w', take i ts @ drop (Suc i) ts) ls' y"
        using "3.prems" "3.IH"(1) [OF True a [symmetric] Inl] True a Inl by (auto split: prod.splits)
      have "logic_step st (w, ts) (Answers (thread_msg (ts ! i)) r) (w', take i ts @ drop (Suc i) ts)"
        using logic_step.answers [OF a [unfolded Inl], of "take i ts" "drop (Suc i) ts"] ts by simp
      with p ls show ?thesis by (simp add: path_Cons)
    next
      case (Inr t')
      obtain ls' where ls: "ls = Steps # ls'"
        and p: "path (logic_step st) (w', take i ts @ t' # drop (Suc i) ts) ls' y"
        using "3.prems" "3.IH"(2) [OF True a [symmetric] Inr] True a Inr by (auto split: prod.splits)
      have "logic_step st (w, ts) Steps (w', take i ts @ t' # drop (Suc i) ts)"
        using logic_step.moves [OF a [unfolded Inr], of "take i ts" "drop (Suc i) ts"] ts by simp
      with p ls show ?thesis by (simp add: path_Cons)
    qed
  next
    case False
    with 3 show ?thesis by simp
  qed
qed (simp add: path_Nil)

text \<open>A message and its retransmission at the same time: both get ids, one is stored.\<close>

abbreviation race :: "choice list" where
  "race \<equiv> [Take hi_to_2, Take hi_to_2, Go 0 100, Go 1 100, Go 1 100, Go 0 100, Go 1 100, Go 0 100, Go 1 100, Go 0 100]"

definition raced :: "send_label list \<times> mem_world server" where
  "raced = sched mem_stubs race (mem_world empty_tables (\<lambda>_. None), [])"

lemma raced_path: "path (logic_step mem_stubs) (mem_world empty_tables (\<lambda>_. None), []) (fst raced)
    (fst (snd raced), snd (snd raced))"
  unfolding prod.collapse by (rule sched_path [of _ race]) (simp only: raced_def prod.collapse)

lemma mem_world_start:
  "idgen_inv map_db id (wd_idgen (mem_world t m))" "wd_messages fst (mem_world empty_tables m) = []"
  by (simp_all add: mem_world_def empty_tables_def fresh_map_db_inv mem_proxy_def tables_of_def)

lemma concurrent_messages_get_distinct_ids_witness:
  "length (wd_messages fst (fst (snd raced))) = 2 \<and> distinct (map row_id (wd_messages fst (fst (snd raced))))"
proof -
  have n: "length (wd_messages fst (fst (snd raced))) = 2" by code_simp
  have "unique_rows []" by (simp add: unique_rows_def)
  with concurrent_messages_get_distinct_ids [OF mem_ok(1) mem_world_start(1) _ _ _ _ raced_path] n
  show ?thesis by (simp add: empty_tables_def)
qed

lemma a_message_is_accepted_once_witness:
  "List.map_filter accepted_key (fst raced) = [sender_key hi_to_2] \<and>
   sender_key hi_to_2 \<in> unique_key ` set (wd_messages fst (fst (snd raced)))"
proof -
  have n: "List.map_filter accepted_key (fst raced) = [sender_key hi_to_2]" by code_simp
  have "unique_rows []" by (simp add: unique_rows_def)
  with a_message_is_accepted_once [OF mem_ok(1) mem_world_start(1) _ _ _ _ raced_path] n
  show ?thesis by (simp add: empty_tables_def)
qed

end
