(* ===== verification/Client.thy ===== *)
theory Client
  imports Decimal Messages Timers
begin

text \<open>
  The command line client (\<^verbatim>\<open>cmd_client/client.cc\<close>): the calls it makes when it starts, the
  command that sends a message, the time it stamps on it, the loop that sends it until it is
  answered, and the loop that pulls messages. The access server is the parameter \<open>api\<close>
  over the state \<open>'w\<close> behind it; what is printed is left out, what is received is kept. The
  number of rounds before the user asks to quit is a parameter of the loops. The first argument
  of \<open>api_SendMsg\<close> says whether its \<^verbatim>\<open>brpc::Controller\<close> has made a call before and was not reset,
  which brpc does not allow: every other call has a controller of its own.
\<close>

record 'w access_api =
  api_SignIn :: "SigninData \<Rightarrow> 'w \<Rightarrow> 'w \<times> int result"
  api_GetFriends :: "user_id_t \<Rightarrow> 'w \<Rightarrow> 'w \<times> UserInfo list result"
  api_GetGroups :: "user_id_t \<Rightarrow> 'w \<Rightarrow> 'w \<times> GroupInfo list result"
  api_GetGroupMembers :: "group_id_t \<Rightarrow> 'w \<Rightarrow> 'w \<times> UserInfo list result"
  api_GetMsgs :: "MsgIdRange \<Rightarrow> 'w \<Rightarrow> 'w \<times> Msg list result"
  api_SendMsg :: "bool \<Rightarrow> NewMsg \<Rightarrow> 'w \<Rightarrow> 'w \<times> MsgReply result"
  api_HeartBeat :: "user_id_t \<Rightarrow> 'w \<Rightarrow> 'w \<times> msg_id_t result"
  api_PullData :: "user_id_t \<Rightarrow> 'w \<Rightarrow> 'w \<times> Msg list result"

section \<open>Starting\<close>

fun fetch_members :: "'w access_api \<Rightarrow> GroupInfo list \<Rightarrow> 'w \<Rightarrow> 'w \<times> UserInfo list list result" where
  "fetch_members api [] w = (w, Inr [])"
| "fetch_members api (g # gs) w =
     and_then (api_GetGroupMembers api (gi_group_id g) w) (\<lambda>w us.
     and_then (fetch_members api gs w) (\<lambda>w uss. (w, Inr (us # uss))))"

text \<open>Any call that fails ends the program.\<close>

definition client_start ::
  "'w access_api \<Rightarrow> user_id_t \<Rightarrow> string \<Rightarrow> 'w \<Rightarrow> 'w \<times> (GroupInfo list \<times> Msg list) result" where
  "client_start api user_id password w =
     and_then (api_SignIn api \<lparr>sd_user_id = user_id, sd_password = password,
         sd_client_timestamp = 0, sd_access_addr = []\<rparr> w) (\<lambda>w pong.
     and_then (api_GetFriends api user_id w) (\<lambda>w friends.
     and_then (api_GetGroups api user_id w) (\<lambda>w group_infos.
     and_then (fetch_members api group_infos w) (\<lambda>w members.
     and_then (api_GetMsgs api \<lparr>ra_user_id = user_id, ra_start_msg_id = 0, ra_end_msg_id = 100000\<rparr> w)
       (\<lambda>w msgs. (w, Inr (group_infos, msgs)))))))"

section \<open>A line of input\<close>

datatype client_command = Ignored | Help | Quit | SendTo int string

abbreviation sendmsgto :: string where
  "sendmsgto \<equiv> ''sendmsgto ''"

text \<open>\<^verbatim>\<open>lne.find_last_of(' ')\<close>: what follows the last space.\<close>

definition after_last_space :: "string \<Rightarrow> string" where
  "after_last_space lne = rev (takeWhile (\<lambda>c. c \<noteq> CHR '' '') (rev lne))"

definition client_parse :: "user_id_t \<Rightarrow> string \<Rightarrow> fault + client_command" where
  "client_parse user_id lne =
     (if lne = [] then Inr Ignored
      else if lne = ''help'' then Inr Help
      else if lne = ''quit'' then Inr Quit
      else if hd lne \<noteq> CHR ''/'' \<and> length lne > length sendmsgto \<and> take (length sendmsgto) lne = sendmsgto
      then (let peer_id = strtoll (drop (length sendmsgto) lne) in
            if peer_id = user_id then Inl AssertFailed
            else Inr (SendTo peer_id (after_last_space lne)))
      else Inr Ignored)"

text \<open>
  The time of a message: the clock in 32 bits, one more when it is the time of the message
  before.
\<close>

definition message_time :: "int \<Rightarrow> int \<Rightarrow> fault + int" where
  "message_time last_send_time now =
     (let msg_time = to_i32 now in if msg_time = last_send_time then i32 (msg_time + 1) else Inr msg_time)"

definition message_to :: "user_id_t \<Rightarrow> GroupInfo list \<Rightarrow> int \<Rightarrow> string \<Rightarrow> int \<Rightarrow> NewMsg" where
  "message_to user_id group_infos peer_id msg client_time =
     \<lparr>nm_user_id = user_id, nm_peer_id = peer_id,
      nm_msg_type = (if \<exists>g \<in> set group_infos. peer_id = gi_group_id g then GROUP else PRIVATE),
      nm_message = msg, nm_client_time = client_time, nm_msg_time = 0\<rparr>"

text \<open>
  The inner loop: until the server answers or the user quits. The controller \<^verbatim>\<open>cntl\<close> is
  declared before the loop, so it is used again in every round.
\<close>

fun send_until_answered :: "nat \<Rightarrow> 'w access_api \<Rightarrow> bool \<Rightarrow> NewMsg \<Rightarrow> 'w \<Rightarrow> 'w \<times> MsgReply option" where
  "send_until_answered 0 api cntl_used new_msg w = (w, None)"
| "send_until_answered (Suc rounds) api cntl_used new_msg w =
     (case api_SendMsg api cntl_used new_msg w of
        (w', Inr reply) \<Rightarrow> (w', Some reply)
      | (w', Inl e) \<Rightarrow> send_until_answered rounds api True new_msg w')"

section \<open>The heartbeat timer\<close>

text \<open>
  \<^verbatim>\<open>HeartBeatArg\<close> is one object, shared by the main thread and the handler of the timer without
  a lock; it is the argument 0 of every timer.
\<close>

record 'tm heartbeat =
  hb_timers :: 'tm
  hb_timeout_id :: nat
  hb_cur_user_id :: msg_id_t

text \<open>
  The times of the heartbeat timer. The first one is armed with the interval itself, which
  is a time right after the epoch; the later ones are counted from now.
\<close>

definition first_heartbeat_at :: "int \<Rightarrow> fault + int" where
  "first_heartbeat_at internal_s = i32 (internal_s * 1000000)"

definition next_heartbeat_at :: "int \<Rightarrow> int \<Rightarrow> fault + int" where
  "next_heartbeat_at internal_s cur_time_us =
     fbind (i32 (internal_s * 1000000)) (\<lambda>heartbeat_timeout_us. i64 (cur_time_us + heartbeat_timeout_us))"

definition hb_arm :: "'tm timer_ops \<Rightarrow> int \<Rightarrow> 'tm heartbeat \<Rightarrow> 'tm heartbeat" where
  "hb_arm ops at s = (case tm_add ops (hb_timers s) at 0 of
     (i, tm) \<Rightarrow> s\<lparr>hb_timers := tm, hb_timeout_id := i\<rparr>)"

text \<open>What the deletion answers is not looked at.\<close>

definition hb_del :: "'tm timer_ops \<Rightarrow> 'tm heartbeat \<Rightarrow> int \<times> 'tm heartbeat" where
  "hb_del ops s = (case tm_del ops (hb_timers s) (hb_timeout_id s) of (r, tm) \<Rightarrow> (r, s\<lparr>hb_timers := tm\<rparr>))"

text \<open>Whatever the server answers, the handler arms the timer again.\<close>

definition HeartBeatTimeOutHeadler ::
  "'tm timer_ops \<Rightarrow> 'w access_api \<Rightarrow> int \<Rightarrow> user_id_t \<Rightarrow> int \<Rightarrow> 'tm heartbeat \<Rightarrow> 'w \<Rightarrow> fault + 'tm heartbeat \<times> 'w" where
  "HeartBeatTimeOutHeadler ops api internal_s user_id now_us s w =
     (case api_HeartBeat api user_id w of (w1, pong) \<Rightarrow>
       fbind (next_heartbeat_at internal_s now_us) (\<lambda>at. Inr (hb_arm ops at s, w1)))"

text \<open>What the main thread does before it sends a message, and after the answer.\<close>

definition heartbeat_off :: "'tm timer_ops \<Rightarrow> 'tm heartbeat \<Rightarrow> 'tm heartbeat" where
  "heartbeat_off ops s = snd (hb_del ops s)"

definition heartbeat_on :: "'tm timer_ops \<Rightarrow> int \<Rightarrow> msg_id_t \<Rightarrow> int \<Rightarrow> 'tm heartbeat \<Rightarrow> fault + 'tm heartbeat" where
  "heartbeat_on ops internal_s msg_id now_us s =
     fbind (next_heartbeat_at internal_s now_us) (\<lambda>at. Inr (hb_arm ops at (s\<lparr>hb_cur_user_id := msg_id\<rparr>)))"

section \<open>The loop over the input\<close>

text \<open>
  One turn: what \<^verbatim>\<open>readline\<close> returns (\<open>None\<close> is the null pointer, at the end of the input),
  whether Ctrl-C was pressed meanwhile (\<^verbatim>\<open>g_canceled\<close>), the clock in seconds before the message is
  sent and in microseconds after the answer, and the attempts until the user asks to quit.
\<close>

record input =
  in_line :: "string option"
  in_canceled :: bool
  in_time :: int
  in_time_us :: int
  in_rounds :: nat

record 'tm client =
  cl_last_send_time :: int
  cl_heartbeat :: "'tm heartbeat"

datatype turn = Continue | Sent MsgReply | Stop

definition client_send ::
  "'w access_api \<Rightarrow> 'tm timer_ops \<Rightarrow> int \<Rightarrow> user_id_t \<Rightarrow> GroupInfo list \<Rightarrow> input \<Rightarrow> int \<Rightarrow> string \<Rightarrow>
   'tm client \<Rightarrow> 'w \<Rightarrow> fault + turn \<times> 'tm client \<times> 'w" where
  "client_send api ops internal_s user_id group_infos inp peer_id msg c w =
     fbind (message_time (cl_last_send_time c) (in_time inp)) (\<lambda>msg_time.
       (let off = c\<lparr>cl_last_send_time := msg_time, cl_heartbeat := heartbeat_off ops (cl_heartbeat c)\<rparr> in
        case send_until_answered (in_rounds inp) api False (message_to user_id group_infos peer_id msg msg_time) w of
          (w1, None) \<Rightarrow> Inr (Stop, off, w1)
        | (w1, Some reply) \<Rightarrow>
            fbind (heartbeat_on ops internal_s (mr_msg_id reply) (in_time_us inp) (cl_heartbeat off)) (\<lambda>hb.
              Inr (Sent reply, off\<lparr>cl_heartbeat := hb\<rparr>, w1))))"

definition client_turn ::
  "'w access_api \<Rightarrow> 'tm timer_ops \<Rightarrow> int \<Rightarrow> user_id_t \<Rightarrow> GroupInfo list \<Rightarrow> input \<Rightarrow>
   'tm client \<Rightarrow> 'w \<Rightarrow> fault + turn \<times> 'tm client \<times> 'w" where
  "client_turn api ops internal_s user_id group_infos inp c w =
     (if in_line inp = None \<or> in_line inp = Some []
      then Inr (if in_canceled inp then Stop else Continue, c, w)
      else if in_canceled inp then Inr (Continue, c, w)
      else fbind (client_parse user_id (the (in_line inp))) (\<lambda>command.
        (case command of
           Quit \<Rightarrow> Inr (Stop, c, w)
         | SendTo peer_id msg \<Rightarrow> client_send api ops internal_s user_id group_infos inp peer_id msg c w
         | _ \<Rightarrow> Inr (Continue, c, w))))"

text \<open>The inputs of a run; the loop ends with them when the user asks to quit.\<close>

fun client_loop ::
  "'w access_api \<Rightarrow> 'tm timer_ops \<Rightarrow> int \<Rightarrow> user_id_t \<Rightarrow> GroupInfo list \<Rightarrow> input list \<Rightarrow>
   'tm client \<Rightarrow> 'w \<Rightarrow> fault + MsgReply list \<times> 'tm client \<times> 'w" where
  "client_loop api ops internal_s user_id group_infos [] c w = Inr ([], c, w)"
| "client_loop api ops internal_s user_id group_infos (inp # inps) c w =
     fbind (client_turn api ops internal_s user_id group_infos inp c w) (\<lambda>(t, c1, w1).
       (case t of
          Stop \<Rightarrow> Inr ([], c1, w1)
        | Continue \<Rightarrow> client_loop api ops internal_s user_id group_infos inps c1 w1
        | Sent reply \<Rightarrow> fbind (client_loop api ops internal_s user_id group_infos inps c1 w1)
            (\<lambda>(replies, r). Inr (reply # replies, r))))"

definition client_main ::
  "'w access_api \<Rightarrow> 'tm timer_ops \<Rightarrow> int \<Rightarrow> user_id_t \<Rightarrow> string \<Rightarrow> input list \<Rightarrow> 'tm \<Rightarrow> 'w \<Rightarrow>
   fault + MsgReply list \<times> 'w" where
  "client_main api ops internal_s user_id password inps tm w =
     (case client_start api user_id password w of
        (w1, Inl e) \<Rightarrow> Inr ([], w1)
      | (w1, Inr (group_infos, msgs)) \<Rightarrow>
          fbind (first_heartbeat_at internal_s) (\<lambda>at.
          fbind (client_loop api ops internal_s user_id group_infos inps
              \<lparr>cl_last_send_time = 0,
               cl_heartbeat = hb_arm ops at \<lparr>hb_timers = tm, hb_timeout_id = 0, hb_cur_user_id = 0\<rparr>\<rparr> w1)
            (\<lambda>(replies, c, w2). Inr (replies, w2))))"

section \<open>The background loop\<close>

fun pull_loop :: "nat \<Rightarrow> 'w access_api \<Rightarrow> user_id_t \<Rightarrow> 'w \<Rightarrow> 'w \<times> Msg list" where
  "pull_loop 0 api user_id w = (w, [])"
| "pull_loop (Suc rounds) api user_id w =
     (case api_PullData api user_id w of
        (w', Inl e) \<Rightarrow> pull_loop rounds api user_id w'
      | (w', Inr msgs) \<Rightarrow> (case pull_loop rounds api user_id w' of (w'', later) \<Rightarrow> (w'', msgs @ later)))"

section \<open>The times of a run\<close>

text \<open>The times that are given to messages sent at the readings of the clock, in order.\<close>

fun message_times :: "int \<Rightarrow> int list \<Rightarrow> fault + int list" where
  "message_times last_send_time [] = Inr []"
| "message_times last_send_time (now # clock) =
     fbind (message_time last_send_time now) (\<lambda>t.
     fbind (message_times t clock) (\<lambda>ts. Inr (t # ts)))"

end
