(* ===== verification/Startup.thy ===== *)
theory Startup
  imports Logic IdGen_Service DbProxy Client Access
begin

text \<open>
  How the servers start: the \<^verbatim>\<open>main\<close> functions of the four programs, the constructor of the
  database proxy and the creation of the id generator, up to the moment when they serve. What
  brpc, soci and leveldb answer are parameters; flags are fields of a record.
\<close>

section \<open>Processes\<close>

text \<open>A process ends with an exit code, is ended by an exception, or goes on to serve.\<close>

datatype 's process = Exit int | Abort fault | Serve 's

definition require :: "bool \<Rightarrow> int \<Rightarrow> 's process \<Rightarrow> 's process" where
  "require ok code next = (if ok then next else Exit code)"

lemma require_Serve [simp]: "require ok code p = Serve s \<longleftrightarrow> ok \<and> p = Serve s"
  by (simp add: require_def)

record channel_options =
  co_protocol :: string
  co_connection_type :: string
  co_timeout_ms :: int
  co_max_retry :: int

text \<open>Where a channel leads; without options the defaults of brpc hold.\<close>

record channel =
  ch_addr :: string
  ch_load_balancer :: "string option"
  ch_options :: "channel_options option"

text \<open>
  Whether brpc initialises a channel, adds the service, and starts to listen with a port and an
  idle timeout.
\<close>

record brpc =
  br_Init :: "channel \<Rightarrow> bool"
  br_AddService :: bool
  br_Start :: "int \<Rightarrow> int \<Rightarrow> bool"

record server_flags =
  sf_port :: int
  sf_idle_timeout_s :: int
  sf_connection_type :: string
  sf_timeout_ms :: int
  sf_max_retry :: int

definition baidu_options :: "'f server_flags_scheme \<Rightarrow> channel_options" where
  "baidu_options fl = \<lparr>co_protocol = ''baidu_std'', co_connection_type = sf_connection_type fl,
     co_timeout_ms = sf_timeout_ms fl, co_max_retry = sf_max_retry fl\<rparr>"

definition start_server :: "brpc \<Rightarrow> 'f server_flags_scheme \<Rightarrow> 's \<Rightarrow> 's process" where
  "start_server br fl s =
     require (br_AddService br) (-1) (require (br_Start br (sf_port fl) (sf_idle_timeout_s fl)) (-1) (Serve s))"

section \<open>The access server\<close>

record access_flags = server_flags +
  af_logic_server :: string
  af_logic_load_balancer :: string
  af_db_server :: string

record access_channels =
  ac_logic :: channel
  ac_db :: channel

text \<open>\<^verbatim>\<open>db_options\<close> is filled with the same flags and not passed: both channels get \<^verbatim>\<open>options\<close>.\<close>

definition access_main :: "brpc \<Rightarrow> access_flags \<Rightarrow> access_channels process" where
  "access_main br fl =
     (let logic = \<lparr>ch_addr = af_logic_server fl, ch_load_balancer = Some (af_logic_load_balancer fl),
                   ch_options = Some (baidu_options fl)\<rparr>;
          db = \<lparr>ch_addr = af_db_server fl, ch_load_balancer = None, ch_options = Some (baidu_options fl)\<rparr> in
      require (br_Init br logic) (-1) (require (br_Init br db) (-1)
        (start_server br fl \<lparr>ac_logic = logic, ac_db = db\<rparr>)))"

section \<open>The logic server\<close>

record logic_flags = server_flags +
  lf_id_server_addr :: string
  lf_db_addr :: string

text \<open>The answers of \<^verbatim>\<open>Init\<close> are not looked at: a channel that was not initialised stays \<open>None\<close>.\<close>

definition init_channel :: "brpc \<Rightarrow> channel \<Rightarrow> channel option" where
  "init_channel br c = (if br_Init br c then Some c else None)"

record logic_channels =
  lc_id :: "channel option"
  lc_db :: "channel option"

definition logic_main :: "brpc \<Rightarrow> logic_flags \<Rightarrow> logic_channels process" where
  "logic_main br fl =
     (let id_channel = init_channel br \<lparr>ch_addr = lf_id_server_addr fl, ch_load_balancer = None,
                                         ch_options = Some (baidu_options fl)\<rparr>;
          db_channel = init_channel br \<lparr>ch_addr = lf_db_addr fl, ch_load_balancer = None,
                                         ch_options = Some (baidu_options fl)\<rparr> in
      start_server br fl \<lparr>lc_id = id_channel, lc_db = db_channel\<rparr>)"

text \<open>A call on a channel that was not initialised fails without being made.\<close>

definition on_channel :: "channel option \<Rightarrow> ('w \<Rightarrow> 'w \<times> 'a result) \<Rightarrow> 'w \<Rightarrow> 'w \<times> 'a result" where
  "on_channel ch call w = (case ch of
      None \<Rightarrow> (w, Inl (Failed EINVAL ''Channel is not initialized yet''))
    | Some c \<Rightarrow> call w)"

definition stubs_through :: "logic_channels \<Rightarrow> 'w stubs \<Rightarrow> 'w stubs" where
  "stubs_through lc st = \<lparr>
     st_GetUserLastSendData = (\<lambda>u. on_channel (lc_db lc) (st_GetUserLastSendData st u)),
     st_IdGenerate = (\<lambda>q. on_channel (lc_id lc) (st_IdGenerate st q)),
     st_GetGroupMembers = (\<lambda>g. on_channel (lc_db lc) (st_GetGroupMembers st g)),
     st_SavePrivateMsg = (\<lambda>m. on_channel (lc_db lc) (st_SavePrivateMsg st m)),
     st_SaveGroupMsg = (\<lambda>m. on_channel (lc_db lc) (st_SaveGroupMsg st m)),
     st_GetSessions = (\<lambda>us. on_channel (lc_db lc) (st_GetSessions st us)),
     st_GetMsgs = (\<lambda>r. on_channel (lc_db lc) (st_GetMsgs st r)),
     st_GetFriends = (\<lambda>u. on_channel (lc_db lc) (st_GetFriends st u)),
     st_GetGroups = (\<lambda>u. on_channel (lc_db lc) (st_GetGroups st u))\<rparr>"

section \<open>The database proxy\<close>

record dbproxy_flags = server_flags +
  df_db_name :: string
  df_db_connect_info :: string
  df_db_group_member_name :: string
  df_db_group_member_connect_info :: string
  df_redis_server :: string
  df_redis_connection_type :: string
  df_redis_timeout_ms :: int
  df_redis_max_retry :: int

definition kConnectNumEachDb :: nat where
  "kConnectNumEachDb = 10"

text \<open>
  Opening a connection throws what soci reports; nothing catches it. \<open>so name info p i\<close> is the
  outcome for the \<open>i\<close>-th connection of a pool.
\<close>

fun open_sessions :: "(nat \<Rightarrow> string option) \<Rightarrow> nat list \<Rightarrow> fault + unit" where
  "open_sessions so [] = Inr ()"
| "open_sessions so (i # is) = (case so i of Some what \<Rightarrow> Inl (Uncaught what) | None \<Rightarrow> open_sessions so is)"

definition redis_channel :: "dbproxy_flags \<Rightarrow> channel" where
  "redis_channel fl = \<lparr>ch_addr = df_redis_server fl, ch_load_balancer = None,
     ch_options = Some \<lparr>co_protocol = ''redis'', co_connection_type = df_redis_connection_type fl,
       co_timeout_ms = df_redis_timeout_ms fl, co_max_retry = df_redis_max_retry fl\<rparr>\<rparr>"

definition DbproxyServiceImpl ::
  "brpc \<Rightarrow> (string \<Rightarrow> string \<Rightarrow> pool \<Rightarrow> nat \<Rightarrow> string option) \<Rightarrow> dbproxy_flags \<Rightarrow> channel process" where
  "DbproxyServiceImpl br so fl =
     (case fbind (open_sessions (so (df_db_name fl) (df_db_connect_info fl) db_message_connect_pool) [0..<kConnectNumEachDb])
         (\<lambda>_. open_sessions (so (df_db_group_member_name fl) (df_db_group_member_connect_info fl)
                db_group_members_connect_pool) [0..<kConnectNumEachDb]) of
        Inl f \<Rightarrow> Abort f
      | Inr _ \<Rightarrow> require (br_Init br (redis_channel fl)) (-1) (Serve (redis_channel fl)))"

definition dbproxy_main ::
  "brpc \<Rightarrow> (string \<Rightarrow> string \<Rightarrow> pool \<Rightarrow> nat \<Rightarrow> string option) \<Rightarrow> dbproxy_flags \<Rightarrow> channel process" where
  "dbproxy_main br so fl =
     (case DbproxyServiceImpl br so fl of
        Serve redis \<Rightarrow> start_server br fl redis
      | p \<Rightarrow> p)"

section \<open>The id generator\<close>

text \<open>A database that cannot be opened ends the process with \<^verbatim>\<open>exit(0)\<close>.\<close>

definition LevelDbIdGen_Init :: "(string \<Rightarrow> status \<times> 'd) \<Rightarrow> string \<Rightarrow> 'd idgen process" where
  "LevelDbIdGen_Init ldb_Open leveldb_file =
     (case ldb_Open leveldb_file of (st, d) \<Rightarrow>
       if st \<noteq> StatusOK then Exit 0 else Serve \<lparr>id_cache = (\<lambda>_ _. None), ldb = d\<rparr>)"

text \<open>\<^verbatim>\<open>IdGen::Default\<close> creates the generator once; the argument is \<^verbatim>\<open>g_idgen\<close>.\<close>

definition IdGen_Default ::
  "(string \<Rightarrow> status \<times> 'd) \<Rightarrow> string \<Rightarrow> 'd idgen option \<Rightarrow> 'd idgen process" where
  "IdGen_Default ldb_Open leveldb_file g_idgen =
     (case g_idgen of None \<Rightarrow> LevelDbIdGen_Init ldb_Open leveldb_file | Some g \<Rightarrow> Serve g)"

definition idgen_main :: "brpc \<Rightarrow> (string \<Rightarrow> status \<times> 'd) \<Rightarrow> string \<Rightarrow> server_flags \<Rightarrow> 'd idgen process" where
  "idgen_main br ldb_Open leveldb_file fl =
     (case IdGen_Default ldb_Open leveldb_file None of
        Serve g \<Rightarrow> start_server br fl g
      | p \<Rightarrow> p)"

section \<open>The end\<close>

text \<open>
  A server serves until it is asked to quit, waits for the requests it has taken, and returns 0.
  (What the access server does in between is \<open>main_step\<close>, in \<open>Access_Shutdown\<close>.)
\<close>

definition asked_to_quit :: "'s process \<Rightarrow> 's process" where
  "asked_to_quit p = (case p of Serve s \<Rightarrow> Exit 0 | Exit code \<Rightarrow> Exit code | Abort f \<Rightarrow> Abort f)"

section \<open>The client\<close>

record client_flags =
  cf_connection_type :: string
  cf_server :: string
  cf_timeout_ms :: int
  cf_max_retry :: int
  cf_internal_send_heartbeat_s :: int
  cf_user_id :: int
  cf_password :: string

text \<open>The options are filled with the flags and not passed, so the channel has none.\<close>

definition client_channel :: "client_flags \<Rightarrow> channel" where
  "client_channel fl = \<lparr>ch_addr = cf_server fl, ch_load_balancer = None, ch_options = None\<rparr>"

text \<open>
  The exit code: -1 without a channel, and 0 in every other case, also when a call of the start
  has failed. \<open>api\<close> is the access server over the channel.
\<close>

definition client_process ::
  "brpc \<Rightarrow> (channel \<Rightarrow> 'w access_api) \<Rightarrow> 'tm timer_ops \<Rightarrow> client_flags \<Rightarrow> input list \<Rightarrow> 'tm \<Rightarrow> 'w \<Rightarrow>
   int process \<times> (MsgReply list \<times> 'w) option" where
  "client_process br api ops fl inps tm w =
     (if \<not> br_Init br (client_channel fl) then (Exit (-1), None)
      else (case client_main (api (client_channel fl)) ops (cf_internal_send_heartbeat_s fl) (cf_user_id fl)
          (cf_password fl) inps tm w of
        Inl f \<Rightarrow> (Abort f, None)
      | Inr r \<Rightarrow> (Exit 0, Some r)))"

text \<open>
  What \<^verbatim>\<open>readline\<close> reads its characters with: a call that a signal interrupts ends the line and
  is remembered, so that the loop can tell Ctrl-C from an empty line.
\<close>

datatype getc_result = Char char | EndOfFile | Interrupted

definition cli_getc :: "getc_result \<Rightarrow> bool \<Rightarrow> bool \<times> char option" where
  "cli_getc c g_canceled = (case c of
      Interrupted \<Rightarrow> (True, Some (CHR 0x0A))
    | Char x \<Rightarrow> (g_canceled, Some x)
    | EndOfFile \<Rightarrow> (g_canceled, None))"

section \<open>The flags as they are defined\<close>

definition access_defaults :: access_flags where
  "access_defaults = \<lparr>sf_port = 5000, sf_idle_timeout_s = -1, sf_connection_type = ''single'', sf_timeout_ms = 100,
     sf_max_retry = 3, af_logic_server = ''file://server_list'', af_logic_load_balancer = ''c_murmurhash'',
     af_db_server = ''127.0.0.1:7000''\<rparr>"

definition recv_heartbeat_timeout_s :: int where
  "recv_heartbeat_timeout_s = 400"

definition logic_defaults :: logic_flags where
  "logic_defaults = \<lparr>sf_port = 6000, sf_idle_timeout_s = -1, sf_connection_type = ''single'', sf_timeout_ms = 100,
     sf_max_retry = 3, lf_id_server_addr = ''127.0.0.1:8000'', lf_db_addr = ''127.0.0.1:7000''\<rparr>"

definition dbproxy_server_defaults :: server_flags where
  "dbproxy_server_defaults = \<lparr>sf_port = 7000, sf_idle_timeout_s = -1, sf_connection_type = ''single'',
     sf_timeout_ms = 100, sf_max_retry = 3\<rparr>"

definition dbproxy_defaults :: dbproxy_flags where
  "dbproxy_defaults = server_flags.extend dbproxy_server_defaults
     (dbproxy_flags.fields ''mysql'' ''dbname=tinyim user=root'' ''mysql'' ''dbname=tinyim user=root''
        ''127.0.0.1:6379'' [] 1000 3)"

definition idgen_port :: int where
  "idgen_port = 8000"

definition each_gen_id_num :: int where
  "each_gen_id_num = 1024"

definition client_defaults :: client_flags where
  "client_defaults = \<lparr>cf_connection_type = ''single'', cf_server = ''0.0.0.0:5000'', cf_timeout_ms = 100,
     cf_max_retry = 3, cf_internal_send_heartbeat_s = 300, cf_user_id = 123, cf_password = ''xxxxxx''\<rparr>"

text \<open>On one machine the programs find each other with the flags as they are.\<close>

lemma defaults_meet:
  "cf_server client_defaults = ''0.0.0.0:'' @ to_string (sf_port access_defaults)"
  "af_db_server access_defaults = ''127.0.0.1:'' @ to_string (sf_port dbproxy_server_defaults)"
  "lf_db_addr logic_defaults = ''127.0.0.1:'' @ to_string (sf_port dbproxy_defaults)"
  "lf_id_server_addr logic_defaults = ''127.0.0.1:'' @ to_string idgen_port"
  by (simp_all add: to_string_def nat_str.simps digit_char_def char_of_def bit_0 access_defaults_def logic_defaults_def
      dbproxy_server_defaults_def dbproxy_defaults_def client_defaults_def idgen_port_def server_flags.defs dbproxy_flags.defs)

text \<open>
  With them a heartbeat of the client may be late by nearly 100 seconds: the timer of the access
  server, armed at the last one, is due after the next one is sent by 100 seconds.
\<close>

lemma default_heartbeats:
  assumes "timeout_at recv_heartbeat_timeout_s now = Inr due"
    and "next_heartbeat_at (cf_internal_send_heartbeat_s client_defaults) now = Inr sent"
  shows "due = sent + 100 * 1000000"
  using assms by (auto simp: timeout_at_def next_heartbeat_at_def fbind_Inr recv_heartbeat_timeout_s_def client_defaults_def)

section \<open>What has been opened when a server serves\<close>

lemma start_server_Serve: "start_server br fl s = Serve s' \<longleftrightarrow>
    s' = s \<and> br_AddService br \<and> br_Start br (sf_port fl) (sf_idle_timeout_s fl)"
  by (auto simp: start_server_def)

lemma access_main_Serve:
  "access_main br fl = Serve c \<Longrightarrow> br_Init br (ac_logic c) \<and> br_Init br (ac_db c)"
  by (auto simp: access_main_def start_server_Serve Let_def)

lemma open_sessions_Inr: "open_sessions so is = Inr () \<longleftrightarrow> list_all (\<lambda>i. so i = None) is"
  by (induction "is") (auto split: option.splits)

lemma dbproxy_main_Serve:
  assumes "dbproxy_main br so fl = Serve redis"
  shows "br_Init br redis \<and>
    list_all (\<lambda>i. so (df_db_name fl) (df_db_connect_info fl) db_message_connect_pool i = None) [0..<kConnectNumEachDb]"
proof -
  from assms have "DbproxyServiceImpl br so fl = Serve redis"
    by (auto simp: dbproxy_main_def start_server_Serve split: process.splits)
  then show ?thesis
    by (auto simp: DbproxyServiceImpl_def fbind_Inr open_sessions_Inr split: sum.splits)
qed

text \<open>
  A generator that is started on what an earlier process left in leveldb is that process
  restarted, so the theorems on a restart are about \<^verbatim>\<open>main\<close>.
\<close>

lemma idgen_main_is_restart:
  assumes "ldb_Open leveldb_file = (StatusOK, ldb s)" and "idgen_main br ldb_Open leveldb_file fl = Serve g"
  shows "g = idgen_restart s"
  using assms
  by (cases s) (simp add: idgen_main_def IdGen_Default_def LevelDbIdGen_Init_def start_server_Serve idgen_restart_def)

text \<open>
  The exit code tells the end of a server that has served from one that could not start, for the
  proxy; the id generator exits with 0 as well when it cannot open its database.
\<close>

lemma exit_codes:
  "asked_to_quit (dbproxy_main br so fl) = Exit 0 \<longleftrightarrow> (\<exists>redis. dbproxy_main br so fl = Serve redis)"
  "fst (ldb_Open leveldb_file) \<noteq> StatusOK \<Longrightarrow> asked_to_quit (idgen_main br ldb_Open leveldb_file fs) = Exit 0"
proof -
  have "start_server br fl redis \<noteq> Exit 0" for redis :: channel
    by (simp add: start_server_def require_def)
  moreover have "DbproxyServiceImpl br so fl \<noteq> Exit 0"
    by (auto simp: DbproxyServiceImpl_def require_def split: sum.split)
  ultimately show "asked_to_quit (dbproxy_main br so fl) = Exit 0 \<longleftrightarrow> (\<exists>redis. dbproxy_main br so fl = Serve redis)"
    by (auto simp: asked_to_quit_def dbproxy_main_def split: process.splits)
qed (auto simp: asked_to_quit_def idgen_main_def IdGen_Default_def LevelDbIdGen_Init_def split: prod.split)

text \<open>
  The access server and the database proxy serve only when every channel they call
  through has been initialised; the logic server serves all the same, and without the channel to
  the proxy it answers every message with an error and reaches nobody.
\<close>

lemma logic_server_serves_without_its_channels:
  assumes "\<And>c. ch_addr c = lf_db_addr fl \<Longrightarrow> \<not> br_Init br c"
    and "br_AddService br" "br_Start br (sf_port fl) (sf_idle_timeout_s fl)"
  shows "(\<exists>lc. logic_main br fl = Serve lc \<and>
      SendMsg (stubs_through lc st) now nm w = (w, Inl (Failed EINVAL ''Channel is not initialized yet''))) \<and>
    (af_db_server af = lf_db_addr fl \<longrightarrow> (\<forall>c. access_main br af \<noteq> Serve c))"
proof
  show "\<exists>lc. logic_main br fl = Serve lc \<and>
      SendMsg (stubs_through lc st) now nm w = (w, Inl (Failed EINVAL ''Channel is not initialized yet''))"
    using assms by (auto simp: logic_main_def start_server_Serve init_channel_def SendMsg_def stubs_through_def
        on_channel_def Let_def)
  show "af_db_server af = lf_db_addr fl \<longrightarrow> (\<forall>c. access_main br af \<noteq> Serve c)"
    using assms(1) by (auto simp: access_main_def Let_def)
qed

definition no_proxy :: brpc where
  "no_proxy = \<lparr>br_Init = (\<lambda>c. ch_addr c \<noteq> ''db''), br_AddService = True, br_Start = (\<lambda>port idle. True)\<rparr>"

definition some_logic_flags :: logic_flags where
  "some_logic_flags = \<lparr>sf_port = 6000, sf_idle_timeout_s = -1, sf_connection_type = ''single'', sf_timeout_ms = 100,
     sf_max_retry = 3, lf_id_server_addr = ''id'', lf_db_addr = ''db''\<rparr>"

definition some_access_flags :: access_flags where
  "some_access_flags = \<lparr>sf_port = 5000, sf_idle_timeout_s = -1, sf_connection_type = ''single'', sf_timeout_ms = 100,
     sf_max_retry = 3, af_logic_server = ''logic'', af_logic_load_balancer = ''c_murmurhash'', af_db_server = ''db''\<rparr>"

definition quiet_stubs :: "unit stubs" where
  "quiet_stubs = \<lparr>
     st_GetUserLastSendData = (\<lambda>u w. (w, Inr \<lparr>ul_user_id = u, ul_msg_id = 0, ul_client_time = 0, ul_msg_time = 0\<rparr>)),
     st_IdGenerate = (\<lambda>q w. (w, Inr [])), st_GetGroupMembers = (\<lambda>g w. (w, Inr [])),
     st_SavePrivateMsg = (\<lambda>m w. (w, Inr ())), st_SaveGroupMsg = (\<lambda>m w. (w, Inr ())),
     st_GetSessions = (\<lambda>us w. (w, Inr [])), st_GetMsgs = (\<lambda>r w. (w, Inr [])),
     st_GetFriends = (\<lambda>u w. (w, Inr [])), st_GetGroups = (\<lambda>u w. (w, Inr []))\<rparr>"

abbreviation some_new_msg :: NewMsg where
  "some_new_msg \<equiv> \<lparr>nm_user_id = 1, nm_peer_id = 2, nm_msg_type = PRIVATE, nm_message = ''hi'',
     nm_client_time = 99, nm_msg_time = 0\<rparr>"

lemma logic_server_serves_without_its_channels_witness:
  "(\<exists>lc. logic_main no_proxy some_logic_flags = Serve lc \<and>
      isl (snd (SendMsg (stubs_through lc quiet_stubs) 100 some_new_msg ()))) \<and>
    (\<nexists>c. access_main no_proxy some_access_flags = Serve c)"
proof -
  have "(\<exists>lc. logic_main no_proxy some_logic_flags = Serve lc \<and>
      SendMsg (stubs_through lc quiet_stubs) 100 some_new_msg () =
        ((), Inl (Failed EINVAL ''Channel is not initialized yet''))) \<and>
    (af_db_server some_access_flags = lf_db_addr some_logic_flags \<longrightarrow> (\<forall>c. access_main no_proxy some_access_flags \<noteq> Serve c))"
    by (rule logic_server_serves_without_its_channels) (simp_all add: no_proxy_def some_logic_flags_def)
  then show ?thesis by (auto simp: some_access_flags_def some_logic_flags_def)
qed

end
