(* ===== verification/System_Restarts.thy ===== *)
theory System_Restarts
  imports System_Threads Startup
begin

text \<open>
  The id generator may be restarted while the threads of the logic server are at work: its cache
  is lost and leveldb keeps what was reserved. Ids stay different when every id that was handed
  out is covered by a reservation at that moment; when one is not, they may repeat.
\<close>

section \<open>Threads and restarts\<close>

text \<open>
  \<open>may g\<close> says when the generator \<open>g\<close> may be restarted. A new process starts as \<open>idgen_main\<close> does on
  the same database, which is \<open>idgen_restart\<close> (\<open>idgen_main_is_restart\<close>).
\<close>

datatype restart_label = Sends send_label | Restarts

inductive restart_step ::
  "('d, 'r, 'q) world stubs \<Rightarrow> ('d idgen \<Rightarrow> bool) \<Rightarrow> ('d, 'r, 'q) world server \<Rightarrow> restart_label \<Rightarrow>
   ('d, 'r, 'q) world server \<Rightarrow> bool" for st may where
  sends: "logic_step st x l y \<Longrightarrow> restart_step st may x (Sends l) y"
| restarts: "may (wd_idgen w) \<Longrightarrow>
    restart_step st may (w, ts) Restarts (w\<lparr>wd_idgen := idgen_restart (wd_idgen w)\<rparr>, ts)"

lemma restart_path_sends: "path (logic_step st) x ls y \<Longrightarrow> path (restart_step st may) x (map Sends ls) y"
  by (induction rule: path.induct) (auto intro: path_Nil path_Cons restart_step.sends)

text \<open>No user has been handed an id above what leveldb holds for the user.\<close>

definition reserved :: "('d \<Rightarrow> string \<Rightarrow> string option) \<Rightarrow> 'd idgen \<Rightarrow> bool" where
  "reserved contents g \<longleftrightarrow> (\<forall>u. cached g u \<le> stored contents g u)"

lemma reserved_base: "reserved contents g \<Longrightarrow> next_base contents g u \<le> next_base contents (idgen_restart g) u"
  by (simp add: reserved_def next_base_def)

lemma restart_step_ok:
  assumes "restart_step (deployed be ops N) (reserved contents) x l y" "threads.server_ok view be contents ops N x"
  shows "threads.server_ok view be contents ops N y"
  using assms(1)
proof (cases rule: restart_step.cases)
  case (sends l')
  from threads.logic_step_ok [OF sends(2) assms(2)] show ?thesis .
next
  case (restarts w ts)
  let ?w = "w\<lparr>wd_idgen := idgen_restart (wd_idgen w)\<rparr>"
  have ok: "threads.server_ok view be contents ops N (w, ts)" using assms(2) restarts(1) by simp
  have ids: "threads.all_ids view (?w, ts) = threads.all_ids view (w, ts)" by (simp add: threads.all_ids_def)
  have "i \<le> next_id contents ?w u" if "(u, i) \<in> set (threads.all_ids view (w, ts))" for u i
  proof -
    have "i \<le> next_id contents w u" using ok that unfolding threads.server_ok_def by auto
    also have "\<dots> \<le> next_id contents ?w u" using reserved_base [OF restarts(4)] by simp
    finally show ?thesis .
  qed
  moreover have "generator_ok ops N contents ?w"
    using ok idgen_inv_restart unfolding threads.server_ok_def generator_ok_def by auto
  ultimately have "threads.server_ok view be contents ops N (?w, ts)"
    using ok unfolding threads.server_ok_def ids by auto
  with restarts(3) show ?thesis by simp
qed

text \<open>
  C10: ids stay different across restarts of the generator: in any run in which it is restarted
  only while every id handed out is covered by a reservation, at any moments in between, with any
  number of threads under way that hold ids of an earlier process, no two rows of the table give a
  user the same message id and no two have the same unique key.
\<close>

theorem reserved_restarts_keep_ids_distinct:
  assumes "mysql_ok (be_mysql be) view" "idgen_inv ops contents (wd_idgen w)" "1 \<le> N"
    and "unique_rows (wd_messages view w)" "distinct (map row_id (wd_messages view w))"
    and "list_all (\<lambda>r. r_msg_id r \<le> next_id contents w (r_user_id r)) (wd_messages view w)"
    and "path (restart_step (deployed be ops N) (reserved contents)) (w, []) ls (w', ts)"
  shows "distinct (map row_id (wd_messages view w')) \<and> unique_rows (wd_messages view w')"
proof -
  note start = server_ok_start [OF assms(1-6)]
  have "threads.server_ok view be contents ops N (w', ts)"
    using path_keeps [OF assms(7), of "threads.server_ok view be contents ops N"] restart_step_ok start by blast
  then show ?thesis by (simp add: threads.server_ok_def threads.all_ids_def)
qed

section \<open>Users whom nobody writes to\<close>

text \<open>
  A private message between two others leaves the ids of a user alone, so a reservation that covers
  them goes on to.
\<close>

definition elsewhere :: "int \<Rightarrow> NewMsg \<Rightarrow> bool" where
  "elsewhere u nm \<longleftrightarrow> nm_msg_type nm = PRIVATE \<and> nm_user_id nm \<noteq> u \<and> nm_peer_id nm \<noteq> u"

lemma service_frame:
  "idgen_inv ops contents s \<Longrightarrow> 1 \<le> N \<Longrightarrow> \<forall>q \<in> set reqs. 1 \<le> un_need_msgid_num q \<Longrightarrow> u \<notin> un_user_id ` set reqs \<Longrightarrow>
   IdGenService ops N s reqs = (s', r) \<Longrightarrow> cached s' u = cached s u"
proof (induction reqs arbitrary: s r)
  case (Cons q qs)
  obtain s1 r1 where g: "IdGenerate ops N s (un_user_id q) (un_need_msgid_num q) = (s1, r1)" by fastforce
  have i: "idgen_inv ops contents s \<and> 1 \<le> N" and n: "1 \<le> un_need_msgid_num q" and u: "u \<noteq> un_user_id q"
    using Cons.prems by auto
  have same: "cached s1 u = cached s u"
    by (rule idg.gen_frame [where ops = ops and N = N and contents = contents, OF i n g u])
  show ?case
  proof (cases "id_issued r1")
    case None
    with Cons.prems(5) g have "s' = s1" by (auto simp: id_issued_None split: sum.splits if_splits)
    with same show ?thesis by simp
  next
    case (Some j)
    then obtain r2 where "IdGenService ops N s1 qs = (s', r2)"
      using Cons.prems(5) g by (cases "IdGenService ops N s1 qs"; cases "snd (IdGenService ops N s1 qs)") auto
    from Cons.IH [OF single_step(1) [OF Cons.prems(1,2) n g] Cons.prems(2) _ _ this] Cons.prems(3,4) same
    show ?thesis by simp
  qed
qed simp

lemma saving_idgen: "save_message_of (deployed be ops N) nm now ids w = (w', r) \<Longrightarrow> wd_idgen w' = wd_idgen w"
  by (auto simp: save_message_of_def save_private_def save_group_def and_then_case Let_def
      split: MsgType.splits sum.splits prod.splits err.splits if_splits dest: deployed_db_calls)

lemma advance_untouched:
  assumes g: "generator_ok ops N contents w" and t: "thread_ok t" "elsewhere u (thread_msg t)"
    and a: "advance (deployed be ops N) now t w = (w', out)"
  shows "cached (wd_idgen w') u = cached (wd_idgen w) u"
proof (cases t)
  case (Checking nm)
  with a show ?thesis by (auto split: prod.splits sum.splits if_splits dest: deployed_db_calls(1))
next
  case (Listing nm)
  with a t(2) show ?thesis by (auto simp: id_request_of_def elsewhere_def)
next
  case (Numbering nm q)
  obtain res where "to_idgen (\<lambda>s. IdGenService ops N s q) w = (w', res)"
    using a Numbering by (auto simp: deployed_def split: prod.splits sum.splits)
  then show ?thesis
  proof (cases rule: to_idgen_cases)
    case (run g' res')
    have "request_for nm q" using t(1) Numbering by simp
    moreover from this have "u \<notin> un_user_id ` set q"
      using t(2) Numbering by (auto simp: request_for_def elsewhere_def one_id_def)
    ultimately show ?thesis
      using service_frame [OF _ _ _ _ run(1)] request_for_one g run(2) unfolding generator_ok_def by fastforce
  qed simp
next
  case (Saving nm q ids)
  with a have "wd_idgen w' = wd_idgen w" by (auto split: prod.splits sum.splits dest: saving_idgen)
  then show ?thesis by simp
qed

lemma path_untouched:
  assumes "path (logic_step (deployed be ops N)) x ls y" "threads.server_ok view be contents ops N x"
    and "\<forall>t \<in> set (snd x). elsewhere u (thread_msg t)" "\<forall>nm. Arrive nm \<in> set ls \<longrightarrow> elsewhere u nm"
  shows "cached (wd_idgen (fst y)) u = cached (wd_idgen (fst x)) u"
  using assms
proof (induction rule: path.induct)
  case (path_Cons x l y ls z)
  note ok = threads.logic_step_ok [OF path_Cons.hyps(1) path_Cons.prems(1)]
  have "cached (wd_idgen (fst y)) u = cached (wd_idgen (fst x)) u \<and> (\<forall>t \<in> set (snd y). elsewhere u (thread_msg t))"
    using path_Cons.hyps(1)
  proof (cases rule: logic_step.cases)
    case (arrive w ts nm)
    with path_Cons.prems(2,3) show ?thesis by auto
  next
    case (moves now t w w' t' ts1 ts2)
    have "thread_msg t' = thread_msg t"
      using moves(4) by (cases t) (auto split: prod.splits sum.splits if_splits)
    with moves path_Cons.prems(1,2) advance_untouched [OF _ _ _ moves(4)] show ?thesis
      by (auto simp: threads.server_ok_def)
  next
    case (answers now t w w' r ts1 ts2)
    with path_Cons.prems(1,2) advance_untouched [OF _ _ _ answers(4)] show ?thesis
      by (auto simp: threads.server_ok_def)
  qed
  with path_Cons.IH [OF ok] path_Cons.prems(3) show ?case by simp
qed simp

section \<open>Two runs\<close>

text \<open>
  User 1 sends messages to user 2, one after the other; blocks have \<open>N\<close> ids.
  All but the last are answered before the restart.
\<close>

definition mem_stubs_of :: "int \<Rightarrow> mem_world stubs" where
  "mem_stubs_of N = deployed mem_backends map_db N"

definition message_at :: "int \<Rightarrow> NewMsg" where
  "message_at t = hi_to_2\<lparr>nm_client_time := t\<rparr>"

definition one_message :: "int \<Rightarrow> choice list" where
  "one_message t = [Take (message_at t), Go 0 t, Go 0 t, Go 0 t, Go 0 t]"

definition sent_before :: "int \<Rightarrow> int list \<Rightarrow> send_label list \<times> mem_world server" where
  "sent_before N tms = sched (mem_stubs_of N) (concat (map one_message tms)) (mem_world empty_tables (\<lambda>_. None), [])"

lemma arrivals_of_sched: "Arrive nm \<in> set (fst (sched st cs x)) \<Longrightarrow> Take nm \<in> set cs"
  by (induction st cs x rule: sched.induct) (auto split: prod.splits sum.splits if_splits)

definition restarted :: "mem_world server \<Rightarrow> mem_world server" where
  "restarted x = ((fst x)\<lparr>wd_idgen := idgen_restart (wd_idgen (fst x))\<rparr>, snd x)"

definition sent_after :: "int \<Rightarrow> int list \<Rightarrow> int \<Rightarrow> send_label list \<times> mem_world server" where
  "sent_after N tms t = sched (mem_stubs_of N) (one_message t) (restarted (snd (sent_before N tms)))"

lemma sent_path:
  assumes "may (wd_idgen (fst (snd (sent_before N tms))))"
  shows "path (restart_step (mem_stubs_of N) may) (mem_world empty_tables (\<lambda>_. None), [])
    (map Sends (fst (sent_before N tms)) @ Restarts # map Sends (fst (sent_after N tms t))) (snd (sent_after N tms t))"
proof -
  let ?x = "snd (sent_before N tms)"
  have "path (restart_step (mem_stubs_of N) may) (mem_world empty_tables (\<lambda>_. None), []) (map Sends (fst (sent_before N tms))) ?x"
    by (rule restart_path_sends [OF sched_path]) (simp only: sent_before_def prod.collapse)
  moreover have "restart_step (mem_stubs_of N) may ?x Restarts (restarted ?x)"
    using restart_step.restarts [of may "fst ?x" "mem_stubs_of N" "snd ?x"] assms by (simp add: restarted_def)
  moreover have "path (restart_step (mem_stubs_of N) may) (restarted ?x) (map Sends (fst (sent_after N tms t))) (snd (sent_after N tms t))"
    by (rule restart_path_sends [OF sched_path]) (simp only: sent_after_def prod.collapse)
  ultimately show ?thesis by (meson path_append path_Cons)
qed

text \<open>The rows of a user: the message id and the sender's time.\<close>

abbreviation rows_of :: "int \<Rightarrow> mem_world server \<Rightarrow> (int \<times> int) list" where
  "rows_of u x \<equiv> map (\<lambda>r. (r_msg_id r, r_client_time r)) (filter (\<lambda>r. r_user_id r = u) (wd_messages fst (fst x)))"

text \<open>With blocks of one id, the first message uses up the first block, which is reserved.\<close>

lemma first_is_reserved: "reserved id (wd_idgen (fst (snd (sent_before 1 [99]))))"
  unfolding reserved_def
proof
  fix u
  let ?x = "(mem_world empty_tables (\<lambda>_. None), []) :: mem_world server" and ?g = "wd_idgen (fst (snd (sent_before 1 [99])))"
  have p: "path (logic_step (mem_stubs_of 1)) ?x (fst (sent_before 1 [99])) (snd (sent_before 1 [99]))"
    by (rule sched_path) (simp only: sent_before_def prod.collapse)
  have ok: "threads.server_ok fst mem_backends id map_db 1 ?x"
    by (rule server_ok_start [OF mem_ok(1)]) (simp_all add: mem_world_start, simp_all add: empty_tables_def unique_rows_def)
  show "cached ?g u \<le> stored id ?g u"
  proof (cases "u = 1 \<or> u = 2")
    case True
    have "cached ?g 1 \<le> stored id ?g 1 \<and> cached ?g 2 \<le> stored id ?g 2" by code_simp
    with True show ?thesis by blast
  next
    case False
    have "\<forall>nm. Arrive nm \<in> set (fst (sent_before 1 [99])) \<longrightarrow> nm \<in> {message_at 99}"
      using arrivals_of_sched [of _ "mem_stubs_of 1" "concat (map one_message [99])" ?x]
      by (auto simp: sent_before_def one_message_def)
    with False have "\<forall>nm. Arrive nm \<in> set (fst (sent_before 1 [99])) \<longrightarrow> elsewhere u nm"
      by (auto simp: elsewhere_def message_at_def)
    with path_untouched [OF p [unfolded mem_stubs_of_def] ok] have "cached ?g u = cached (wd_idgen (fst ?x)) u" by simp
    also have "\<dots> = 0" by (simp add: mem_world_def cached_def split: sum.split)
    finally have "cached ?g u = 0" .
    moreover have "idgen_inv map_db id ?g"
      using threads.logic_path_ok [OF p [unfolded mem_stubs_of_def] ok]
      unfolding threads.server_ok_def generator_ok_def by blast
    then have "0 \<le> stored id ?g u" using good_idD(1) [OF good_id_stored] by blast
    ultimately show ?thesis by simp
  qed
qed

theorem reserved_restarts_keep_ids_distinct_witness:
  "rows_of 1 (snd (sent_after 1 [99] 100)) = [(1, 99), (2, 100)] \<and>
   distinct (map row_id (wd_messages fst (fst (snd (sent_after 1 [99] 100)))))"
proof -
  have n: "rows_of 1 (snd (sent_after 1 [99] 100)) = [(1, 99), (2, 100)]" by code_simp
  have p: "path (restart_step (mem_stubs_of 1) (reserved id)) (mem_world empty_tables (\<lambda>_. None), [])
      (map Sends (fst (sent_before 1 [99])) @ Restarts # map Sends (fst (sent_after 1 [99] 100)))
      (fst (snd (sent_after 1 [99] 100)), snd (snd (sent_after 1 [99] 100)))"
    unfolding prod.collapse by (rule sent_path [of "reserved id"]) (rule first_is_reserved)
  have "unique_rows []" by (simp add: unique_rows_def)
  with reserved_restarts_keep_ids_distinct [OF mem_ok(1) mem_world_start(1) _ _ _ _ p [unfolded mem_stubs_of_def]] n
  show ?thesis by (simp add: empty_tables_def)
qed

text \<open>
  C26: without that condition ids repeat, although every call succeeds: after one message more than
  a block has ids, and a restart, the next message is accepted and stored under the ids that the
  message before has, for the sender and for the receiver.
\<close>

theorem restart_may_repeat_ids:
  "\<exists>ls x. path (restart_step (mem_stubs_of 2) (\<lambda>g. True)) (mem_world empty_tables (\<lambda>_. None), []) ls x \<and>
    map (\<lambda>r. (r_user_id r, r_msg_id r, r_client_time r)) (wd_messages fst (fst x)) =
      [(1, 1, 99), (2, 1, 99), (1, 2, 100), (2, 2, 100), (1, 3, 101), (2, 3, 101), (1, 3, 102), (2, 3, 102)]"
proof (intro exI conjI)
  show "path (restart_step (mem_stubs_of 2) (\<lambda>g. True)) (mem_world empty_tables (\<lambda>_. None), [])
    (map Sends (fst (sent_before 2 [99, 100, 101])) @ Restarts # map Sends (fst (sent_after 2 [99, 100, 101] 102)))
    (snd (sent_after 2 [99, 100, 101] 102))"
    by (rule sent_path) (rule TrueI)
  show "map (\<lambda>r. (r_user_id r, r_msg_id r, r_client_time r)) (wd_messages fst (fst (snd (sent_after 2 [99, 100, 101] 102)))) =
      [(1, 1, 99), (2, 1, 99), (1, 2, 100), (2, 2, 100), (1, 3, 101), (2, 3, 101), (1, 3, 102), (2, 3, 102)]"
    by code_simp
qed

end
