(* ===== verification/Proxy_Values.thy ===== *)
theory Proxy_Values
  imports System
begin

text \<open>
  What redis may hold under the key of a user's last message: nothing, or what the script of
  the proxy stored. Every call that the servers make keeps that, and with it the answer about
  the last message is zeros or the newest row of the user.
\<close>

section \<open>One database proxy\<close>

definition encoded_value :: "('r, 'q) backends \<Rightarrow> user_id_t \<Rightarrow> 'r \<Rightarrow> bool" where
  "encoded_value be u r \<longleftrightarrow> (\<exists>a b c. rd_get (be_redis be) r (last_send_key u) =
     Some (cj_encode (be_cjson be) [to_string a, to_string b, to_string c]))"

definition proxy_value :: "('r, 'q) backends \<Rightarrow> user_id_t \<Rightarrow> 'r \<Rightarrow> bool" where
  "proxy_value be u r \<longleftrightarrow> rd_get (be_redis be) r (last_send_key u) = None \<or> encoded_value be u r"

text \<open>A redis that loses no key and refuses no command.\<close>

definition redis_steady :: "'r redis \<Rightarrow> bool" where
  "redis_steady ops \<longleftrightarrow> (\<forall>r l r'. rd_link ops r = (l, r') \<longrightarrow>
     (\<forall>k. rd_get ops r' k = rd_get ops r k) \<and> (\<forall>e. l \<noteq> Refused e))"

text \<open>
  A property of what redis holds that the passing of time and the writes of the proxy leave
  alone is left alone by every handler that \<open>SendMsg\<close> calls.
\<close>

definition kept_by_proxy :: "('r, 'q) backends \<Rightarrow> ('r \<Rightarrow> bool) \<Rightarrow> bool" where
  "kept_by_proxy be P \<longleftrightarrow> (\<forall>r l r'. rd_link (be_redis be) r = (l, r') \<longrightarrow> P r \<longrightarrow> P r') \<and>
     (\<forall>r v a b c. P r \<longrightarrow> P (rd_setex (be_redis be) r (last_send_key v) 3600
        (cj_encode (be_cjson be) [to_string a, to_string b, to_string c])))"

lemma kept_link: "kept_by_proxy be P \<Longrightarrow> rd_link (be_redis be) r = (l, r') \<Longrightarrow> P r \<Longrightarrow> P r'"
  unfolding kept_by_proxy_def by blast

lemma setex_value:
  assumes "redis_ok (be_redis be)" "encoded_value be u r"
  shows "encoded_value be u (rd_setex (be_redis be) r (last_send_key v) t
    (cj_encode (be_cjson be) [to_string a, to_string b, to_string c]))"
  using assms unfolding encoded_value_def by (auto simp: redis_setex_get)

lemma setex_proxy_value:
  assumes "redis_ok (be_redis be)" "proxy_value be u r"
  shows "proxy_value be u (rd_setex (be_redis be) r (last_send_key v) t
    (cj_encode (be_cjson be) [to_string a, to_string b, to_string c]))"
  using assms unfolding proxy_value_def encoded_value_def by (auto simp: redis_setex_get)

lemma proxy_value_kept:
  assumes ok: "redis_ok (be_redis be)"
  shows "kept_by_proxy be (proxy_value be u)"
proof -
  have "\<forall>r l r' k. rd_link (be_redis be) r = (l, r') \<longrightarrow>
      rd_get (be_redis be) r' k = rd_get (be_redis be) r k \<or> rd_get (be_redis be) r' k = None"
    using ok unfolding redis_ok_def by (elim conjE)
  then have "\<forall>r l r'. rd_link (be_redis be) r = (l, r') \<longrightarrow> proxy_value be u r \<longrightarrow> proxy_value be u r'"
    unfolding proxy_value_def encoded_value_def by metis
  with setex_proxy_value [OF ok] show ?thesis unfolding kept_by_proxy_def by blast
qed

lemma encoded_value_kept:
  assumes ok: "redis_ok (be_redis be)" and st: "redis_steady (be_redis be)"
  shows "kept_by_proxy be (encoded_value be u)"
proof -
  have "\<forall>r l r'. rd_link (be_redis be) r = (l, r') \<longrightarrow> encoded_value be u r \<longrightarrow> encoded_value be u r'"
    using st unfolding encoded_value_def redis_steady_def by metis
  with setex_value [OF ok] show ?thesis unfolding kept_by_proxy_def by blast
qed

lemma set_last_keeps_value:
  assumes k: "kept_by_proxy be P" and v: "P (dp_redis w)" and s: "SetUserLastSendData_impl be d w = (w', r)"
  shows "P (dp_redis w')"
proof -
  obtain l r0 where l: "rd_link (be_redis be) (dp_redis w) = (l, r0)" by fastforce
  note v0 = kept_link [OF k l v]
  let ?script = "set_last_script (be_redis be) (be_cjson be) (last_send_key (ul_user_id d))
    (to_string (ul_msg_id d)) (to_string (ul_client_time d)) (to_string (ul_msg_time d)) r0"
  have "fst ?script = r0 \<or> fst ?script = rd_setex (be_redis be) r0 (last_send_key (ul_user_id d)) 3600
      (cj_encode (be_cjson be) [to_string (ul_msg_id d), to_string (ul_client_time d), to_string (ul_msg_time d)])"
    by (auto simp: set_last_script_def Let_def split: option.splits list.splits)
  with v0 k have "P (fst ?script)" unfolding kept_by_proxy_def by auto
  with set_last_redis [OF s l] v0 show ?thesis by metis
qed

lemma insert_group_redis: "insert_group be m ums w = (w', e) \<Longrightarrow> dp_redis w' = dp_redis w"
proof (induction ums arbitrary: w)
  case (Cons um ums)
  obtain w1 e1 where s: "sql_exec be (ChooseDatabase (um_user_id um)) [group_row m um] w = (w1, e1)" by fastforce
  with Cons show ?case by (cases e1) (auto dest: sql_exec_redis)
qed simp

lemma save_private_keeps_value:
  assumes k: "kept_by_proxy be P" and v: "P (dp_redis w)"
    and s: "SavePrivateMsg be m w = (w', r)"
  shows "P (dp_redis w')"
proof -
  obtain w1 e where i: "insert_private be m w = (w1, e)" by fastforce
  then have "dp_redis w1 = dp_redis w"
    by (auto simp: insert_private_def Let_def dest: sql_exec_redis)
  with i s v set_last_keeps_value [OF k, of w1] show ?thesis
    by (cases e) (auto simp: SavePrivateMsg_def)
qed

lemma save_group_keeps_value:
  assumes k: "kept_by_proxy be P" and v: "P (dp_redis w)"
    and s: "SaveGroupMsg be m w = (w', r)"
  shows "P (dp_redis w')"
proof -
  obtain w1 e where i: "insert_group be m (ngm_user_and_msgids m) w = (w1, e)" by fastforce
  then have "dp_redis w1 = dp_redis w" by (rule insert_group_redis)
  with i s v set_last_keeps_value [OF k, of w1] show ?thesis
    by (cases e) (auto simp: SaveGroupMsg_def)
qed

lemma members_redis: "GetGroupMembers be g w = (w', r) \<Longrightarrow> dp_redis w' = dp_redis w"
  by (auto simp: GetGroupMembers_def Let_def set_sql_def split: prod.splits sum.splits)

text \<open>Asking for the last message: the command, then what its answer leads to.\<close>

lemma get_call:
  assumes "redis_CallMethod be (cmd_get (be_redis be) k) w = (w1, c)"
  obtains l where "rd_link (be_redis be) (dp_redis w) = (l, dp_redis w1)" "dp_sql w1 = dp_sql w"
    and "c = (case l of Answered \<Rightarrow> Inr (bulk (rd_get (be_redis be) (dp_redis w1) k)) | Refused e \<Rightarrow> Inr (RError e)
      | Unreached a t \<Rightarrow> Inl (Failed a t) | AnswerLost a t \<Rightarrow> Inl (Failed a t))"
  using assms unfolding redis_CallMethod_def redis_call_def cmd_get_def
  by (auto split: prod.splits link.splits)

lemma get_last_redis:
  assumes "GetUserLastSendData be u w = (w', r)"
  obtains l where "rd_link (be_redis be) (dp_redis w) = (l, dp_redis w')"
proof -
  obtain w1 c where c: "redis_CallMethod be (cmd_get (be_redis be) (last_send_key u)) w = (w1, c)" by fastforce
  obtain l where l: "rd_link (be_redis be) (dp_redis w) = (l, dp_redis w1)"
    by (rule get_call [OF c])
  from assms c have "dp_redis w' = dp_redis w1"
    by (auto simp: GetUserLastSendData_def Let_def set_sql_def split: sum.splits redis_reply.splits prod.splits)
  with l that show ?thesis by simp
qed

lemma get_last_keeps_value:
  assumes "kept_by_proxy be P" "P (dp_redis w)" "GetUserLastSendData be v w = (w', r)"
  shows "P (dp_redis w')"
  using get_last_redis [OF assms(3)] kept_link [OF assms(1) _ assms(2)] by metis

text \<open>Whatever happens to the command, an answer is zeros or the user's newest row.\<close>

lemma get_last_answer:
  assumes ok: "mysql_ok (be_mysql be) view" "redis_ok (be_redis be)" "cjson_ok (be_cjson be)"
    and v: "proxy_value be u (dp_redis w)" and g: "GetUserLastSendData be u w = (w', Inr d)"
  shows "d = last_answer (0, 0, 0) \<or> newest_sent (messages view w) u d"
proof -
  obtain w1 c where c: "redis_CallMethod be (cmd_get (be_redis be) (last_send_key u)) w = (w1, c)" by fastforce
  then obtain l where l: "rd_link (be_redis be) (dp_redis w) = (l, dp_redis w1)" "dp_sql w1 = dp_sql w"
    and reply: "c = (case l of Answered \<Rightarrow> Inr (bulk (rd_get (be_redis be) (dp_redis w1) (last_send_key u)))
      | Refused e \<Rightarrow> Inr (RError e) | Unreached a t \<Rightarrow> Inl (Failed a t) | AnswerLost a t \<Rightarrow> Inl (Failed a t))"
    by (rule get_call)
  note v1 = kept_link [OF proxy_value_kept [OF ok(2)] l(1) v]
  obtain q res where s: "sql_messages (be_mysql be) (dp_sql w1 db_message_connect_pool) (last_sent_where u) = (q, res)"
    by fastforce
  show ?thesis
  proof (cases "\<exists>x. c = Inr (RString x)")
    case True
    then obtain x where x: "c = Inr (RString x)" by blast
    with reply have "rd_get (be_redis be) (dp_redis w1) (last_send_key u) = Some x"
      by (auto simp: bulk_def split: link.splits option.splits)
    with v1 obtain a b t where "x = cj_encode (be_cjson be) [to_string a, to_string b, to_string t]"
      unfolding proxy_value_def encoded_value_def by auto
    then have "sscanf_last x = Inr (0, 0, 0)" using encoded_reads_zero [OF ok(3)] by blast
    with g c x show ?thesis by (simp add: GetUserLastSendData_def)
  next
    case False
    with g c s obtain rs where rs: "res = Inr rs" "d = last_answer (last_from_rows rs)"
      by (auto simp: GetUserLastSendData_def Let_def split: sum.splits redis_reply.splits)
    with selected_newest(2) [OF ok(1) s [unfolded rs(1)]] l(2) show ?thesis by (simp add: tables_of_def)
  qed
qed

lemma get_last_steady:
  assumes st: "redis_steady (be_redis be)" and cj: "cjson_ok (be_cjson be)"
    and v: "encoded_value be u (dp_redis w)" and g: "GetUserLastSendData be u w = (w', Inr d)"
  shows "d = last_answer (0, 0, 0)"
proof -
  from v obtain a b t where v: "rd_get (be_redis be) (dp_redis w) (last_send_key u) =
      Some (cj_encode (be_cjson be) [to_string a, to_string b, to_string t])"
    unfolding encoded_value_def by blast
  obtain w1 c where c: "redis_CallMethod be (cmd_get (be_redis be) (last_send_key u)) w = (w1, c)" by fastforce
  then obtain l where l: "rd_link (be_redis be) (dp_redis w) = (l, dp_redis w1)"
    and reply: "c = (case l of Answered \<Rightarrow> Inr (bulk (rd_get (be_redis be) (dp_redis w1) (last_send_key u)))
      | Refused e \<Rightarrow> Inr (RError e) | Unreached a t \<Rightarrow> Inl (Failed a t) | AnswerLost a t \<Rightarrow> Inl (Failed a t))"
    by (rule get_call)
  from st l have "rd_get (be_redis be) (dp_redis w1) (last_send_key u) = rd_get (be_redis be) (dp_redis w) (last_send_key u)"
    "\<And>e. l \<noteq> Refused e" unfolding redis_steady_def by blast+
  with reply v g c obtain "c = Inr (RString (cj_encode (be_cjson be) [to_string a, to_string b, to_string t]))"
    by (cases l) (auto simp: bulk_def GetUserLastSendData_def)
  with g c encoded_reads_zero [OF cj] show ?thesis by (simp add: GetUserLastSendData_def)
qed

section \<open>The deployed system\<close>

abbreviation wd_redis :: "('d, 'r, 'q) world \<Rightarrow> 'r" where
  "wd_redis w \<equiv> dp_redis (wd_db w)"

lemma to_db_keeps:
  assumes "\<And>db db' r. P (dp_redis db) \<Longrightarrow> h db = (db', r) \<Longrightarrow> P (dp_redis db')" and "P (wd_redis w)"
  shows "P (wd_redis (fst (to_db h w)))"
proof -
  obtain w' r where e: "to_db h w = (w', r)" by fastforce
  then show ?thesis
  proof (cases rule: to_db_cases)
    case (run db res)
    with assms e show ?thesis by auto
  next
    case lost
    with assms(2) e show ?thesis by simp
  qed
qed

lemma calls_keep_value:
  fixes be :: "('r, 'q) backends" and ops :: "'d leveldb"
  assumes k: "kept_by_proxy be P"
  shows "calls_keep (deployed be ops N) (\<lambda>w. P (wd_redis w))"
  unfolding calls_keep_def
proof (intro allI impI conjI)
  fix w :: "('d, 'r, 'q) world" and u g q m gm
  assume v: "P (wd_redis w)"
  show "P (wd_redis (fst (st_GetUserLastSendData (deployed be ops N) u w)))"
    unfolding deployed_def stubs.simps by (rule to_db_keeps [where P = P, OF get_last_keeps_value [OF k] v])
  show "P (wd_redis (fst (st_GetGroupMembers (deployed be ops N) g w)))"
    unfolding deployed_def stubs.simps by (rule to_db_keeps [where P = P, OF _ v]) (simp add: members_redis)
  show "P (wd_redis (fst (st_SavePrivateMsg (deployed be ops N) m w)))"
    unfolding deployed_def stubs.simps by (rule to_db_keeps [where P = P, OF save_private_keeps_value [OF k] v])
  show "P (wd_redis (fst (st_SaveGroupMsg (deployed be ops N) gm w)))"
    unfolding deployed_def stubs.simps by (rule to_db_keeps [where P = P, OF save_group_keeps_value [OF k] v])
  show "P (wd_redis (fst (st_IdGenerate (deployed be ops N) q w)))"
    using v to_idgen_db [of "\<lambda>s. IdGenService ops N s q" w]
    by (cases "to_idgen (\<lambda>s. IdGenService ops N s q) w") (simp add: deployed_def)
qed

lemma send_keeps_value:
  "kept_by_proxy be P \<Longrightarrow> P (wd_redis w) \<Longrightarrow> SendMsg (deployed be ops N) now nm w = (w', r) \<Longrightarrow> P (wd_redis w')"
  using SendMsg_keeps [OF calls_keep_value] .

text \<open>The answers about the last message, over the network.\<close>

lemma world_last_answer:
  assumes "mysql_ok (be_mysql be) view" "redis_ok (be_redis be)" "cjson_ok (be_cjson be)"
    and "proxy_value be u (wd_redis w)" and "st_GetUserLastSendData (deployed be ops N) u w = (w', Inr d)"
  shows "d = last_answer (0, 0, 0) \<or> newest_sent (wd_messages view w) u d"
proof -
  from assms(5) have "GetUserLastSendData be u (wd_db w) = (wd_db w', Inr d)"
    by (auto simp: deployed_def dest: to_db_Inr)
  from get_last_answer [OF assms(1-4) this] show ?thesis .
qed

lemma world_last_steady:
  assumes "redis_steady (be_redis be)" "cjson_ok (be_cjson be)"
    and "encoded_value be u (wd_redis w)" and "st_GetUserLastSendData (deployed be ops N) u w = (w', Inr d)"
  shows "d = last_answer (0, 0, 0)"
proof -
  from assms(4) have "GetUserLastSendData be u (wd_db w) = (wd_db w', Inr d)"
    by (auto simp: deployed_def dest: to_db_Inr)
  from get_last_steady [OF assms(1-3) this] show ?thesis .
qed

section \<open>A retransmission\<close>

lemma newest_is_found:
  assumes ok: "mysql_ok (be_mysql be) view" and u: "unique_rows (wd_messages view w)"
    and red: "answers be (wd_db w) r"
      "rd_get (be_redis be) r (last_send_key (nm_user_id nm)) = None"
    and row: "row \<in> set (wd_messages view w)" "unique_key row = (nm_user_id nm, nm_user_id nm, nm_client_time nm)"
    and new: "\<forall>y \<in> set (wd_messages view w). r_user_id y = nm_user_id nm \<longrightarrow> r_sender y = nm_user_id nm \<longrightarrow>
      r_client_time y \<le> nm_client_time nm"
    and d: "st_GetUserLastSendData (deployed be ops N) (nm_user_id nm) w = (w1, Inr d)"
  shows "ul_client_time d = nm_client_time nm" "ul_msg_id d = r_msg_id row"
proof -
  from d have "GetUserLastSendData be (nm_user_id nm) (wd_db w) = (wd_db w1, Inr d)"
    by (auto simp: deployed_def dest: to_db_Inr)
  note l = last_from_table [OF ok red this, unfolded newest_sent_def]
  have own: "\<exists>x \<in> set (wd_messages view w). r_user_id x = nm_user_id nm \<and> r_sender x = nm_user_id nm"
    using row by (auto simp: unique_key_def)
  from l [unfolded if_P [OF own]] obtain x where x: "x \<in> set (wd_messages view w)" "r_user_id x = nm_user_id nm" "r_sender x = nm_user_id nm"
      "\<forall>y \<in> set (wd_messages view w). r_user_id y = nm_user_id nm \<and> r_sender y = nm_user_id nm \<longrightarrow>
         r_client_time y \<le> r_client_time x"
    and ans: "d = last_answer (r_msg_id x, r_client_time x, r_msg_time x)" by blast
  have "r_user_id row = nm_user_id nm" "r_sender row = nm_user_id nm" "r_client_time row = nm_client_time nm"
    using row(2) by (simp_all add: unique_key_def)
  moreover have "r_client_time x \<le> nm_client_time nm" using new x(1-3) by blast
  ultimately have "r_client_time x = nm_client_time nm" using x(4) row(1) by (metis order_antisym)
  then have "unique_key x = unique_key row" using x(2,3) row(2) by (simp add: unique_key_def)
  then have "x = row" using u x(1) row(1) unfolding unique_rows_def distinct_map by (meson inj_onD)
  with ans row(2) show "ul_client_time d = nm_client_time nm" "ul_msg_id d = r_msg_id row"
    by (simp_all add: last_answer_def unique_key_def)
qed

lemma newest_is_recognised:
  assumes ok: "mysql_ok (be_mysql be) view" and u: "unique_rows (wd_messages view w)"
    and red: "answers be (wd_db w) r"
      "rd_get (be_redis be) r (last_send_key (nm_user_id nm)) = None"
    and row: "row \<in> set (wd_messages view w)" "unique_key row = (nm_user_id nm, nm_user_id nm, nm_client_time nm)"
    and new: "\<forall>y \<in> set (wd_messages view w). r_user_id y = nm_user_id nm \<longrightarrow> r_sender y = nm_user_id nm \<longrightarrow>
      r_client_time y \<le> nm_client_time nm"
    and s: "SendMsg (deployed be ops N) now nm w = (w', Inr (reply, push))"
  shows "push = None \<and> mr_msg_id reply = r_msg_id row \<and> wd_messages view w' = wd_messages view w"
proof -
  from s obtain w1 d where d: "st_GetUserLastSendData (deployed be ops N) (nm_user_id nm) w = (w1, Inr d)"
    by (auto simp: SendMsg_def elim!: and_then_InrE)
  with newest_is_found [OF ok u red row new d] s have "push = None" "mr_msg_id reply = r_msg_id row" by (auto simp: SendMsg_def)
  moreover have "wd_messages view w' = wd_messages view w"
    using deployed.duplicate_keeps [where view = view and w = w, OF ok] s \<open>push = None\<close> by simp
  ultimately show ?thesis by blast
qed

text \<open>While redis keeps what the proxy stored, a message that is in the table is refused.\<close>

lemma stored_is_refused:
  assumes ok: "mysql_ok (be_mysql be) view" "cjson_ok (be_cjson be)" "redis_steady (be_redis be)"
    and u: "unique_rows (wd_messages view w)" and v: "encoded_value be (nm_user_id nm) (wd_redis w)"
    and row: "sender_key nm \<in> unique_key ` set (wd_messages view w)" and nz: "nm_client_time nm \<noteq> 0"
    and s: "SendMsg (deployed be ops N) now nm w = (w', res)"
  shows "wd_messages view w' = wd_messages view w \<and> isl res"
proof (rule deployed.unseen_refused [where view = view and w = w, OF ok(1) u row _ s])
  fix w1 d
  assume "st_GetUserLastSendData (deployed be ops N) (nm_user_id nm) w = (w1, Inr d)"
  from world_last_steady [OF ok(3,2) v this] nz show "ul_client_time d \<noteq> nm_client_time nm"
    by (simp add: last_answer_def)
qed

section \<open>An answer that recognises a message\<close>

abbreviation own_row :: "user_id_t \<Rightarrow> msg_row \<Rightarrow> bool" where
  "own_row u r \<equiv> r_user_id r = u \<and> r_sender r = u"

definition told_its_row :: "('q \<Rightarrow> tables) \<Rightarrow> NewMsg \<Rightarrow> ('d, 'r, 'q) world \<Rightarrow> MsgReply \<Rightarrow> bool" where
  "told_its_row view nm w reply \<longleftrightarrow>
     (\<exists>x \<in> set (wd_messages view w). unique_key x = sender_key nm \<and> r_msg_id x = mr_msg_id reply)"

lemma recognised_row:
  assumes ok: "mysql_ok (be_mysql be) view" "redis_ok (be_redis be)" "cjson_ok (be_cjson be)"
    and v: "proxy_value be (nm_user_id nm) (wd_redis w)" and ct: "nm_client_time nm \<noteq> 0"
    and d: "st_GetUserLastSendData (deployed be ops N) (nm_user_id nm) w = (w', Inr d)"
      "ul_client_time d = nm_client_time nm"
  shows "\<exists>x \<in> set (wd_messages view w). unique_key x = sender_key nm \<and> r_msg_id x = ul_msg_id d"
proof -
  from world_last_answer [OF ok v d(1)]
  have n: "newest_sent (wd_messages view w) (nm_user_id nm) d"
    using ct d(2) by (auto simp: last_answer_def)
  show ?thesis
  proof (cases "\<exists>x \<in> set (wd_messages view w). own_row (nm_user_id nm) x")
    case True
    from n [unfolded newest_sent_def if_P [OF True]] obtain x where
      "x \<in> set (wd_messages view w)" "own_row (nm_user_id nm) x"
      "d = last_answer (r_msg_id x, r_client_time x, r_msg_time x)" by blast
    with d(2) show ?thesis by (intro bexI [of _ x]) (simp_all add: unique_key_def last_answer_def)
  next
    case False
    from n [unfolded newest_sent_def if_not_P [OF False]] ct d(2) show ?thesis by (simp add: last_answer_def)
  qed
qed

end
