(* ===== verification/Answers.thy ===== *)
theory Answers
  imports System_Threads Proxy_Values
begin

text \<open>
  What the answers of the logic server mean, with any number of its threads at work: an answer
  is the id of the row that the message has in the table, whichever thread stored it.
\<close>

section \<open>While threads are at work\<close>

definition serving ::
  "('r, 'q) backends \<Rightarrow> ('q \<Rightarrow> tables) \<Rightarrow> ('d, 'r, 'q) world server \<Rightarrow> bool" where
  "serving be view x \<longleftrightarrow> (case x of (w, ts) \<Rightarrow>
     unique_rows (wd_messages view w) \<and> (\<forall>u. proxy_value be u (wd_redis w)) \<and> list_all thread_ok ts)"

lemma all_values_kept:
  "redis_ok (be_redis be) \<Longrightarrow> kept_by_proxy be (\<lambda>r. \<forall>u. proxy_value be u r)"
  using proxy_value_kept unfolding kept_by_proxy_def by blast

text \<open>An answer of a thread that recognised its message.\<close>

lemma advance_recognised:
  assumes "advance st now t w = (w', Inl (Inr (reply, None)))"
  obtains nm d where "t = Checking nm" "st_GetUserLastSendData st (nm_user_id nm) w = (w', Inr d)"
    "ul_client_time d = nm_client_time nm" "mr_msg_id reply = ul_msg_id d"
  using assms by (cases t) (auto split: prod.splits sum.splits if_splits)

lemma advance_serving:
  assumes ok: "mysql_ok (be_mysql be) view" "redis_ok (be_redis be)" "cjson_ok (be_cjson be)"
    and u: "unique_rows (wd_messages view w)" and v: "\<forall>u. proxy_value be u (wd_redis w)" and t: "thread_ok t"
    and a: "advance (deployed be ops N) now t w = (w', r)"
  shows "unique_rows (wd_messages view w')" "\<forall>u. proxy_value be u (wd_redis w')"
    "\<And>t'. r = Inr t' \<Longrightarrow> thread_ok t'" "set (wd_messages view w) \<subseteq> set (wd_messages view w')"
    "\<And>reply p. r = Inl (Inr (reply, p)) \<Longrightarrow> nm_client_time (thread_msg t) \<noteq> 0 \<Longrightarrow>
       told_its_row view (thread_msg t) w' reply"
proof -
  note rows = deployed.advance_rows [where view = view and w = w, OF ok(1) t a, unfolded deployed.step_rows_def]
  show "unique_rows (wd_messages view w')" "\<And>t'. r = Inr t' \<Longrightarrow> thread_ok t'"
    "set (wd_messages view w) \<subseteq> set (wd_messages view w')" using rows u by auto
  show "\<forall>u. proxy_value be u (wd_redis w')"
    using advance_keeps [OF calls_keep_value [OF all_values_kept [OF ok(2)]] v, of ops N now t] a by simp
  fix reply p
  assume r: "r = Inl (Inr (reply, p))" and ct: "nm_client_time (thread_msg t) \<noteq> 0"
  show "told_its_row view (thread_msg t) w' reply"
  proof (cases p)
    case (Some args)
    with rows r have "\<exists>new. wd_messages view w' = wd_messages view w @ new \<and> sender_saved (thread_msg t) reply new"
      by blast
    then show ?thesis unfolding told_its_row_def sender_saved_def by auto
  next
    case None
    with a r obtain nm d where d: "t = Checking nm" "ul_client_time d = nm_client_time nm"
        "st_GetUserLastSendData (deployed be ops N) (nm_user_id nm) w = (w', Inr d)"
        "mr_msg_id reply = ul_msg_id d"
      by (metis advance_recognised)
    have "wd_messages view w' = wd_messages view w"
      using deployed.last_keeps [where view = view and w = w, OF ok(1) d(3)] by blast
    moreover have "\<exists>x \<in> set (wd_messages view w). unique_key x = sender_key nm \<and> r_msg_id x = ul_msg_id d"
      by (rule recognised_row [OF ok _ _ d(3,2)]) (use v ct d(1) in simp_all)
    ultimately show ?thesis unfolding told_its_row_def by (simp add: d(1,4))
  qed
qed

lemma step_serving:
  assumes ok: "mysql_ok (be_mysql be) view" "redis_ok (be_redis be)" "cjson_ok (be_cjson be)"
    and step: "logic_step (deployed be ops N) x l y" and x: "serving be view x"
  shows "serving be view y \<and> set (wd_messages view (fst x)) \<subseteq> set (wd_messages view (fst y)) \<and>
    (\<forall>nm reply p. l = Answers nm (Inr (reply, p)) \<longrightarrow> nm_client_time nm \<noteq> 0 \<longrightarrow>
       told_its_row view nm (fst y) reply)"
  using step
proof (cases rule: logic_step.cases)
  case (arrive w ts nm)
  with x show ?thesis by (simp add: serving_def)
next
  case (moves now t w w' t' ts1 ts2)
  have s: "unique_rows (wd_messages view w)" "\<forall>u. proxy_value be u (wd_redis w)" "thread_ok t"
    "list_all thread_ok (ts1 @ ts2)" using x moves(1) by (simp_all add: serving_def)
  from advance_serving(1-4) [OF ok s(1-3) moves(4)] s(4) moves(1-3) show ?thesis by (simp add: serving_def)
next
  case (answers now t w w' r ts1 ts2)
  have s: "unique_rows (wd_messages view w)" "\<forall>u. proxy_value be u (wd_redis w)" "thread_ok t"
    "list_all thread_ok (ts1 @ ts2)" using x answers(1) by (simp_all add: serving_def)
  from advance_serving [OF ok s(1-3) answers(4)] s(4) answers(1-3) show ?thesis by (auto simp: serving_def)
qed

lemma told_kept:
  "told_its_row view nm w reply \<Longrightarrow> set (wd_messages view w) \<subseteq> set (wd_messages view w') \<Longrightarrow>
   told_its_row view nm w' reply"
  unfolding told_its_row_def by blast

lemma path_serving:
  assumes ok: "mysql_ok (be_mysql be) view" "redis_ok (be_redis be)" "cjson_ok (be_cjson be)"
  shows "path (logic_step (deployed be ops N)) x ls y \<Longrightarrow> serving be view x \<Longrightarrow>
    serving be view y \<and> set (wd_messages view (fst x)) \<subseteq> set (wd_messages view (fst y)) \<and>
    (\<forall>nm reply p. Answers nm (Inr (reply, p)) \<in> set ls \<longrightarrow> nm_client_time nm \<noteq> 0 \<longrightarrow>
       told_its_row view nm (fst y) reply)"
proof (induction rule: path.induct)
  case (path_Cons x l x1 ls y)
  note S = step_serving [OF ok path_Cons.hyps(1) path_Cons.prems]
  note IH = path_Cons.IH [OF conjunct1 [OF S]]
  show ?case
  proof (intro conjI allI impI)
    fix nm reply p
    assume a: "Answers nm (Inr (reply, p)) \<in> set (l # ls)" and ct: "nm_client_time nm \<noteq> 0"
    show "told_its_row view nm (fst y) reply"
    proof (cases "Answers nm (Inr (reply, p)) = l")
      case True
      with S ct have "told_its_row view nm (fst x1) reply" by blast
      with told_kept IH show ?thesis by blast
    next
      case False
      with a IH ct show ?thesis by auto
    qed
  qed (use S IH in blast)+
qed simp

section \<open>The answers of a run\<close>

text \<open>
  C3: every answer of a run to a message with a client time other than 0 names the row of its message: when the run ends, there is exactly
  one row under the key of the sender, and its id is the id of the answer, also where the
  message was sent several times, its retransmissions raced each other, and calls were lost.
\<close>

theorem every_answer_names_the_stored_row:
  assumes "mysql_ok (be_mysql be) view" "redis_ok (be_redis be)" "cjson_ok (be_cjson be)"
    and u: "unique_rows (wd_messages view w)" and v: "\<forall>u. proxy_value be u (wd_redis w)"
    and p: "path (logic_step (deployed be ops N)) (w, []) ls (w', ts)"
    and a: "Answers nm (Inr (reply, push)) \<in> set ls" and ct: "nm_client_time nm \<noteq> 0"
  shows "\<exists>x. filter (\<lambda>y. unique_key y = sender_key nm) (wd_messages view w') = [x] \<and>
    r_msg_id x = mr_msg_id reply"
proof -
  have "serving be view (w, [])" using u v by (simp add: serving_def)
  from path_serving [OF assms(1-3) p this] a ct
  have s: "serving be view (w', ts)" "told_its_row view nm w' reply" by auto
  then obtain x where x: "x \<in> set (wd_messages view w')" "unique_key x = sender_key nm"
    "r_msg_id x = mr_msg_id reply" unfolding told_its_row_def by blast
  have "distinct (map unique_key (wd_messages view w'))"
    using s(1) by (simp add: serving_def unique_rows_def)
  from filter_all_distinct_keys [OF this x(1)] x(2,3) show ?thesis by auto
qed

text \<open>
  A message, its retransmission while it is being saved, and another once it is in the table:
  one thread is answered, one fails at the unique key, one recognises the message.
\<close>

abbreviation race_and_again :: "choice list" where
  "race_and_again \<equiv> race @ [Take hi_to_2, Go 0 200]"

text \<open>Redis refuses to store the last message, so it is the table that knows it.\<close>

definition refusing :: mem_world where
  "refusing = (mem_world empty_tables (\<lambda>_. None))\<lparr>wd_db :=
     mem_proxy empty_tables [] (\<lambda>_. None) [Answered, Answered, Refused ''read only'']\<rparr>"

definition raced_again :: "send_label list \<times> mem_world server" where
  "raced_again = sched mem_stubs race_and_again (refusing, [])"

fun told_ids :: "send_label list \<Rightarrow> int list" where
  "told_ids (Answers nm (Inr (reply, p)) # ls) =
     (if nm = hi_to_2 then mr_msg_id reply # told_ids ls else told_ids ls)"
| "told_ids (l # ls) = told_ids ls"
| "told_ids [] = []"

lemma told_idsD: "i \<in> set (told_ids ls) \<Longrightarrow> \<exists>reply p. Answers hi_to_2 (Inr (reply, p)) \<in> set ls \<and> mr_msg_id reply = i"
  by (induction ls rule: told_ids.induct) (auto split: if_splits)

theorem every_answer_names_the_stored_row_witness:
  "told_ids (fst raced_again) = [1, 1] \<and>
   map r_msg_id (filter (\<lambda>y. unique_key y = (1, 1, 99)) (wd_messages fst (fst (snd raced_again)))) = [1]"
proof -
  have n: "told_ids (fst raced_again) = [1, 1]" by code_simp
  then obtain reply p where a: "Answers hi_to_2 (Inr (reply, p)) \<in> set (fst raced_again)" "mr_msg_id reply = 1"
    using told_idsD [of 1 "fst raced_again"] by auto
  have w: "unique_rows (wd_messages fst refusing)" "\<forall>u. proxy_value mem_backends u (wd_redis refusing)"
    by (simp_all add: refusing_def tables_of_def mem_proxy_def empty_tables_def unique_rows_def proxy_value_def)
  have run: "path (logic_step mem_stubs) (refusing, []) (fst raced_again) (fst (snd raced_again), snd (snd raced_again))"
    unfolding prod.collapse by (rule sched_path [of _ race_and_again]) (simp only: raced_again_def prod.collapse)
  have ok: "redis_ok (be_redis mem_backends)" by (simp add: mem_redis_ok)
  from every_answer_names_the_stored_row [OF mem_ok(1) ok mem_ok(2) w run a(1)] n a(2)
  show ?thesis by auto
qed

end
