(* ===== verification/Mailboxes.thy ===== *)
theory Mailboxes
  imports System_Restarts Answers
begin

text \<open>
  What the servers promise, without servers, threads, tables or calls: every user has a mailbox,
  and posting a message puts a letter into the mailboxes of its receivers, at once, under ids that
  are new to them. The logic server over the generator and the proxy implements it.
\<close>

section \<open>The specification\<close>

record letter =
  lt_from :: int
  lt_group :: int
  lt_text :: string
  lt_sent :: int

type_synonym mailboxes = "int \<Rightarrow> (int \<times> letter) list"

text \<open>A private message belongs to group 0.\<close>

definition letter_of :: "NewMsg \<Rightarrow> letter" where
  "letter_of nm = \<lparr>lt_from = nm_user_id nm, lt_group = (case nm_msg_type nm of PRIVATE \<Rightarrow> 0 | GROUP \<Rightarrow> nm_peer_id nm),
     lt_text = nm_message nm, lt_sent = nm_client_time nm\<rparr>"

text \<open>
  A message is posted to users with ids. The sender is the first of them, the others are receivers
  of the message, each of them once, a private message goes to the sender and the peer, an id is new
  to the mailbox that gets it, and the sender has not posted a message of that time before. The
  groups have the members that \<open>G\<close> says.
\<close>

definition posted ::
  "(group_id_t \<Rightarrow> user_id_t set) \<Rightarrow> NewMsg \<Rightarrow> (int \<times> int) list \<Rightarrow> mailboxes \<Rightarrow> mailboxes \<Rightarrow> bool" where
  "posted G nm to M M' \<longleftrightarrow> to \<noteq> [] \<and> fst (hd to) = nm_user_id nm \<and>
     fst ` set to \<subseteq> receivers G nm \<and> distinct (map fst to) \<and>
     (nm_msg_type nm = PRIVATE \<longrightarrow> map fst to = [nm_user_id nm, nm_peer_id nm]) \<and>
     (\<forall>(u, i) \<in> set to. i \<notin> fst ` set (M u)) \<and>
     (\<forall>(i, l) \<in> set (M (nm_user_id nm)). lt_from l = nm_user_id nm \<longrightarrow> lt_sent l \<noteq> nm_client_time nm) \<and>
     (\<forall>u. M' u = M u @ map (\<lambda>x. (snd x, letter_of nm)) (filter (\<lambda>x. fst x = u) to))"

text \<open>
  A message is accepted under an id of the sender, and then exactly its receivers have it, each of
  them one letter; refused, and then nobody has gained it or, where it was to a group, a part of the
  members may have; or known already, and then the answer is the id of the letter of that time that
  the sender has in the own mailbox. The code takes a message of the time 0 for one it knows whenever
  the sender has none, and the specification promises nothing of the answer to it.
\<close>

datatype mail_label = Accepts NewMsg int "(int \<times> int) list" | Refuses NewMsg | Knows NewMsg int | Silent

inductive mail_step :: "(group_id_t \<Rightarrow> user_id_t set) \<Rightarrow> mailboxes \<Rightarrow> mail_label \<Rightarrow> mailboxes \<Rightarrow> bool" for G where
  accepts: "posted G nm to M M' \<Longrightarrow> fst ` set to = receivers G nm \<Longrightarrow> (nm_user_id nm, i) \<in> set to \<Longrightarrow>
    mail_step G M (Accepts nm i to) M'"
| refuses: "mail_step G M (Refuses nm) M"
| refuses_late: "posted G nm to M M' \<Longrightarrow> mail_step G M (Refuses nm) M'"
| knows: "(i, l) \<in> set (M (nm_user_id nm)) \<Longrightarrow> lt_from l = nm_user_id nm \<Longrightarrow> lt_sent l = nm_client_time nm \<Longrightarrow>
    mail_step G M (Knows nm i) M"
| knows_zero: "nm_client_time nm = 0 \<Longrightarrow> mail_step G M (Knows nm i) M"
| silent: "mail_step G M Silent M"

inductive_cases mail_stepE: "mail_step G M l M'"
inductive_cases acceptsE: "mail_step G M (Accepts nm i to) M'"

text \<open>In a run of the specification letters stay, and an accepted message is with all its receivers.\<close>

lemma posted_grows: "posted G nm to M M' \<Longrightarrow> set (M u) \<subseteq> set (M' u)"
  by (simp add: posted_def)

lemma mail_step_grows: "mail_step G M l M' \<Longrightarrow> set (M u) \<subseteq> set (M' u)"
  by (erule mail_stepE) (auto dest: posted_grows [of G _ _ M M' u])

lemma mail_path_grows: "path (mail_step G) M ls M' \<Longrightarrow> set (M u) \<subseteq> set (M' u)"
  by (induction rule: path.induct) (auto dest: mail_step_grows [of _ _ _ _ u])

lemma mail_path_accepted:
  "path (mail_step G) M ls M' \<Longrightarrow> Accepts nm i to \<in> set ls \<Longrightarrow> u \<in> receivers G nm \<Longrightarrow>
   \<exists>j. (u, j) \<in> set to \<and> (j, letter_of nm) \<in> set (M' u)"
proof (induction rule: path.induct)
  case (path_Cons M l M1 ls M')
  show ?case
  proof (cases "l = Accepts nm i to")
    case True
    with path_Cons.hyps(1) have p: "posted G nm to M M1" "fst ` set to = receivers G nm" by (auto elim: acceptsE)
    then obtain j where j: "(u, j) \<in> set to" using path_Cons.prems(2) by force
    have "M1 u = M u @ map (\<lambda>x. (snd x, letter_of nm)) (filter (\<lambda>x. fst x = u) to)" using p(1) by (simp add: posted_def)
    with j have "(j, letter_of nm) \<in> set (M1 u)" by force
    with j mail_path_grows [OF path_Cons.hyps(2), of u] show ?thesis by blast
  next
    case False
    with path_Cons show ?thesis by simp
  qed
qed simp

section \<open>The table as mailboxes\<close>

definition letter_in :: "msg_row \<Rightarrow> letter" where
  "letter_in r = \<lparr>lt_from = r_sender r, lt_group = r_group_id r, lt_text = r_message r, lt_sent = r_client_time r\<rparr>"

definition mailboxes :: "msg_row list \<Rightarrow> mailboxes" where
  "mailboxes rs u = map (\<lambda>r. (r_msg_id r, letter_in r)) (filter (\<lambda>r. r_user_id r = u) rs)"

lemma letter_in_made [simp]: "letter_in (row_made nm t e) = letter_of nm"
  by (simp add: letter_in_def row_made_def letter_of_def)

lemma row_made_simps [simp]:
  "r_user_id (row_made nm t e) = mi_user_id e" "r_msg_id (row_made nm t e) = mi_start_msg_id e"
  "unique_key (row_made nm t e) = (mi_user_id e, nm_user_id nm, nm_client_time nm)"
  by (simp_all add: row_made_def unique_key_def)

lemma mailboxes_made:
  "mailboxes (rs @ map (row_made nm t) es) u =
   mailboxes rs u @ map (\<lambda>x. (snd x, letter_of nm)) (filter (\<lambda>x. fst x = u) (ids_in es))"
  by (induction es) (auto simp: mailboxes_def)

lemma mailboxes_ids: "i \<in> fst ` set (mailboxes rs u) \<longleftrightarrow> (u, i) \<in> row_id ` set rs"
  by (force simp: mailboxes_def)

section \<open>The servers implement it\<close>

definition mail_label :: "restart_label \<Rightarrow> mail_label" where
  "mail_label l = (case l of
      Sends (Answers nm (Inr (reply, Some args))) \<Rightarrow> Accepts nm (mr_msg_id reply) (ids_in (pa_id_reply args))
    | Sends (Answers nm (Inr (reply, None))) \<Rightarrow> Knows nm (mr_msg_id reply)
    | Sends (Answers nm (Inl e)) \<Rightarrow> Refuses nm
    | _ \<Rightarrow> Silent)"

lemma made_posted:
  assumes ok: "thread_ok (Saving nm q ids)" and G: "mi_user_id ` set ids = receivers G nm" and u: "unique_rows (rs @ map (row_made nm t) (take k ids))"
    and d: "distinct (map row_id rs @ ids_in ids)" and k: "k \<noteq> 0" "nm_msg_type nm = PRIVATE \<longrightarrow> k = 2"
  shows "posted G nm (ids_in (take k ids)) (mailboxes rs) (mailboxes (rs @ map (row_made nm t) (take k ids)))"
proof -
  obtain j where j: "k = Suc j" using k(1) by (cases k) auto
  from ok obtain sid rest where ids: "ids = sid # rest" "mi_user_id sid = nm_user_id nm"
    and priv: "nm_msg_type nm = PRIVATE \<longrightarrow> (\<exists>rid. rest = [rid] \<and> mi_user_id rid = nm_peer_id nm)"
    using ids_of_request [of nm q ids] by auto
  have to: "ids_in (take k ids) = take k (ids_in ids)" by (simp add: take_map)
  have sub: "set (ids_in (take k ids)) \<subseteq> set (ids_in ids)" unfolding to by (rule set_take_subset)
  have "distinct (map unique_key (map (row_made nm t) (take k ids)))" using u by (simp add: unique_rows_def)
  then have "distinct (map fst (ids_in (take k ids)))" by (simp add: comp_def distinct_map inj_on_def)
  moreover have "fst ` set (ids_in (take k ids)) \<subseteq> receivers G nm"
    using set_take_subset [of k ids] unfolding G [symmetric] by auto
  moreover have "\<forall>(v, i) \<in> set (ids_in (take k ids)). i \<notin> fst ` set (mailboxes rs v)"
    using d sub unfolding mailboxes_ids by fastforce
  moreover have "lt_sent l \<noteq> nm_client_time nm"
    if "(i, l) \<in> set (mailboxes rs (nm_user_id nm))" "lt_from l = nm_user_id nm" for i l
  proof -
    from that obtain r where r: "r \<in> set rs" "r_user_id r = nm_user_id nm" "l = letter_in r" "r_sender r = nm_user_id nm"
      by (auto simp: mailboxes_def letter_in_def)
    have "unique_key (row_made nm t sid) \<notin> unique_key ` set rs"
      using u by (auto simp: unique_rows_def ids(1) j)
    moreover have "unique_key r \<in> unique_key ` set rs" using r(1) by simp
    ultimately have "unique_key r \<noteq> unique_key (row_made nm t sid)" by metis
    with r ids(2) show ?thesis by (auto simp: unique_key_def letter_in_def row_made_def)
  qed
  moreover have "nm_msg_type nm = PRIVATE \<longrightarrow> map fst (ids_in (take k ids)) = [nm_user_id nm, nm_peer_id nm]"
    using priv ids k(2) by auto
  moreover have "ids_in (take k ids) \<noteq> []" "fst (hd (ids_in (take k ids))) = nm_user_id nm" by (simp_all add: ids j)
  ultimately show ?thesis unfolding posted_def mailboxes_made by blast
qed

lemma told_known:
  assumes "nm_client_time nm \<noteq> 0 \<Longrightarrow> told_its_row view nm w reply"
  shows "mail_step G (mailboxes (wd_messages view w)) (Knows nm (mr_msg_id reply)) (mailboxes (wd_messages view w))"
proof (cases "nm_client_time nm = 0")
  case False
  with assms obtain x where x: "x \<in> set (wd_messages view w)" "unique_key x = sender_key nm" "r_msg_id x = mr_msg_id reply"
    unfolding told_its_row_def by blast
  then have "(mr_msg_id reply, letter_in x) \<in> set (mailboxes (wd_messages view w) (nm_user_id nm))"
    by (force simp: mailboxes_def unique_key_def)
  with x(2) show ?thesis by (intro knows [of _ "letter_in x"]) (simp_all add: letter_in_def unique_key_def)
qed (rule knows_zero)

lemma unaccepted_step:
  assumes "\<forall>reply args. r \<noteq> Inr (reply, Some args)"
    and "\<And>reply. r = Inr (reply, None) \<Longrightarrow> nm_client_time nm \<noteq> 0 \<Longrightarrow> told_its_row view nm w reply"
  shows "mail_step G (mailboxes (wd_messages view w)) (mail_label (Sends (Answers nm r))) (mailboxes (wd_messages view w))"
proof (cases r)
  case (Inr x)
  with assms(1) obtain reply where "r = Inr (reply, None)" by (cases x; cases "snd x") auto
  with told_known [OF assms(2)] show ?thesis by (simp add: mail_label_def)
qed (simp add: mail_label_def refuses)

text \<open>The server at work: ids apart, redis with what the proxy stored, requests for all receivers.\<close>

definition mail_ok ::
  "('q \<Rightarrow> tables) \<Rightarrow> ('r, 'q) backends \<Rightarrow> ('d \<Rightarrow> string \<Rightarrow> string option) \<Rightarrow> 'd leveldb \<Rightarrow> int \<Rightarrow>
   (group_id_t \<Rightarrow> user_id_t set) \<Rightarrow> ('d, 'r, 'q) world server \<Rightarrow> bool" where
  "mail_ok view be contents ops N G x \<longleftrightarrow> threads.server_ok view be contents ops N x \<and>
     (\<forall>u. proxy_value be u (wd_redis (fst x))) \<and> wd_members view (fst x) = G \<and> list_all (for_all G) (snd x)"

lemma mail_okD:
  assumes "mail_ok view be contents ops N G (w, ts1 @ t # ts2)"
  shows "threads.server_ok view be contents ops N (w, ts1 @ t # ts2)" "\<forall>u. proxy_value be u (wd_redis w)"
    "wd_members view w = G" "for_all G t" "list_all (for_all G) (ts1 @ ts2)" "thread_ok t"
    "unique_rows (wd_messages view w)" "distinct (map row_id (wd_messages view w) @ held t)"
proof -
  show s: "threads.server_ok view be contents ops N (w, ts1 @ t # ts2)" using assms by (simp add: mail_ok_def)
  show "\<forall>u. proxy_value be u (wd_redis w)" "wd_members view w = G" "for_all G t" "list_all (for_all G) (ts1 @ ts2)"
    using assms by (simp_all add: mail_ok_def)
  show "thread_ok t" "unique_rows (wd_messages view w)" "distinct (map row_id (wd_messages view w) @ held t)"
    using s by (auto simp: threads.server_ok_def threads.all_ids_def)
qed

lemma answer_step:
  assumes my: "mysql_ok (be_mysql be) view" "redis_ok (be_redis be)" "cjson_ok (be_cjson be)"
    and ok: "mail_ok view be contents ops N G (w, ts1 @ t # ts2)"
    and a: "advance (deployed be ops N) now t w = (w', Inl r)"
  shows "mail_step G (mailboxes (wd_messages view w)) (mail_label (Sends (Answers (thread_msg t) r)))
    (mailboxes (wd_messages view w'))"
proof -
  note K = mail_okD [OF ok]
  note th = K(6) and d = K(8) and u = K(7)
  note told = advance_serving(5) [OF my u K(2) th a]
  have u': "unique_rows (wd_messages view w')"
    and sid: "\<And>reply args. r = Inr (reply, Some args) \<Longrightarrow>
      \<exists>new. wd_messages view w' = wd_messages view w @ new \<and> sender_saved (thread_msg t) reply new"
    using deployed.advance_rows [where view = view and w = w, OF my(1) th a] u unfolding deployed.step_rows_def by auto
  from my(1) th a show ?thesis
  proof (cases rule: deployed.advance_made [where view = view])
    case kept
    have "told_its_row view (thread_msg t) w reply" if "r = Inr (reply, None)" "nm_client_time (thread_msg t) \<noteq> 0" for reply
      using told [of reply None] that kept(1) by (simp add: told_its_row_def)
    from unaccepted_step [OF kept(2) this] kept(1) show ?thesis by simp
  next
    case (saved nm q ids k)
    let ?to = "ids_in (take k ids)"
    show ?thesis
    proof (cases "k = 0")
      case True
      have "ids \<noteq> []" using th saved(1) by (cases ids) (auto simp: request_for_def)
      with True saved(3) have "\<forall>reply args. r \<noteq> Inr (reply, Some args)" by fastforce
      moreover have "r \<noteq> Inr (reply, None)" for reply using a saved(1) by (auto split: prod.splits sum.splits)
      ultimately have "isl r" by (metis isl_def option.exhaust prod.exhaust sum.exhaust)
      with True saved(2) show ?thesis by (cases r) (simp_all add: mail_label_def refuses)
    next
      case False
      have G: "mi_user_id ` set ids = receivers G nm" using K(4) saved(1) by simp
      have p: "posted G nm ?to (mailboxes (wd_messages view w)) (mailboxes (wd_messages view w'))"
        unfolding saved(2)
        using made_posted [OF th [unfolded saved(1)] G u' [unfolded saved(2)] _ False] d saved(1,4) False by simp
      show ?thesis
      proof (cases r)
        case (Inl e)
        with p saved(1) show ?thesis by (auto simp: mail_label_def intro: refuses_late)
      next
        case (Inr x)
        obtain reply args where x: "x = (reply, args)" by fastforce
        show ?thesis
        proof (cases args)
          case None
          with a saved(1) Inr x show ?thesis by (auto split: prod.splits sum.splits)
        next
          case (Some args')
          with Inr x saved(3) have all: "pa_id_reply args' = ids" "take k ids = ids" by auto
          from sid [of reply args'] Inr x Some obtain new where
            "wd_messages view w' = wd_messages view w @ new" "sender_saved nm reply new"
            using saved(1) by auto
          with saved(2) all have "(nm_user_id nm, mr_msg_id reply) \<in> set ?to"
            by (force simp: sender_saved_def)
          moreover have "fst ` set ?to = receivers G nm" unfolding all(2) G [symmetric] by (simp add: image_image)
          ultimately show ?thesis using p all Inr x Some saved(1) by (simp add: mail_label_def accepts)
        qed
      qed
    qed
  qed
qed

definition mail_of :: "('q \<Rightarrow> tables) \<Rightarrow> ('d, 'r, 'q) world server \<Rightarrow> mailboxes" where
  "mail_of view x = mailboxes (wd_messages view (fst x))"

lemma mail_ok_step:
  assumes my: "mysql_ok (be_mysql be) view" "redis_ok (be_redis be)"
    and ok: "mail_ok view be contents ops N G x"
    and step: "restart_step (deployed be ops N) (reserved contents) x l y"
  shows "mail_ok view be contents ops N G y"
proof -
  have s: "threads.server_ok view be contents ops N y"
    using restart_step_ok [OF step] ok by (simp add: mail_ok_def)
  note keeps = advance_keeps [OF calls_keep_value [OF all_values_kept [OF my(2)]]]
  from step show ?thesis
  proof (cases rule: restart_step.cases)
    case (sends l')
    from sends(2) show ?thesis
    proof (cases rule: logic_step.cases)
      case (arrive w ts nm)
      with ok s show ?thesis by (simp add: mail_ok_def)
    next
      case (moves now t w w' t' ts1 ts2)
      note K = mail_okD [OF ok [unfolded moves(1)]]
      have "for_all G t'"
        using deployed.advance_for_all [where view = view and w = w, OF my(1) _ moves(4)] K(3,4) by simp
      with advance_members [OF my(1) moves(4)] keeps [OF K(2), of ops N now t] moves(3,4) K(3,5) s show ?thesis
        by (simp add: mail_ok_def)
    next
      case (answers now t w w' r ts1 ts2)
      note K = mail_okD [OF ok [unfolded answers(1)]]
      from advance_members [OF my(1) answers(4)] keeps [OF K(2), of ops N now t] answers(3,4) K(3,5) s show ?thesis
        by (simp add: mail_ok_def)
    qed
  next
    case (restarts w ts)
    with ok s show ?thesis by (simp add: mail_ok_def wd_members_def fun_eq_iff)
  qed
qed

lemma server_step_refines:
  assumes my: "mysql_ok (be_mysql be) view" "redis_ok (be_redis be)" "cjson_ok (be_cjson be)"
    and ok: "mail_ok view be contents ops N G x"
    and step: "restart_step (deployed be ops N) (reserved contents) x l y"
  shows "mail_step G (mail_of view x) (mail_label l) (mail_of view y)"
  using step
proof (cases rule: restart_step.cases)
  case (sends l')
  from sends(2) show ?thesis
  proof (cases rule: logic_step.cases)
    case (arrive w ts nm)
    with sends(1) show ?thesis by (simp add: mail_label_def mail_of_def silent)
  next
    case (moves now t w w' t' ts1 ts2)
    have "wd_messages view w' = wd_messages view w"
      using threads.advance_moves(2) [where view = view and contents = contents, OF _ _ moves(4)] ok moves(1)
      by (auto simp: mail_ok_def threads.server_ok_def)
    with moves sends(1) show ?thesis by (simp add: mail_label_def mail_of_def silent)
  next
    case (answers now t w w' r ts1 ts2)
    from answer_step [OF my ok [unfolded answers(1)] answers(4)] answers(1-3) sends(1) show ?thesis
      by (simp add: mail_of_def)
  qed
next
  case (restarts w ts)
  then show ?thesis by (simp add: mail_label_def mail_of_def silent)
qed

text \<open>
  C1: the logic server with its threads, over the id generator, which is restarted at moments when
  its reservations cover what it has handed out, the database proxy and a network that loses calls,
  refines the mailboxes: every run of it is a run of the specification, where accepting a message
  is one atomic step that puts one letter into the mailbox of each of its receivers (the sender and
  the peer, or the sender and the members of the group) under ids that are new there, and is possible
  once for each message; and where a message with a time other than 0 is answered as known only with
  the id of the letter of that time in the mailbox of its sender.
\<close>

theorem servers_refine_mailboxes:
  assumes my: "mysql_ok (be_mysql be) view" "redis_ok (be_redis be)" "cjson_ok (be_cjson be)"
    and "idgen_inv ops contents (wd_idgen w)" "1 \<le> N"
    and "unique_rows (wd_messages view w)" "distinct (map row_id (wd_messages view w))"
    and "list_all (\<lambda>r. r_msg_id r \<le> next_id contents w (r_user_id r)) (wd_messages view w)"
    and cache: "\<forall>u. proxy_value be u (wd_redis w)"
    and run: "path (restart_step (deployed be ops N) (reserved contents)) (w, []) ls (w', ts)"
  shows "path (mail_step (wd_members view w)) (mailboxes (wd_messages view w)) (map mail_label ls) (mailboxes (wd_messages view w'))"
proof -
  let ?G = "wd_members view w"
  have "path (mail_step ?G) (mail_of view (w, [])) (map mail_label ls) (mail_of view (w', ts))"
  proof (rule path_refines [OF run, where I = "mail_ok view be contents ops N ?G"])
    show "mail_ok view be contents ops N ?G (w, [])"
      using server_ok_start [OF my(1) assms(4-8)] cache by (simp add: mail_ok_def)
    show "mail_ok view be contents ops N ?G y \<and> mail_step ?G (mail_of view x) (mail_label l) (mail_of view y)"
      if "restart_step (deployed be ops N) (reserved contents) x l y" "mail_ok view be contents ops N ?G x" for x l y
      using mail_ok_step [OF my(1,2) that(2,1)] server_step_refines [OF my that(2,1)] by simp
  qed
  then show ?thesis by (simp add: mail_of_def)
qed

text \<open>
  A message to a group of three, whose last-send data redis refuses to store, and the same message
  once more.
\<close>

abbreviation hi_to_7 :: NewMsg where
  "hi_to_7 \<equiv> hi_to_2\<lparr>nm_peer_id := 7, nm_msg_type := GROUP\<rparr>"

definition group_of_3 :: tables where
  "group_of_3 = empty_tables\<lparr>t_members := map (\<lambda>u. \<lparr>g_group_id = 7, g_group_name = ''g'', g_user_id = u,
     g_user_name = ''u''\<rparr>) [1, 2, 3]\<rparr>"

definition grouped :: mem_world where
  "grouped = (mem_world group_of_3 (\<lambda>_. None))\<lparr>wd_db :=
     mem_proxy group_of_3 [] (\<lambda>_. None) [Answered, Refused ''read only'']\<rparr>"

definition posted_twice :: "send_label list \<times> mem_world server" where
  "posted_twice = sched mem_stubs [Take hi_to_7, Go 0 99, Go 0 99, Go 0 99, Go 0 99, Take hi_to_7, Go 0 100] (grouped, [])"

theorem servers_refine_mailboxes_witness:
  "\<exists>ls M. path (mail_step (wd_members fst grouped)) (\<lambda>u. []) ls M \<and>
    Accepts hi_to_7 1 [(1, 1), (2, 1), (3, 1)] \<in> set ls \<and> Knows hi_to_7 1 \<in> set ls \<and>
    M 3 = [(1, letter_of hi_to_7)]"
proof -
  let ?x = "snd posted_twice" and ?ls = "map Sends (fst posted_twice)"
  have "path (logic_step mem_stubs) (grouped, []) (fst posted_twice) (fst ?x, snd ?x)"
    unfolding prod.collapse by (rule sched_path) (simp only: posted_twice_def prod.collapse)
  then have p: "path (restart_step mem_stubs (reserved id)) (grouped, []) ?ls (fst ?x, snd ?x)"
    by (rule restart_path_sends)
  have w: "wd_messages fst grouped = []" "wd_redis grouped = (\<lambda>_. None, [Answered, Refused ''read only''])"
    "wd_idgen grouped = fresh_idgen (\<lambda>_. None)"
    by (simp_all add: grouped_def group_of_3_def tables_of_def mem_proxy_def empty_tables_def mem_world_def)
  have g: "idgen_inv map_db id (wd_idgen grouped)" unfolding w(3) by (rule fresh_map_db_inv)
  have "unique_rows []" by (simp add: unique_rows_def)
  with servers_refine_mailboxes [OF mem_ok(1) _ mem_ok(2) g _ _ _ _ _ p] w
  have "path (mail_step (wd_members fst grouped)) (mailboxes []) (map mail_label ?ls) (mailboxes (wd_messages fst (fst ?x)))"
    by (simp add: mem_redis_ok proxy_value_def)
  moreover have "mailboxes [] = (\<lambda>u. [])" by (simp add: mailboxes_def fun_eq_iff)
  moreover have "Accepts hi_to_7 1 [(1, 1), (2, 1), (3, 1)] \<in> set (map mail_label ?ls) \<and>
      Knows hi_to_7 1 \<in> set (map mail_label ?ls) \<and>
      mailboxes (wd_messages fst (fst ?x)) 3 = [(1, letter_of hi_to_7)]"
    by code_simp
  ultimately show ?thesis by metis
qed

section \<open>Reading\<close>

definition letter_read :: "Msg \<Rightarrow> int \<times> letter" where
  "letter_read m = (m_msg_id m, \<lparr>lt_from = m_sender m, lt_group = m_group_id m, lt_text = m_message m, lt_sent = m_client_time m\<rparr>)"

text \<open>
  C40: reading is reading the mailbox: where no row is marked as deleted and times fit 32 bits, an answer of \<open>GetMsgs\<close> has
  exactly the letters of the user's mailbox with ids in the range, each as often as it is there, and
  leaves the mailboxes alone.
\<close>

theorem GetMsgs_reads_the_mailbox:
  assumes ok: "mysql_ok (be_mysql be) view" and g: "GetMsgs be rng db = (db', Inr msgs)"
    and kept: "list_all (\<lambda>r. r_deleted r = 0 \<and> in_i32 (r_client_time r)) (messages view db)"
  shows "mset (map letter_read msgs) = mset (filter (\<lambda>(i, l). ra_start_msg_id rng \<le> i \<and> i \<le> ra_end_msg_id rng)
      (mailboxes (messages view db) (ra_user_id rng))) \<and>
    mailboxes (messages view db') = mailboxes (messages view db)"
proof -
  obtain q rs where s: "sql_messages (be_mysql be) (dp_sql db db_message_connect_pool) (\<lambda>tbl. msgs_where rng) = (q, Inr rs)"
    and msgs: "msgs = map (row_msg (ra_user_id rng)) rs" and db': "db' = set_sql db_message_connect_pool q db"
    using g by (auto simp: GetMsgs_def Let_def ChooseDatabase_def split: prod.splits sum.splits)
  have rs: "mset rs = mset (filter (msgs_where rng) (messages view db))"
    using select_messages(2) [OF ok s] by (simp only: tables_of_def)
  let ?f = "\<lambda>r. (r_msg_id r, letter_in r)"
  from mset_eq_setD [OF rs] kept have "\<forall>r \<in> set rs. in_i32 (r_client_time r)" by (auto simp: list_all_iff)
  then have "map letter_read msgs = map ?f rs" by (simp add: msgs letter_read_def letter_in_def row_msg_def)
  then have "mset (map letter_read msgs) = mset (map ?f (filter (msgs_where rng) (messages view db)))"
    using rs by (metis mset_map)
  moreover have "map ?f (filter (msgs_where rng) xs) =
      filter (\<lambda>(i, l). ra_start_msg_id rng \<le> i \<and> i \<le> ra_end_msg_id rng) (mailboxes xs (ra_user_id rng))"
    if "list_all (\<lambda>r. r_deleted r = 0 \<and> in_i32 (r_client_time r)) xs" for xs
    using that by (induction xs) (auto simp: mailboxes_def msgs_where_def)
  moreover have "messages view db' = messages view db"
    using select_messages(1) [OF ok s] by (simp add: db' tables_of_def set_sql_def)
  ultimately show ?thesis using kept by simp
qed

theorem GetMsgs_reads_the_mailbox_witness:
  "\<exists>msgs. snd (GetMsgs mem_backends \<lparr>ra_user_id = 2, ra_start_msg_id = 2, ra_end_msg_id = 3\<rparr>
      (wd_db (fst (snd (sent_after 1 [99] 100))))) = Inr msgs \<and>
    mset (map letter_read msgs) = mset (map (\<lambda>(i, t). (i, letter_of (message_at t))) [(2, 100)])"
proof -
  let ?rng = "\<lparr>ra_user_id = 2, ra_start_msg_id = 2, ra_end_msg_id = 3\<rparr>" and ?db = "wd_db (fst (snd (sent_after 1 [99] 100)))"
  have "\<not> isl (snd (GetMsgs mem_backends ?rng ?db)) \<and> list_all (\<lambda>r. r_deleted r = 0 \<and> in_i32 (r_client_time r)) (messages fst ?db) \<and>
    filter (\<lambda>(i, l). 2 \<le> i \<and> i \<le> 3) (mailboxes (messages fst ?db) 2) =
      map (\<lambda>(i, t). (i, letter_of (message_at t))) [(2, 100)]" by code_simp
  note n = conjunct1 [OF this] conjunct1 [OF conjunct2 [OF this]] conjunct2 [OF conjunct2 [OF this]]
  from n(1) obtain msgs where r: "GetMsgs mem_backends ?rng ?db = (fst (GetMsgs mem_backends ?rng ?db), Inr msgs)"
    by (cases "GetMsgs mem_backends ?rng ?db"; cases "snd (GetMsgs mem_backends ?rng ?db)") auto
  from GetMsgs_reads_the_mailbox [OF mem_ok(1) r n(2)] n(3) have
    "mset (map letter_read msgs) = mset (map (\<lambda>(i, t). (i, letter_of (message_at t))) [(2, 100)])" by simp
  moreover from r have "snd (GetMsgs mem_backends ?rng ?db) = Inr msgs" by (metis snd_conv)
  ultimately show ?thesis by blast
qed

end
