(* ===== verification/Whole_System.thy ===== *)
theory Whole_System
  imports Answers
begin

text \<open>
  All servers at once: any number of requests in the logic server, its background threads, the
  calls \<^verbatim>\<open>SendtoAccess\<close> that are under way, the access servers with their waiting pulls and
  timers, and users who sign in. Whatever comes in between, a pull is answered only with
  messages that were stored for the user who made it, at a server where that user signed in.
\<close>

section \<open>Configurations and steps\<close>

text \<open>
  The logic server with its threads and the world behind it, the addresses it has a channel for,
  the background threads it has started, the calls they have made, and the access server at each
  address.
\<close>

record ('tm, 'd, 'r, 'q) whole_state =
  ws_logic :: "('d, 'r, 'q) world server"
  ws_access_map :: "string set"
  ws_pushes :: "SendtoPeersArgs list"
  ws_calls :: "(string \<times> Msg) list"
  ws_access :: "string \<Rightarrow> 'tm config"

datatype whole_label =
    SignedIn string SigninData
  | LogicStep send_label
  | PushStep
  | CallStep string Msg
  | AccessStep string label
  | CallOver

text \<open>The background thread that an answer leaves behind.\<close>

fun started :: "send_label \<Rightarrow> SendtoPeersArgs list" where
  "started (Answers nm (Inr (reply, Some args))) = [args]"
| "started _ = []"

abbreviation at_access :: "string \<Rightarrow> 'tm config \<Rightarrow> ('tm, 'd, 'r, 'q) whole_state \<Rightarrow> ('tm, 'd, 'r, 'q) whole_state" where
  "at_access addr c s \<equiv> s\<lparr>ws_access := (ws_access s)(addr := c)\<rparr>"

text \<open>
  A call that is under way may be carried out, more than once where brpc sends it again, and is
  over at any time, carried out or not. A message that a client sends is a heartbeat at its
  access server and an arrival at the logic server, which are steps of their own.
\<close>

inductive whole_step ::
  "('r, 'q) backends \<Rightarrow> 'd leveldb \<Rightarrow> int \<Rightarrow> 'tm timer_ops \<Rightarrow> ('tm \<Rightarrow> nat \<Rightarrow> timer_view) \<Rightarrow> int \<Rightarrow>
   ('tm, 'd, 'r, 'q) whole_state \<Rightarrow> whole_label \<Rightarrow> ('tm, 'd, 'r, 'q) whole_state \<Rightarrow> bool"
  for be ops N tops tview timeout_s where
  whole_sign_in: "to_db (AuthAndSaveSession be (sd\<lparr>sd_access_addr := addr\<rparr>)) w = (w', r) \<Longrightarrow>
    ws_logic s = (w, ts) \<Longrightarrow>
    whole_step be ops N tops tview timeout_s s (SignedIn addr sd) (s\<lparr>ws_logic := (w', ts)\<rparr>)"
| whole_logic: "logic_step (deployed be ops N) (ws_logic s) l x \<Longrightarrow>
    whole_step be ops N tops tview timeout_s s (LogicStep l)
      (s\<lparr>ws_logic := x, ws_pushes := ws_pushes s @ started l\<rparr>)"
| whole_push: "args \<in> set (ws_pushes s) \<Longrightarrow> ws_logic s = (w, ts) \<Longrightarrow>
    SendtoPeers (deployed be ops N) args w (ws_access_map s) = (w', m, Inr calls) \<Longrightarrow>
    whole_step be ops N tops tview timeout_s s PushStep
      (s\<lparr>ws_logic := (w', ts), ws_access_map := m, ws_pushes := remove1 args (ws_pushes s),
         ws_calls := ws_calls s @ calls\<rparr>)"
| whole_call: "(addr, msg) \<in> set (ws_calls s) \<Longrightarrow>
    access_step tops tview timeout_s (ws_access s addr) (Deliver msg) c \<Longrightarrow>
    whole_step be ops N tops tview timeout_s s (CallStep addr msg) (at_access addr c s)"
| whole_over: "whole_step be ops N tops tview timeout_s s CallOver (s\<lparr>ws_calls := remove1 call (ws_calls s)\<rparr>)"
| whole_access: "access_step tops tview timeout_s (ws_access s addr) l c \<Longrightarrow> (\<And>msg. l \<noteq> Deliver msg) \<Longrightarrow>
    whole_step be ops N tops tview timeout_s s (AccessStep addr l) (at_access addr c s)"

definition whole0 :: "('d, 'r, 'q) world \<Rightarrow> 'tm \<Rightarrow> ('tm, 'd, 'r, 'q) whole_state" where
  "whole0 w tm = \<lparr>ws_logic = (w, []), ws_access_map = {}, ws_pushes = [], ws_calls = [],
     ws_access = (\<lambda>addr. (access0 tm, []))\<rparr>"

section \<open>What a message that is pushed comes from\<close>

text \<open>
  A row shows a message: the text is sent as a C string. Rows and pushed messages differ in
  \<^verbatim>\<open>receiver\<close>, which is the group in the rows of a group message.
\<close>

definition shows_row :: "Msg \<Rightarrow> msg_row \<Rightarrow> bool" where
  "shows_row m x \<longleftrightarrow> r_user_id x = m_user_id m \<and> r_msg_id x = m_msg_id m \<and> r_sender x = m_sender m \<and>
     r_group_id x = m_group_id m \<and> c_str (r_message x) = m_message m \<and>
     r_client_time x = m_client_time m \<and> r_msg_time x = m_msg_time m"

definition stored_msg :: "msg_row list \<Rightarrow> Msg \<Rightarrow> bool" where
  "stored_msg rows m \<longleftrightarrow> (\<exists>x \<in> set rows. shows_row m x)"

lemma stored_mono: "set rows \<subseteq> set rows' \<Longrightarrow> stored_msg rows m \<Longrightarrow> stored_msg rows' m"
  unfolding stored_msg_def by blast

definition stored_args :: "msg_row list \<Rightarrow> SendtoPeersArgs \<Rightarrow> bool" where
  "stored_args rows args \<longleftrightarrow> pa_id_request args \<noteq> [] \<and>
     map mi_user_id (pa_id_reply args) = map un_user_id (pa_id_request args) \<and>
     (\<forall>e \<in> set (pa_id_reply args).
        stored_msg rows (peer_msg (pa_new_msg args) (pa_sender args) (mi_user_id e) (mi_start_msg_id e)))"

lemma stored_args_mono: "set rows \<subseteq> set rows' \<Longrightarrow> stored_args rows args \<Longrightarrow> stored_args rows' args"
  unfolding stored_args_def using stored_mono by blast

lemma row_for_shows:
  "row_for nm t e x \<Longrightarrow>
   shows_row (peer_msg (nm\<lparr>nm_msg_time := t\<rparr>) (nm_user_id nm) (mi_user_id e) (mi_start_msg_id e)) x"
  by (auto simp: row_for_def shows_row_def peer_msg_def split: MsgType.splits)

lemma accepted_stored:
  assumes "mysql_ok (be_mysql be) view" "thread_ok t"
    and "advance (deployed be ops N) now t w = (w', Inl (Inr (reply, Some args)))"
  shows "stored_args (wd_messages view w') args"
  using deployed.advance_accepts [where view = view and w = w, OF assms] row_for_shows
  unfolding stored_args_def stored_msg_def by metis

text \<open>The calls of the background thread.\<close>

lemma peer_calls_elem:
  assumes "(addr, m) \<in> set (peer_calls args us ss ids)"
    and "map se_user_id ss = us" "map mi_user_id ids = us"
  obtains s e where "s \<in> set ss" "se_has_session s" "se_addr s = addr" "se_user_id s = m_user_id m" "e \<in> set ids"
    "m = peer_msg (pa_new_msg args) (pa_sender args) (mi_user_id e) (mi_start_msg_id e)"
proof -
  from assms(1) obtain u s e where z: "(u, s, e) \<in> set (zip us (zip ss ids))" "se_has_session s"
    "addr = se_addr s" "m = peer_msg (pa_new_msg args) (pa_sender args) u (mi_start_msg_id e)"
    unfolding peer_calls_def by auto
  from z(1) obtain i where i: "i < length us" "i < length ss" "i < length ids" "us ! i = u" "ss ! i = s" "ids ! i = e"
    by (auto simp: set_zip)
  have "se_user_id s = u" using i arg_cong [OF assms(2), of "\<lambda>l. l ! i"] by simp
  moreover have "mi_user_id e = u" using i arg_cong [OF assms(3), of "\<lambda>l. l ! i"] by simp
  moreover have "s \<in> set ss" "e \<in> set ids" using i by auto
  moreover have "m_user_id m = u" by (simp add: z(4) peer_msg_def)
  ultimately show ?thesis using z(2-4) by (intro that [of s e]) auto
qed

section \<open>Sessions\<close>

text \<open>The users whom redis has a session of have signed in, at that address.\<close>

definition sessions_of :: "(user_id_t \<times> string) set \<Rightarrow> ('r, 'q) backends \<Rightarrow> 'r \<Rightarrow> bool" where
  "sessions_of S be r \<longleftrightarrow> (\<forall>u addr. rd_get (be_redis be) r (session_key u) = Some addr \<longrightarrow> (u, addr) \<in> S)"

lemma sessions_link:
  assumes ok: "redis_ok (be_redis be)" and l: "rd_link (be_redis be) r = (l, r')" and s: "sessions_of S be r"
  shows "sessions_of S be r'"
proof -
  have "\<forall>r l r' k. rd_link (be_redis be) r = (l, r') \<longrightarrow>
      rd_get (be_redis be) r' k = rd_get (be_redis be) r k \<or> rd_get (be_redis be) r' k = None"
    using ok unfolding redis_ok_def by (elim conjE)
  with l s show ?thesis unfolding sessions_of_def by (metis option.distinct(1))
qed

lemma sessions_kept: "redis_ok (be_redis be) \<Longrightarrow> kept_by_proxy be (sessions_of S be)"
  unfolding kept_by_proxy_def
  by (auto intro: sessions_link) (auto simp: sessions_of_def redis_setex_get)

text \<open>A command finds the keys after the time that has passed.\<close>

lemma call_state:
  assumes "redis_CallMethod be cmd db = (db', c)"
  obtains l r1 where "rd_link (be_redis be) (dp_redis db) = (l, r1)" "dp_sql db' = dp_sql db"
    "dp_redis db' = r1 \<or> dp_redis db' = fst (cmd r1)" "l = Answered \<longrightarrow> c = Inr (snd (cmd r1)) \<and> dp_redis db' = fst (cmd r1)"
    "l \<noteq> Answered \<longrightarrow> isl c \<or> (\<exists>e. c = Inr (RError e))"
  using assms unfolding redis_CallMethod_def redis_call_def by (auto split: prod.splits link.splits)

lemma sign_in_state:
  assumes ok: "redis_ok (be_redis be)" and a: "AuthAndSaveSession be sd db = (db', r)"
    and s: "sessions_of S be (dp_redis db)" and i: "(sd_user_id sd, sd_access_addr sd) \<in> S"
  shows "sessions_of S be (dp_redis db')" "dp_sql db' = dp_sql db"
proof -
  let ?cmd = "cmd_set_ex (be_redis be) (session_key (sd_user_id sd)) (sd_access_addr sd) 3600"
  obtain db1 c where c: "redis_CallMethod be ?cmd db = (db1, c)" by fastforce
  with a have db': "db' = db1" by (cases c) (auto simp: AuthAndSaveSession_def)
  from c obtain l r1 where l: "rd_link (be_redis be) (dp_redis db) = (l, r1)" and q: "dp_sql db1 = dp_sql db"
    and r: "dp_redis db1 = r1 \<or> dp_redis db1 = fst (?cmd r1)" by (rule call_state)
  have "sessions_of S be r1" by (rule sessions_link [OF ok l s])
  moreover from this i have "sessions_of S be (fst (?cmd r1))"
    by (auto simp: sessions_of_def cmd_set_ex_def redis_setex_get [OF ok])
  ultimately show "sessions_of S be (dp_redis db')" "dp_sql db' = dp_sql db" using r q db' by auto
qed

lemma get_sessions_state:
  assumes ok: "redis_ok (be_redis be)" and a: "GetSessions be us db = (db', r)" and s: "sessions_of S be (dp_redis db)"
  shows "sessions_of S be (dp_redis db')" "dp_sql db' = dp_sql db"
    and "r = Inr ss \<Longrightarrow> x \<in> set ss \<Longrightarrow> se_has_session x \<Longrightarrow> (se_user_id x, se_addr x) \<in> S"
proof -
  let ?cmd = "cmd_mget (be_redis be) (map session_key us)"
  obtain db1 c where c: "redis_CallMethod be ?cmd db = (db1, c)" by fastforce
  with a have db': "db' = db1" by (cases c) (auto simp: GetSessions_def split: if_splits redis_reply.splits)
  from c obtain l r1 where l: "rd_link (be_redis be) (dp_redis db) = (l, r1)" and q: "dp_sql db1 = dp_sql db"
    and r: "dp_redis db1 = r1 \<or> dp_redis db1 = fst (?cmd r1)"
    and answered: "l = Answered \<longrightarrow> c = Inr (snd (?cmd r1)) \<and> dp_redis db1 = fst (?cmd r1)"
    and other: "l \<noteq> Answered \<longrightarrow> isl c \<or> (\<exists>e. c = Inr (RError e))" by (rule call_state)
  have s1: "sessions_of S be r1" by (rule sessions_link [OF ok l s])
  then show "sessions_of S be (dp_redis db')" "dp_sql db' = dp_sql db"
    using r q db' by (auto simp: cmd_mget_def)
  assume ss: "r = Inr ss" "x \<in> set ss" "se_has_session x"
  have "\<exists>rs. c = Inr (RArray rs) \<and> ss = map to_session (zip us rs)"
    using a c ss by (cases c) (auto simp: GetSessions_def split: if_splits redis_reply.splits)
  then obtain rs where rs: "c = Inr (RArray rs)" "ss = map to_session (zip us rs)" by blast
  then have "l = Answered" using other by (cases "l = Answered") auto
  with answered rs(1) have "rs = map (\<lambda>u. bulk (rd_get (be_redis be) r1 (session_key u))) us"
    by (auto simp: cmd_mget_def comp_def split: if_splits)
  with rs(2) ss(2) obtain u where x: "x = to_session (u, bulk (rd_get (be_redis be) r1 (session_key u)))"
    by (auto simp: zip_map2 set_zip)
  with ss(3) obtain addr where "rd_get (be_redis be) r1 (session_key u) = Some addr"
    "se_user_id x = u" "se_addr x = addr"
    by (auto simp: to_session_def bulk_def split: option.splits)
  with s1 show "(se_user_id x, se_addr x) \<in> S" unfolding sessions_of_def by simp
qed

section \<open>The invariant\<close>

definition delivered_ok :: "(user_id_t \<times> string) set \<Rightarrow> msg_row list \<Rightarrow> string \<Rightarrow> Msg \<Rightarrow> bool" where
  "delivered_ok S rows addr m \<longleftrightarrow> stored_msg rows m \<and> (m_user_id m, addr) \<in> S"

text \<open>\<open>S\<close> has the users who sign in, with the address, \<open>P\<close> the pulls, with their server and user.\<close>

definition whole_ok ::
  "('r, 'q) backends \<Rightarrow> ('q \<Rightarrow> tables) \<Rightarrow> (user_id_t \<times> string) set \<Rightarrow> (string \<times> int \<times> nat) set \<Rightarrow>
   ('tm, 'd, 'r, 'q) whole_state \<Rightarrow> bool" where
  "whole_ok be view S P s \<longleftrightarrow> (let w = fst (ws_logic s); rows = wd_messages view w in
     list_all thread_ok (snd (ws_logic s)) \<and> sessions_of S be (wd_redis w) \<and>
     list_all (stored_args rows) (ws_pushes s) \<and>
     list_all (\<lambda>(addr, m). delivered_ok S rows addr m) (ws_calls s) \<and>
     (\<forall>addr. served {(u, c). (addr, u, c) \<in> P} (delivered_ok S rows addr) (fst (ws_access s addr))))"

lemma delivered_mono: "set rows \<subseteq> set rows' \<Longrightarrow> delivered_ok S rows addr m \<Longrightarrow> delivered_ok S rows' addr m"
  unfolding delivered_ok_def using stored_mono by blast

text \<open>The world and the threads go on to another state that has the rows of this one.\<close>

lemma whole_ok_world:
  assumes "whole_ok be view S P s" "set (wd_messages view (fst (ws_logic s))) \<subseteq> set (wd_messages view w)"
    and "list_all thread_ok ts" "sessions_of S be (wd_redis w)"
  shows "whole_ok be view S P (s\<lparr>ws_logic := (w, ts)\<rparr>)"
  using assms stored_args_mono [OF assms(2)] delivered_mono [OF assms(2)]
  unfolding whole_ok_def Let_def
  by (auto simp: list_all_iff intro: served_mono)

lemma whole_ok_access:
  assumes "whole_ok be view S P s"
    and "served {(u, c). (addr, u, c) \<in> P} (delivered_ok S (wd_messages view (fst (ws_logic s))) addr) (fst c)"
  shows "whole_ok be view S P (at_access addr c s)"
  using assms unfolding whole_ok_def Let_def by simp

lemma advance_world:
  assumes ok: "mysql_ok (be_mysql be) view" "redis_ok (be_redis be)"
    and t: "thread_ok t" and v: "sessions_of S be (wd_redis w)" and a: "advance (deployed be ops N) now t w = (w', r)"
  shows "set (wd_messages view w) \<subseteq> set (wd_messages view w')" "sessions_of S be (wd_redis w')"
    "\<And>t'. r = Inr t' \<Longrightarrow> thread_ok t'"
  using deployed.advance_rows [where view = view and w = w, OF ok(1) t a, unfolded deployed.step_rows_def]
    advance_keeps [OF calls_keep_value [OF sessions_kept [OF ok(2)]] v, of ops N now t] a by auto

lemma logic_ok:
  assumes ok: "mysql_ok (be_mysql be) view" "redis_ok (be_redis be)"
    and s: "whole_ok be view S P s" and l: "logic_step (deployed be ops N) (ws_logic s) l x"
  shows "whole_ok be view S P (s\<lparr>ws_logic := x, ws_pushes := ws_pushes s @ started l\<rparr>)"
  using l
proof (cases rule: logic_step.cases)
  case (arrive w ts nm)
  then show ?thesis using whole_ok_world [OF s, of w "ts @ [Checking nm]"] s
    by (simp add: whole_ok_def Let_def)
next
  case (moves now t w w' t' ts1 ts2)
  have t: "thread_ok t" "list_all thread_ok (ts1 @ ts2)" "sessions_of S be (wd_redis w)"
    using s moves(1) by (simp_all add: whole_ok_def Let_def)
  note A = advance_world [OF ok t(1,3) moves(4)]
  from whole_ok_world [OF s, of w' "ts1 @ t' # ts2"] A t(2) moves(1-3) show ?thesis
    by (simp add: whole_ok_def Let_def)
next
  case (answers now t w w' r ts1 ts2)
  have t: "thread_ok t" "list_all thread_ok (ts1 @ ts2)" "sessions_of S be (wd_redis w)"
    using s answers(1) by (simp_all add: whole_ok_def Let_def)
  note A = advance_world [OF ok t(1,3) answers(4)]
  have "whole_ok be view S P (s\<lparr>ws_logic := x\<rparr>)"
    using whole_ok_world [OF s, of w' "ts1 @ ts2"] A(1,2) t(2) answers(1,3) by simp
  moreover have "list_all (stored_args (wd_messages view w')) (started l)"
    using accepted_stored [OF ok(1) t(1)] answers(2,4) by (cases l rule: started.cases) auto
  ultimately show ?thesis using answers(3) by (simp add: whole_ok_def Let_def)
qed

text \<open>The background thread asks for the sessions and calls the servers that have them.\<close>

lemma messages_sql: "dp_sql db' = dp_sql db \<Longrightarrow> messages view db' = messages view db"
  by (simp add: tables_of_def)

lemma get_sessions_world:
  assumes ok: "redis_ok (be_redis be)" and v: "sessions_of S be (wd_redis w)"
    and g: "st_GetSessions (deployed be ops N) us w = (w', r)"
  shows "sessions_of S be (wd_redis w')" "wd_messages view w' = wd_messages view w"
    and "r = Inr ss \<Longrightarrow> map se_user_id ss = us \<and>
      (\<forall>x \<in> set ss. se_has_session x \<longrightarrow> (se_user_id x, se_addr x) \<in> S)"
proof -
  from g have d: "to_db (GetSessions be us) w = (w', r)" by (simp add: deployed_def)
  then have "sessions_of S be (wd_redis w') \<and> wd_messages view w' = wd_messages view w"
  proof (cases rule: to_db_cases)
    case (run db res)
    note G = get_sessions_state(1,2) [OF ok run(1) v]
    from G(1) messages_sql [OF G(2), of view] run(2) show ?thesis by simp
  qed (use v in simp)
  then show "sessions_of S be (wd_redis w')" "wd_messages view w' = wd_messages view w" by auto
  assume "r = Inr ss"
  with d have "GetSessions be us (wd_db w) = (wd_db w', Inr ss)" by (auto dest: to_db_Inr)
  with sessions_users [OF this] get_sessions_state(3) [OF ok this v]
  show "map se_user_id ss = us \<and> (\<forall>x \<in> set ss. se_has_session x \<longrightarrow> (se_user_id x, se_addr x) \<in> S)" by blast
qed

lemma push_ok:
  assumes ok: "redis_ok (be_redis be)" and v: "sessions_of S be (wd_redis w)"
    and args: "stored_args (wd_messages view w) args"
    and p: "SendtoPeers (deployed be ops N) args w m = (w', m', Inr calls)"
  shows "sessions_of S be (wd_redis w')" "wd_messages view w' = wd_messages view w"
    and "list_all (\<lambda>(addr, msg). delivered_ok S (wd_messages view w) addr msg) calls"
proof -
  let ?us = "map un_user_id (drop 1 (pa_id_request args))" and ?ids = "drop 1 (pa_id_reply args)"
  obtain w1 r where g: "st_GetSessions (deployed be ops N) ?us w = (w1, r)" by fastforce
  have w1: "w' = w1" using p g by (auto simp: SendtoPeers_def Let_def split: sum.splits err.splits prod.splits)
  note G = get_sessions_world [OF ok v g]
  from G(1,2) w1 show "sessions_of S be (wd_redis w')" "wd_messages view w' = wd_messages view w" by auto
  from args have fit: "pa_id_request args \<noteq> []"
    "map mi_user_id (pa_id_reply args) = map un_user_id (pa_id_request args)"
    and st: "\<And>e. e \<in> set (pa_id_reply args) \<Longrightarrow>
      stored_msg (wd_messages view w) (peer_msg (pa_new_msg args) (pa_sender args) (mi_user_id e) (mi_start_msg_id e))"
    unfolding stored_args_def by auto
  have len: "length (pa_id_reply args) = length (pa_id_request args)" using arg_cong [OF fit(2), of length] by simp
  have ids: "map mi_user_id ?ids = ?us" using arg_cong [OF fit(2), of "drop 1"] by (simp add: drop_map)
  show "list_all (\<lambda>(addr, msg). delivered_ok S (wd_messages view w) addr msg) calls"
  proof (cases r)
    case (Inl e)
    with p g have "calls = []" by (cases e) (auto simp: SendtoPeers_def Let_def)
    then show ?thesis by simp
  next
    case (Inr ss)
    note ss = G(3) [OF Inr]
    from arg_cong [OF conjunct1 [OF ss], of length] have "length ss = length (pa_id_request args) - 1" by simp
    from SendtoPeers_eq [OF g [unfolded Inr] this len fit(1)] p have calls: "calls = peer_calls args ?us ss ?ids" by simp
    have "delivered_ok S (wd_messages view w) addr msg" if "(addr, msg) \<in> set calls" for addr msg
      using that [unfolded calls] conjunct1 [OF ss] ids
    proof (rule peer_calls_elem)
      fix x e
      assume x: "x \<in> set ss" "se_has_session x" "se_addr x = addr" "se_user_id x = m_user_id msg" "e \<in> set ?ids"
        and m: "msg = peer_msg (pa_new_msg args) (pa_sender args) (mi_user_id e) (mi_start_msg_id e)"
      have "stored_msg (wd_messages view w) msg" using st [OF in_set_dropD [OF x(5)]] m by simp
      with ss x show "delivered_ok S (wd_messages view w) addr msg" unfolding delivered_ok_def by metis
    qed
    then show ?thesis by (auto simp: list_all_iff)
  qed
qed

section \<open>Steps and runs\<close>

fun signs :: "(user_id_t \<times> string) set \<Rightarrow> (string \<times> int \<times> nat) set \<Rightarrow> whole_label \<Rightarrow> bool" where
  "signs S P (SignedIn addr sd) = ((sd_user_id sd, addr) \<in> S)"
| "signs S P (AccessStep addr (Pull now u c)) = ((addr, u, c) \<in> P)"
| "signs S P _ = True"

lemma list_all_remove1: "list_all Q xs \<Longrightarrow> list_all Q (remove1 x xs)"
  using set_remove1_subset [of x xs] by (auto simp: list_all_iff)

lemma whole_step_ok:
  assumes ok: "mysql_ok (be_mysql be) view" "redis_ok (be_redis be)"
    and step: "whole_step be ops N tops tview timeout_s s l s'" and s: "whole_ok be view S P s" and l: "signs S P l"
  shows "whole_ok be view S P s'"
  using step
proof (cases rule: whole_step.cases)
  case (whole_sign_in addr sd w w' r ts)
  have v: "sessions_of S be (wd_redis w)" using s whole_sign_in(4) by (simp add: whole_ok_def Let_def)
  from whole_sign_in(3) have "sessions_of S be (wd_redis w') \<and> wd_messages view w' = wd_messages view w"
  proof (cases rule: to_db_cases)
    case (run db res)
    have "(sd_user_id (sd\<lparr>sd_access_addr := addr\<rparr>), sd_access_addr (sd\<lparr>sd_access_addr := addr\<rparr>)) \<in> S"
      using l whole_sign_in(1) by simp
    note G = sign_in_state [OF ok(2) run(1) v this]
    from G(1) messages_sql [OF G(2), of view] run(2) show ?thesis by simp
  qed (use v in simp)
  with whole_ok_world [OF s, of w' ts] s whole_sign_in(2,4) show ?thesis by (simp add: whole_ok_def Let_def)
next
  case (whole_logic l x)
  with logic_ok [OF ok s] show ?thesis by simp
next
  case (whole_push args w ts w' m calls)
  have v: "sessions_of S be (wd_redis w)" "stored_args (wd_messages view w) args"
    using s whole_push(3,4) by (simp_all add: whole_ok_def Let_def list_all_iff)
  note p = push_ok [OF ok(2) v whole_push(5)]
  have "list_all (stored_args (wd_messages view w)) (remove1 args (ws_pushes s))"
    using s whole_push(4) by (simp add: whole_ok_def Let_def list_all_remove1)
  with s p whole_push(2,4) show ?thesis by (simp add: whole_ok_def Let_def)
next
  case (whole_call addr msg c)
  have d: "served {(u, c). (addr, u, c) \<in> P} (delivered_ok S (wd_messages view (fst (ws_logic s))) addr)
      (fst (ws_access s addr))" "delivered_ok S (wd_messages view (fst (ws_logic s))) addr msg"
    using s whole_call(3) by (auto simp: whole_ok_def Let_def list_all_iff)
  show ?thesis unfolding whole_call(2)
    by (rule whole_ok_access [OF s], rule access_step_served [OF whole_call(4) d(1)]) (use d(2) in auto)
next
  case (whole_over call)
  then show ?thesis using s by (simp add: whole_ok_def Let_def list_all_remove1)
next
  case (whole_access addr l' c)
  have d: "served {(u, c). (addr, u, c) \<in> P} (delivered_ok S (wd_messages view (fst (ws_logic s))) addr)
      (fst (ws_access s addr))" using s by (simp add: whole_ok_def Let_def)
  show ?thesis unfolding whole_access(2)
    by (rule whole_ok_access [OF s], rule access_step_served [OF whole_access(3) d]) (use l whole_access(1,4) in auto)
qed

lemma whole_path_ok:
  assumes ok: "mysql_ok (be_mysql be) view" "redis_ok (be_redis be)"
  shows "path (whole_step be ops N tops tview timeout_s) s ls s' \<Longrightarrow> whole_ok be view S P s \<Longrightarrow>
    list_all (signs S P) ls \<Longrightarrow> whole_ok be view S P s'"
proof (induction rule: path.induct)
  case (path_Cons s l s1 ls s')
  have "whole_ok be view S P s1"
    by (rule whole_step_ok [OF ok path_Cons.hyps(1) path_Cons.prems(1)]) (use path_Cons.prems(2) in simp)
  with path_Cons.IH path_Cons.prems(2) show ?case by simp
qed simp

lemma whole0_ok:
  assumes "\<And>u. rd_get (be_redis be) (wd_redis w) (session_key u) = None"
  shows "whole_ok be view S P (whole0 w tm)"
  using assms by (simp add: whole_ok_def whole0_def Let_def sessions_of_def served_def access0_def
      data_ok_def waits_def entry_def)

section \<open>What a pull is answered with\<close>

text \<open>
  C6: in every run of the whole system, over any interleaving of requests, background threads,
  repeated and lost calls, pulls, heartbeats, timers and sign-ins, each message in the answer of
  a pull is a row of the table that belongs to the user who made this very pull, under the same
  id, with the same sender, group, times and text (up to a NUL); and that user signed in at the
  access server that answers. Nobody is ever handed a message that is not theirs, or that is not
  stored.
\<close>

theorem pulls_deliver_only_stored_messages:
  assumes ok: "mysql_ok (be_mysql be) view" "redis_ok (be_redis be)"
    and fresh: "\<And>u. rd_get (be_redis be) (wd_redis w) (session_key u) = None"
    and p: "path (whole_step be ops N tops tview timeout_s) (whole0 w tm) ls s"
    and m: "m \<in> set (responses (fst (ws_access s addr)) c)"
  shows "\<exists>x \<in> set (wd_messages view (fst (ws_logic s))). shows_row m x \<and>
    (\<exists>now. AccessStep addr (Pull now (r_user_id x) c) \<in> set ls) \<and>
    (\<exists>sd. SignedIn addr sd \<in> set ls \<and> sd_user_id sd = r_user_id x)"
proof -
  let ?S = "{(sd_user_id sd, addr) | sd addr. SignedIn addr sd \<in> set ls}"
  let ?P = "{(addr, u, c) | addr now u c. AccessStep addr (Pull now u c) \<in> set ls}"
  have "signs ?S ?P l" if "l \<in> set ls" for l
    using that by (cases "(?S, ?P, l)" rule: signs.cases) auto
  then have "list_all (signs ?S ?P) ls" by (simp add: list_all_iff)
  from whole_path_ok [OF ok p whole0_ok this] fresh
  have "served {(u, c). (addr, u, c) \<in> ?P} (delivered_ok ?S (wd_messages view (fst (ws_logic s))) addr)
      (fst (ws_access s addr))" unfolding whole_ok_def Let_def by blast
  with m have "(m_user_id m, c) \<in> {(u, c). (addr, u, c) \<in> ?P}"
    "delivered_ok ?S (wd_messages view (fst (ws_logic s))) addr m" unfolding served_def by blast+
  then show ?thesis unfolding delivered_ok_def stored_msg_def by (fastforce simp: shows_row_def)
qed

section \<open>A run to evaluate\<close>

text \<open>What happens next, for an executable scheduler: each choice is one step, when it can be made.\<close>

datatype wchoice = DoSign string SigninData | DoTake NewMsg | DoGo nat int | DoPush nat | DoCall nat | DoAccess string label

fun access_try :: "'tm timer_ops \<Rightarrow> int \<Rightarrow> label \<Rightarrow> 'tm config \<Rightarrow> 'tm config option" where
  "access_try tops timeout_s (Pull now u c) (s, hs) =
     (case PullData tops timeout_s now u c s of Inl f \<Rightarrow> None | Inr s' \<Rightarrow> Some (s', hs))"
| "access_try tops timeout_s (Beat now u) (s, hs) =
     (case HeartBeat tops timeout_s now u s of Inl f \<Rightarrow> None | Inr s' \<Rightarrow> Some (s', hs))"
| "access_try tops timeout_s (Deliver m) (s, hs) =
     (case SendtoAccess m s of Inl f \<Rightarrow> None | Inr s' \<Rightarrow> Some (s', hs))"
| "access_try tops timeout_s _ x = None"

lemma access_try_step: "access_try tops timeout_s l x = Some y \<Longrightarrow> access_step tops view timeout_s x l y"
  by (cases "(tops, timeout_s, l, x)" rule: access_try.cases)
    (auto split: sum.splits intro: access_step.intros)

fun whole_try ::
  "('r, 'q) backends \<Rightarrow> 'd leveldb \<Rightarrow> int \<Rightarrow> 'tm timer_ops \<Rightarrow> int \<Rightarrow> wchoice \<Rightarrow>
   ('tm, 'd, 'r, 'q) whole_state \<Rightarrow> (whole_label \<times> ('tm, 'd, 'r, 'q) whole_state) option" where
  "whole_try be ops N tops timeout_s (DoSign addr sd) s =
     (case to_db (AuthAndSaveSession be (sd\<lparr>sd_access_addr := addr\<rparr>)) (fst (ws_logic s)) of
        (w, r) \<Rightarrow> Some (SignedIn addr sd, s\<lparr>ws_logic := (w, snd (ws_logic s))\<rparr>))"
| "whole_try be ops N tops timeout_s (DoTake nm) s =
     Some (LogicStep (Arrive nm), s\<lparr>ws_logic := (fst (ws_logic s), snd (ws_logic s) @ [Checking nm]),
       ws_pushes := ws_pushes s @ []\<rparr>)"
| "whole_try be ops N tops timeout_s (DoGo i now) s =
     (case sched (deployed be ops N) [Go i now] (ws_logic s) of
        ([l], x) \<Rightarrow> Some (LogicStep l, s\<lparr>ws_logic := x, ws_pushes := ws_pushes s @ started l\<rparr>)
      | _ \<Rightarrow> None)"
| "whole_try be ops N tops timeout_s (DoPush i) s =
     (if length (ws_pushes s) \<le> i then None
      else (case SendtoPeers (deployed be ops N) (ws_pushes s ! i) (fst (ws_logic s)) (ws_access_map s) of
          (w, m, Inr calls) \<Rightarrow> Some (PushStep, s\<lparr>ws_logic := (w, snd (ws_logic s)), ws_access_map := m,
            ws_pushes := remove1 (ws_pushes s ! i) (ws_pushes s), ws_calls := ws_calls s @ calls\<rparr>)
        | _ \<Rightarrow> None))"
| "whole_try be ops N tops timeout_s (DoCall i) s =
     (if length (ws_calls s) \<le> i then None
      else (case ws_calls s ! i of (addr, m) \<Rightarrow>
          (case access_try tops timeout_s (Deliver m) (ws_access s addr) of
             None \<Rightarrow> None | Some c \<Rightarrow> Some (CallStep addr m, at_access addr c s))))"
| "whole_try be ops N tops timeout_s (DoAccess addr l) s =
     (case l of Deliver m \<Rightarrow> None
      | _ \<Rightarrow> (case access_try tops timeout_s l (ws_access s addr) of
             None \<Rightarrow> None | Some c \<Rightarrow> Some (AccessStep addr l, at_access addr c s)))"

lemma path1E: "path step s [l] s' \<Longrightarrow> step s l s'"
  by (auto simp: path_simps)

lemma whole_try_step:
  assumes "whole_try be ops N tops timeout_s c s = Some (l, s')"
  shows "whole_step be ops N tops tview timeout_s s l s'"
proof (cases c)
  case (DoSign addr sd)
  with assms show ?thesis
    by (auto split: prod.splits intro: whole_sign_in [of _ _ _ _ _ _ s "snd (ws_logic s)"])
next
  case (DoTake nm)
  have "logic_step (deployed be ops N) (ws_logic s) (Arrive nm) (fst (ws_logic s), snd (ws_logic s) @ [Checking nm])"
    using logic_step.arrive [of _ "fst (ws_logic s)" "snd (ws_logic s)"] by simp
  from whole_logic [OF this] assms DoTake show ?thesis by auto
next
  case (DoGo i now)
  then obtain x where g: "sched (deployed be ops N) [Go i now] (ws_logic s) = ([case l of LogicStep k \<Rightarrow> k], x)"
    and l: "l = LogicStep (case l of LogicStep k \<Rightarrow> k)"
    and s': "s' = s\<lparr>ws_logic := x, ws_pushes := ws_pushes s @ started (case l of LogicStep k \<Rightarrow> k)\<rparr>"
    using assms by (auto simp del: sched.simps split: prod.splits list.splits)
  from whole_logic [OF path1E [OF sched_path [OF g]]] s' l show ?thesis by metis
next
  case (DoPush i)
  then obtain w m calls where a: "ws_pushes s ! i \<in> set (ws_pushes s)" "l = PushStep"
    "SendtoPeers (deployed be ops N) (ws_pushes s ! i) (fst (ws_logic s)) (ws_access_map s) = (w, m, Inr calls)"
    and s': "s' = s\<lparr>ws_logic := (w, snd (ws_logic s)), ws_access_map := m,
      ws_pushes := remove1 (ws_pushes s ! i) (ws_pushes s), ws_calls := ws_calls s @ calls\<rparr>"
    using assms by (auto split: if_splits prod.splits sum.splits)
  show ?thesis unfolding s' a(2) by (rule whole_push) (use a in auto)
next
  case (DoCall i)
  obtain addr m where am: "ws_calls s ! i = (addr, m)" by fastforce
  from DoCall assms am obtain c where a: "i < length (ws_calls s)" "l = CallStep addr m"
    "access_try tops timeout_s (Deliver m) (ws_access s addr) = Some c" and s': "s' = at_access addr c s"
    by (cases "access_try tops timeout_s (Deliver m) (ws_access s addr)")
      (simp_all del: access_try.simps split: if_splits)
  from nth_mem [OF a(1)] am have "(addr, m) \<in> set (ws_calls s)" by simp
  then show ?thesis unfolding s' a(2) by (rule whole_call [OF _ access_try_step [OF a(3)]])
next
  case (DoAccess addr k)
  with assms show ?thesis
    by (auto simp del: access_try.simps split: label.splits option.splits intro!: whole_access access_try_step)
qed

fun whole_run ::
  "('r, 'q) backends \<Rightarrow> 'd leveldb \<Rightarrow> int \<Rightarrow> 'tm timer_ops \<Rightarrow> int \<Rightarrow> wchoice list \<Rightarrow>
   ('tm, 'd, 'r, 'q) whole_state \<Rightarrow> whole_label list \<times> ('tm, 'd, 'r, 'q) whole_state" where
  "whole_run be ops N tops timeout_s [] s = ([], s)"
| "whole_run be ops N tops timeout_s (c # cs) s =
     (case whole_try be ops N tops timeout_s c s of
        None \<Rightarrow> whole_run be ops N tops timeout_s cs s
      | Some (l, s') \<Rightarrow> (case whole_run be ops N tops timeout_s cs s' of (ls, s'') \<Rightarrow> (l # ls, s'')))"

lemma whole_run_path:
  "whole_run be ops N tops timeout_s cs s = (ls, s') \<Longrightarrow> path (whole_step be ops N tops tview timeout_s) s ls s'"
proof (induction cs arbitrary: s ls)
  case (Cons c cs)
  then show ?case
    by (auto simp del: whole_try.simps split: option.splits prod.splits intro: path_Cons whole_try_step)
qed (simp add: path_Nil)

text \<open>User 2 signs in at server A and waits there; user 1 sends a message; it is pushed.\<close>

abbreviation sign_in_2 :: SigninData where
  "sign_in_2 \<equiv> \<lparr>sd_user_id = 2, sd_password = ''x'', sd_client_timestamp = 0, sd_access_addr = []\<rparr>"

abbreviation whole_choices :: "wchoice list" where
  "whole_choices \<equiv> [DoSign ''A'' sign_in_2, DoAccess ''A'' (Pull 1 2 7), DoTake hi_to_2,
     DoGo 0 100, DoGo 0 100, DoGo 0 100, DoGo 0 100, DoPush 0, DoCall 0, DoCall 0]"

definition whole_example :: "whole_label list \<times> (mem_timers, string \<Rightarrow> string option, mem_redis_state, mem_sql) whole_state" where
  "whole_example = whole_run mem_backends map_db 4 mem_timers_ops 400 whole_choices
     (whole0 (mem_world empty_tables (\<lambda>_. None)) no_timers)"

theorem pulls_deliver_only_stored_messages_witness:
  "map m_message (responses (fst (ws_access (snd whole_example) ''A'')) 7) = [''hi''] \<and>
   (\<exists>x \<in> set (wd_messages fst (fst (ws_logic (snd whole_example)))). r_user_id x = 2 \<and> r_message x = ''hi'' \<and>
      (\<exists>now. AccessStep ''A'' (Pull now 2 7) \<in> set (fst whole_example)))"
proof -
  have n: "map m_message (responses (fst (ws_access (snd whole_example) ''A'')) 7) = [''hi'']"
    "map m_user_id (responses (fst (ws_access (snd whole_example) ''A'')) 7) = [2]"
    "list_all (\<lambda>x. r_message x = ''hi'') (wd_messages fst (fst (ws_logic (snd whole_example))))" by code_simp+
  then obtain m where m: "m \<in> set (responses (fst (ws_access (snd whole_example) ''A'')) 7)" "m_user_id m = 2"
    by (cases "responses (fst (ws_access (snd whole_example) ''A'')) 7") auto
  have p: "path (whole_step mem_backends map_db 4 mem_timers_ops mem_view 400)
      (whole0 (mem_world empty_tables (\<lambda>_. None)) no_timers) (fst whole_example) (snd whole_example)"
    by (rule whole_run_path) (simp only: whole_example_def prod.collapse)
  have ok: "redis_ok (be_redis mem_backends)" by (simp add: mem_redis_ok)
  have f: "rd_get (be_redis mem_backends) (wd_redis (mem_world empty_tables (\<lambda>_. None))) (session_key u) = None" for u
    by simp
  from pulls_deliver_only_stored_messages [OF mem_ok(1) ok f p m(1)] m(2) n show ?thesis
    by (auto simp: shows_row_def list_all_iff)
qed

end
