(* ===== verification/Whole_Claims.thy ===== *)
theory Whole_Claims
  imports Whole_System
begin

text \<open>
  What the whole system keeps and what it does not: an accepted message can be read by each of
  its receivers for ever, but pushes may overtake each other.
\<close>

section \<open>Accepted messages stay\<close>

abbreviation ws_rows :: "('q \<Rightarrow> tables) \<Rightarrow> ('tm, 'd, 'r, 'q) whole_state \<Rightarrow> msg_row list" where
  "ws_rows view s \<equiv> wd_messages view (fst (ws_logic s))"

lemma logic_rows:
  assumes ok: "mysql_ok (be_mysql be) view" "redis_ok (be_redis be)"
    and t: "list_all thread_ok (snd x)" and l: "logic_step (deployed be ops N) x l y"
  shows "set (wd_messages view (fst x)) \<subseteq> set (wd_messages view (fst y)) \<and>
    (\<forall>nm reply args. l = Answers nm (Inr (reply, Some args)) \<longrightarrow> accepted_rows (wd_messages view (fst y)) nm args)"
  using l
proof (cases rule: logic_step.cases)
  case (moves now t w w' t' ts1 ts2)
  have "thread_ok t" using assms(3) moves(1) by simp
  from deployed.advance_rows [where view = view and w = w, OF ok(1) this moves(4), unfolded deployed.step_rows_def]
  show ?thesis using moves(1-3) by auto
next
  case (answers now t w w' r ts1 ts2)
  have th: "thread_ok t" using assms(3) answers(1) by simp
  have "set (wd_messages view w) \<subseteq> set (wd_messages view w')"
    using deployed.advance_rows [where view = view and w = w, OF ok(1) th answers(4), unfolded deployed.step_rows_def] by auto
  moreover have "accepted_rows (wd_messages view w') (thread_msg t) args" if "r = Inr (reply, Some args)" for reply args
    using deployed.advance_accepts(5-7) [where view = view and w = w, OF ok(1) th answers(4) [unfolded that]]
    unfolding accepted_rows_def by blast
  ultimately show ?thesis using answers(1-3) by auto
qed simp

lemma whole_step_rows:
  assumes ok: "mysql_ok (be_mysql be) view" "redis_ok (be_redis be)"
    and step: "whole_step be ops N tops tview timeout_s s l s'" and s: "whole_ok be view UNIV UNIV s"
  shows "set (ws_rows view s) \<subseteq> set (ws_rows view s') \<and>
    (\<forall>nm reply args. l = LogicStep (Answers nm (Inr (reply, Some args))) \<longrightarrow> accepted_rows (ws_rows view s') nm args)"
  using step
proof (cases rule: whole_step.cases)
  case (whole_sign_in addr sd w w' r ts)
  from whole_sign_in(3) have "wd_messages view w' = wd_messages view w"
  proof (cases rule: to_db_cases)
    case (run db res)
    have "sessions_of UNIV be (wd_redis w)" by (simp add: sessions_of_def)
    from sign_in_state(2) [OF ok(2) run(1) this] have "dp_sql db = dp_sql (wd_db w)" by simp
    from messages_sql [OF this] run(2) show ?thesis by simp
  qed simp
  with whole_sign_in(1,2,4) show ?thesis by simp
next
  case (whole_logic l' x)
  have "list_all thread_ok (snd (ws_logic s))" using s by (simp add: whole_ok_def Let_def)
  from logic_rows [OF ok this whole_logic(3)] whole_logic(1,2) show ?thesis by simp
next
  case (whole_push args w ts w' m calls)
  have v: "sessions_of UNIV be (wd_redis w)" "stored_args (wd_messages view w) args"
    using s whole_push(3,4) by (simp_all add: whole_ok_def Let_def list_all_iff)
  from push_ok(2) [OF ok(2) v whole_push(5)] whole_push(1,2,4) show ?thesis by simp
qed simp_all

lemma signs_UNIV: "signs UNIV UNIV l"
  by (cases "(UNIV :: (user_id_t \<times> string) set, UNIV :: (string \<times> int \<times> nat) set, l)" rule: signs.cases) auto

lemma whole_path_rows:
  assumes ok: "mysql_ok (be_mysql be) view" "redis_ok (be_redis be)"
  shows "path (whole_step be ops N tops tview timeout_s) s ls s' \<Longrightarrow> whole_ok be view UNIV UNIV s \<Longrightarrow>
    set (ws_rows view s) \<subseteq> set (ws_rows view s') \<and>
    (\<forall>nm reply args. LogicStep (Answers nm (Inr (reply, Some args))) \<in> set ls \<longrightarrow>
       accepted_rows (ws_rows view s') nm args)"
proof (induction rule: path.induct)
  case (path_Cons s l s1 ls s')
  note S = whole_step_rows [OF ok path_Cons.hyps(1) path_Cons.prems]
  note IH = path_Cons.IH [OF whole_step_ok [OF ok path_Cons.hyps(1) path_Cons.prems signs_UNIV]]
  have "accepted_rows (ws_rows view s') nm args"
    if "LogicStep (Answers nm (Inr (reply, Some args))) \<in> set (l # ls)" for nm reply args
    using that IH S accepted_rows_mono [of "ws_rows view s1" "ws_rows view s'" nm args] by auto
  then show ?case using S IH by blast
qed simp

lemma whole0_any: "whole_ok be view UNIV UNIV (whole0 w tm)"
  by (simp add: whole_ok_def whole0_def Let_def sessions_of_def served_def access0_def
      data_ok_def waits_def entry_def)

text \<open>
  C7: no accepted message is lost: whatever the whole system does after the logic server has
  answered a message as new, whether it was pushed, dropped on the way or delivered to nobody,
  each user it was given an id for (the sender, and the receiver of a private message, always
  among them) reads it back from the proxy under that id whenever a request for a range with the
  id is answered.
\<close>

theorem accepted_messages_stay_readable:
  assumes ok: "mysql_ok (be_mysql be) view" "redis_ok (be_redis be)"
    and p: "path (whole_step be ops N tops tview timeout_s) (whole0 w tm) ls s"
    and a: "LogicStep (Answers nm (Inr (reply, Some args))) \<in> set ls"
    and e: "e \<in> set (pa_id_reply args)" "lo \<le> mi_start_msg_id e" "mi_start_msg_id e \<le> up"
    and g: "GetMsgs be \<lparr>ra_user_id = mi_user_id e, ra_start_msg_id = lo, ra_end_msg_id = up\<rparr> (wd_db (fst (ws_logic s))) =
      (db, Inr msgs)"
  shows "(\<exists>m \<in> set msgs. m_msg_id m = mi_start_msg_id e \<and> m_sender m = nm_user_id nm \<and> m_message m = nm_message nm) \<and>
    nm_user_id nm \<in> mi_user_id ` set (pa_id_reply args) \<and>
    (nm_msg_type nm = PRIVATE \<longrightarrow> nm_peer_id nm \<in> mi_user_id ` set (pa_id_reply args))"
proof -
  let ?range = "\<lparr>ra_user_id = mi_user_id e, ra_start_msg_id = lo, ra_end_msg_id = up\<rparr>" and ?db = "wd_db (fst (ws_logic s))"
  from whole_path_rows [OF ok p whole0_any] a have acc: "accepted_rows (ws_rows view s) nm args" by blast
  then obtain t x where x: "x \<in> set (ws_rows view s)" "row_for nm t e x" using e(1) unfolding accepted_rows_def by blast
  obtain q rs where s: "sql_messages (be_mysql be) (dp_sql ?db db_message_connect_pool) (\<lambda>tbl. msgs_where ?range) = (q, Inr rs)"
    and msgs: "msgs = map (row_msg (mi_user_id e)) rs"
    using g by (auto simp: GetMsgs_def Let_def ChooseDatabase_def split: prod.splits sum.splits)
  have "mset rs = mset (filter (msgs_where ?range) (ws_rows view s))"
    using select_messages(2) [OF ok(1) s] by (simp only: tables_of_def)
  from mset_eq_setD [OF this] have "set rs = {y \<in> set (ws_rows view s). msgs_where ?range y}" by simp
  moreover have "msgs_where ?range x" using x(2) e(2,3) by (simp add: msgs_where_def row_for_def)
  ultimately have "x \<in> set rs" using x(1) by simp
  then have "row_msg (mi_user_id e) x \<in> set msgs" by (simp add: msgs)
  moreover have "m_msg_id (row_msg (mi_user_id e) x) = mi_start_msg_id e"
    "m_sender (row_msg (mi_user_id e) x) = nm_user_id nm" "m_message (row_msg (mi_user_id e) x) = nm_message nm"
    using x(2) by (simp_all add: row_for_def row_msg_def)
  ultimately show ?thesis using acc unfolding accepted_rows_def by blast
qed

text \<open>The message of the example, pushed or not.\<close>

fun accepted_ids :: "whole_label list \<Rightarrow> MsgIds list list" where
  "accepted_ids (LogicStep (Answers nm (Inr (reply, Some args))) # ls) =
     (if nm = hi_to_2 then pa_id_reply args # accepted_ids ls else accepted_ids ls)"
| "accepted_ids (l # ls) = accepted_ids ls"
| "accepted_ids [] = []"

lemma accepted_idsD: "ids \<in> set (accepted_ids ls) \<Longrightarrow>
    \<exists>reply args. LogicStep (Answers hi_to_2 (Inr (reply, Some args))) \<in> set ls \<and> pa_id_reply args = ids"
  by (induction ls rule: accepted_ids.induct) (auto split: if_splits)

definition read_back :: "(mem_redis_state, mem_sql) dbproxy \<times> Msg list result" where
  "read_back = GetMsgs mem_backends \<lparr>ra_user_id = 2, ra_start_msg_id = 0, ra_end_msg_id = 100000\<rparr>
     (wd_db (fst (ws_logic (snd whole_example))))"

lemma whole_example_path: "path (whole_step mem_backends map_db 4 mem_timers_ops mem_view 400)
    (whole0 (mem_world empty_tables (\<lambda>_. None)) no_timers) (fst whole_example) (snd whole_example)"
  by (rule whole_run_path) (simp only: whole_example_def prod.collapse)

theorem accepted_messages_stay_readable_witness:
  "\<exists>m \<in> set (projr (snd read_back)). m_msg_id m = 1 \<and> m_message m = ''hi''"
proof -
  have n: "accepted_ids (fst whole_example) =
      [[\<lparr>mi_user_id = 1, mi_start_msg_id = 1, mi_msg_id_num = 1\<rparr>, \<lparr>mi_user_id = 2, mi_start_msg_id = 1, mi_msg_id_num = 1\<rparr>]]"
    "\<not> isl (snd read_back)" by code_simp+
  then obtain reply args where a: "LogicStep (Answers hi_to_2 (Inr (reply, Some args))) \<in> set (fst whole_example)"
    and ids: "pa_id_reply args = [\<lparr>mi_user_id = 1, mi_start_msg_id = 1, mi_msg_id_num = 1\<rparr>,
      \<lparr>mi_user_id = 2, mi_start_msg_id = 1, mi_msg_id_num = 1\<rparr>]"
    using accepted_idsD [of _ "fst whole_example"] by fastforce
  let ?e = "\<lparr>mi_user_id = 2, mi_start_msg_id = 1, mi_msg_id_num = 1\<rparr>"
  have g: "GetMsgs mem_backends \<lparr>ra_user_id = mi_user_id ?e, ra_start_msg_id = 0, ra_end_msg_id = 100000\<rparr>
      (wd_db (fst (ws_logic (snd whole_example)))) = (fst read_back, Inr (projr (snd read_back)))"
    using n(2) by (simp add: read_back_def [symmetric] prod_eq_iff)
  have ok: "redis_ok (be_redis mem_backends)" by (simp add: mem_redis_ok)
  from accepted_messages_stay_readable [OF mem_ok(1) ok whole_example_path a _ _ _ g] ids show ?thesis by auto
qed

section \<open>Pushes may overtake each other\<close>

text \<open>
  User 1 sends two messages, one after the other has been answered. Each has a background thread
  of its own, and nothing orders the calls that the two threads make.
\<close>

abbreviation bye_to_2 :: NewMsg where
  "bye_to_2 \<equiv> \<lparr>nm_user_id = 1, nm_peer_id = 2, nm_msg_type = PRIVATE, nm_message = ''bye'',
     nm_client_time = 100, nm_msg_time = 0\<rparr>"

abbreviation overtaking :: "wchoice list" where
  "overtaking \<equiv> [DoSign ''A'' sign_in_2, DoAccess ''A'' (Pull 1 2 7),
     DoTake hi_to_2, DoGo 0 100, DoGo 0 100, DoGo 0 100, DoGo 0 100,
     DoTake bye_to_2, DoGo 0 101, DoGo 0 101, DoGo 0 101, DoGo 0 101,
     DoPush 1, DoCall 0, DoAccess ''A'' (Pull 2 2 8), DoPush 0, DoCall 1]"

definition overtaken :: "whole_label list \<times> (mem_timers, string \<Rightarrow> string option, mem_redis_state, mem_sql) whole_state" where
  "overtaken = whole_run mem_backends map_db 4 mem_timers_ops 400 overtaking
     (whole0 (mem_world empty_tables (\<lambda>_. None)) no_timers)"

text \<open>What can be seen of a run: who signs in, what is sent and how it is answered, the pulls, the
  calls of the access servers that are carried out, and everything that goes wrong.\<close>

datatype event =
    Signed user_id_t string
  | Pulled string user_id_t nat
  | Beaten string user_id_t
  | Sent NewMsg
  | Accepted NewMsg
  | NotAccepted NewMsg
  | Called string user_id_t string
  | CallGone
  | TimedOut string nat

fun events :: "whole_label \<Rightarrow> event list" where
  "events (SignedIn addr sd) = [Signed (sd_user_id sd) addr]"
| "events (LogicStep (Arrive nm)) = [Sent nm]"
| "events (LogicStep Steps) = []"
| "events (LogicStep (Answers nm (Inr (reply, Some args)))) = [Accepted nm]"
| "events (LogicStep (Answers nm r)) = [NotAccepted nm]"
| "events PushStep = []"
| "events (CallStep addr m) = [Called addr (m_user_id m) (m_message m)]"
| "events CallOver = [CallGone]"
| "events (AccessStep addr (Pull now u c)) = [Pulled addr u c]"
| "events (AccessStep addr (Beat now u)) = [Beaten addr u]"
| "events (AccessStep addr (Deliver m)) = [Called addr (m_user_id m) (m_message m)]"
| "events (AccessStep addr (Fire i)) = [TimedOut addr i]"
| "events (AccessStep addr (Handle a)) = [TimedOut addr a]"

text \<open>
  C21: messages are not delivered in order: there is a run in which user 1 sends a second message
  only after the first was accepted, the receiver is signed in and pulls throughout, no call
  is lost and no timer fires, and yet the receiver's first pull is answered with the second message
  and the next pull with the first, against the order of the ids.
\<close>

theorem pushes_may_overtake:
  "\<exists>ls s. path (whole_step mem_backends map_db 4 mem_timers_ops mem_view 400)
      (whole0 (mem_world empty_tables (\<lambda>_. None)) no_timers) ls s \<and>
    concat (map events ls) =
      [Signed 2 ''A'', Pulled ''A'' 2 7, Sent hi_to_2, Accepted hi_to_2, Sent bye_to_2, Accepted bye_to_2,
       Called ''A'' 2 ''bye'', Pulled ''A'' 2 8, Called ''A'' 2 ''hi''] \<and>
    map m_message (responses (fst (ws_access s ''A'')) 7) = [''bye''] \<and>
    map m_message (responses (fst (ws_access s ''A'')) 8) = [''hi''] \<and>
    map (\<lambda>r. (r_msg_id r, r_message r)) (filter (\<lambda>r. r_user_id r = 2) (ws_rows fst s)) = [(1, ''hi''), (2, ''bye'')]"
proof (intro exI conjI)
  show "path (whole_step mem_backends map_db 4 mem_timers_ops mem_view 400)
      (whole0 (mem_world empty_tables (\<lambda>_. None)) no_timers) (fst overtaken) (snd overtaken)"
    by (rule whole_run_path) (simp only: overtaken_def prod.collapse)
  show "concat (map events (fst overtaken)) =
      [Signed 2 ''A'', Pulled ''A'' 2 7, Sent hi_to_2, Accepted hi_to_2, Sent bye_to_2, Accepted bye_to_2,
       Called ''A'' 2 ''bye'', Pulled ''A'' 2 8, Called ''A'' 2 ''hi'']" by code_simp
  show "map m_message (responses (fst (ws_access (snd overtaken) ''A'')) 7) = [''bye'']" by code_simp
  show "map m_message (responses (fst (ws_access (snd overtaken) ''A'')) 8) = [''hi'']" by code_simp
  show "map (\<lambda>r. (r_msg_id r, r_message r)) (filter (\<lambda>r. r_user_id r = 2) (ws_rows fst (snd overtaken))) =
      [(1, ''hi''), (2, ''bye'')]" by code_simp
qed

end
