(* ===== verification/Access_Clock.thy ===== *)
theory Access_Clock
  imports Access_Claims
begin

text \<open>
  The timers of the access server in real time: a timer runs no earlier than the time it was
  armed with. A client is timed out only when the server has not heard of it for the whole
  timeout, and a client that is heard of in time is never timed out.
\<close>

section \<open>Timers with their times\<close>

text \<open>The timers next to the time that each one was armed with.\<close>

definition with_deadlines :: "'tm timer_ops \<Rightarrow> ('tm \<times> (nat \<Rightarrow> int)) timer_ops" where
  "with_deadlines ops = \<lparr>
     tm_add = (\<lambda>(t, at_of) at a. case tm_add ops t at a of (i, t') \<Rightarrow> (i, t', at_of(i := at))),
     tm_del = (\<lambda>(t, at_of) i. case tm_del ops t i of (r, t') \<Rightarrow> (r, t', at_of))\<rparr>"

abbreviation dl_view :: "('tm \<Rightarrow> nat \<Rightarrow> timer_view) \<Rightarrow> 'tm \<times> (nat \<Rightarrow> int) \<Rightarrow> nat \<Rightarrow> timer_view" where
  "dl_view view \<equiv> \<lambda>t. view (fst t)"

lemma with_deadlines_ok: "timer_ok ops view \<Longrightarrow> timer_ok (with_deadlines ops) (dl_view view)"
proof -
  assume ok: "timer_ok ops view"
  have add: "i \<noteq> 0 \<and> view t i = Unused \<and> view t' = (view t)(i := Pending a)"
    if "tm_add ops t at a = (i, t')" for t at a i t' using ok that unfolding timer_ok_def by blast
  have del: "if pend view t i = None then r \<noteq> 0 \<and> view t' = view t else r = 0 \<and> view t' = (view t)(i := Gone)"
    if "tm_del ops t i = (r, t')" for t i r t' using ok that unfolding timer_ok_def by blast
  have pend: "pend (dl_view view) t = pend view (fst t)" for t by (simp add: pend_def fun_eq_iff)
  show ?thesis
    unfolding timer_ok_def pend
  proof (intro conjI allI impI)
    fix t :: "'a \<times> (nat \<Rightarrow> int)" and at a i t'
    assume "tm_add (with_deadlines ops) t at a = (i, t')"
    then have "tm_add ops (fst t) at a = (i, fst t')" by (auto simp: with_deadlines_def split: prod.splits)
    from add [OF this] show "i \<noteq> 0" "view (fst t) i = Unused" "view (fst t') = (view (fst t))(i := Pending a)" by auto
  next
    fix t :: "'a \<times> (nat \<Rightarrow> int)" and i r t'
    assume "tm_del (with_deadlines ops) t i = (r, t')"
    then have "tm_del ops (fst t) i = (r, fst t')" by (auto simp: with_deadlines_def split: prod.splits)
    from del [OF this] show "if pend view (fst t) i = None then r \<noteq> 0 \<and> view (fst t') = view (fst t)
      else r = 0 \<and> view (fst t') = (view (fst t))(i := Gone)" .
  qed
qed

abbreviation deadline :: "('tm \<times> (nat \<Rightarrow> int)) access \<Rightarrow> nat \<Rightarrow> int" where
  "deadline s \<equiv> snd (timers s)"

lemma cancel_deadline: "cancel_timer (with_deadlines ops) i s = (r, s') \<Longrightarrow> deadline s' = deadline s"
  by (auto simp: cancel_timer_def with_deadlines_def split: prod.splits if_splits)

lemma rearmed_deadline: "rearmed (with_deadlines ops) at u s s' r i \<Longrightarrow> deadline s' = (deadline s)(i := at)"
  by (auto simp: rearmed_def arm_timer_def with_deadlines_def split: prod.splits dest!: cancel_deadline)
    (metis with_deadlines_def cancel_deadline snd_conv)

section \<open>Runs in time\<close>

text \<open>
  A configuration with the clock, in microseconds, and when each user was last heard of: by a
  pull or by a heartbeat, which is also what \<^verbatim>\<open>SendMsg\<close> does to the table.
\<close>

datatype timed_label = Tick | Acts label

type_synonym 'tm timed = "('tm \<times> (nat \<Rightarrow> int)) config \<times> int \<times> (int \<Rightarrow> int option)"

inductive timed_step ::
  "'tm timer_ops \<Rightarrow> ('tm \<Rightarrow> nat \<Rightarrow> timer_view) \<Rightarrow> int \<Rightarrow> 'tm timed \<Rightarrow> timed_label \<Rightarrow> 'tm timed \<Rightarrow> bool"
  for ops view timeout_s where
  tick: "now \<le> now' \<Longrightarrow> timed_step ops view timeout_s (x, now, heard) Tick (x, now', heard)"
| pulls: "access_step (with_deadlines ops) (dl_view view) timeout_s x (Pull now u c) y \<Longrightarrow>
    timed_step ops view timeout_s (x, now, heard) (Acts (Pull now u c)) (y, now, heard(u \<mapsto> now))"
| beats: "access_step (with_deadlines ops) (dl_view view) timeout_s x (Beat now u) y \<Longrightarrow>
    timed_step ops view timeout_s (x, now, heard) (Acts (Beat now u)) (y, now, heard(u \<mapsto> now))"
| delivers: "access_step (with_deadlines ops) (dl_view view) timeout_s x (Deliver m) y \<Longrightarrow>
    timed_step ops view timeout_s (x, now, heard) (Acts (Deliver m)) (y, now, heard)"
| handles: "access_step (with_deadlines ops) (dl_view view) timeout_s x (Handle a) y \<Longrightarrow>
    timed_step ops view timeout_s (x, now, heard) (Acts (Handle a)) (y, now, heard)"
| fires: "access_step (with_deadlines ops) (dl_view view) timeout_s x (Fire i) y \<Longrightarrow>
    deadline (fst y) = deadline (fst x) \<Longrightarrow> deadline (fst x) i \<le> now \<Longrightarrow>
    timed_step ops view timeout_s (x, now, heard) (Acts (Fire i)) (y, now, heard)"

definition timed0 :: "'tm \<Rightarrow> int \<Rightarrow> 'tm timed" where
  "timed0 tm now = ((access0 (tm, \<lambda>i. 0), []), now, \<lambda>u. None)"

lemma timed_access:
  "timed_step ops view timeout_s (x, now, heard) (Acts l) (y, now', heard') \<Longrightarrow>
   access_step (with_deadlines ops) (dl_view view) timeout_s x l y"
  by (auto elim: timed_step.cases)

section \<open>The current timer of a user\<close>

text \<open>While it has not run, it is due one timeout after the user was last heard of.\<close>

definition punctual :: "('tm \<Rightarrow> nat \<Rightarrow> timer_view) \<Rightarrow> int \<Rightarrow> ('tm \<times> (nat \<Rightarrow> int)) access \<Rightarrow> (int \<Rightarrow> int option) \<Rightarrow> bool" where
  "punctual view timeout_s s heard \<longleftrightarrow> (\<forall>u d. entry s u = Some d \<longrightarrow>
     (\<exists>t. heard u = Some t \<and> (pend (dl_view view) (timers s) (d_heartbeat_timeout_id d) \<noteq> None \<longrightarrow>
        deadline s (d_heartbeat_timeout_id d) = t + timeout_s * 1000000)))"

definition timed_ok :: "('tm \<Rightarrow> nat \<Rightarrow> timer_view) \<Rightarrow> int \<Rightarrow> 'tm timed \<Rightarrow> bool" where
  "timed_ok view timeout_s x \<longleftrightarrow> (case x of ((s, hs), now, heard) \<Rightarrow>
     guarded (dl_view view) (s, hs) \<and> data_ok s \<and> punctual view timeout_s s heard)"

lemma timeout_at_Inr: "timeout_at timeout_s now = Inr at \<Longrightarrow> at = now + timeout_s * 1000000"
  by (auto simp: timeout_at_def fbind_Inr)

lemma rearmed_punctual:
  assumes ops: "timer_ok ops view" and g: "guarded (dl_view view) (s, hs)" and p: "punctual view timeout_s s heard"
    and re: "rearmed (with_deadlines ops) at u s s' r i" and t: "timeout_at timeout_s now = Inr at"
    and e: "entry s' = (entry s)(u \<mapsto> d)" and d: "d_heartbeat_timeout_id d = i"
  shows "punctual view timeout_s s' (heard(u \<mapsto> now))"
proof -
  note facts = with_deadlines_ok [OF ops] guarded_0 [OF g] re
  note vw = rearmed_view [OF facts] and new = rearmed_new [OF facts] and dl = rearmed_deadline [OF re]
  have other: "\<exists>t. (heard(u \<mapsto> now)) w = Some t \<and>
      (pend (dl_view view) (timers s') (d_heartbeat_timeout_id dw) \<noteq> None \<longrightarrow>
        deadline s' (d_heartbeat_timeout_id dw) = t + timeout_s * 1000000)"
    if w: "entry s w = Some dw" "w \<noteq> u" for w dw
  proof -
    have "d_heartbeat_timeout_id dw \<noteq> i"
      using guarded_entries [OF g w(1)] new unfolding guarded_entry_def by metis
    moreover have "pend (dl_view view) (timers s') (d_heartbeat_timeout_id dw) \<noteq> None \<Longrightarrow>
        pend (dl_view view) (timers s) (d_heartbeat_timeout_id dw) \<noteq> None"
      using vw calculation by (auto simp: pend_def split: if_splits)
    ultimately show ?thesis using p w dl unfolding punctual_def by fastforce
  qed
  show ?thesis
    unfolding punctual_def
  proof (intro allI impI)
    fix w dw assume w: "entry s' w = Some dw"
    show "\<exists>t. (heard(u \<mapsto> now)) w = Some t \<and>
      (pend (dl_view view) (timers s') (d_heartbeat_timeout_id dw) \<noteq> None \<longrightarrow>
        deadline s' (d_heartbeat_timeout_id dw) = t + timeout_s * 1000000)"
    proof (cases "w = u")
      case True
      with w e have "dw = d" by simp
      with True d dl timeout_at_Inr [OF t] show ?thesis by simp
    next
      case False
      with w e have "entry s w = Some dw" by simp
      with other False show ?thesis by blast
    qed
  qed
qed

text \<open>Changes that only take timers and entries away.\<close>

lemma fewer_punctual:
  assumes p: "punctual view timeout_s s heard" and dl: "deadline s' = deadline s"
    and e: "\<And>u d'. entry s' u = Some d' \<Longrightarrow>
      \<exists>d. entry s u = Some d \<and> d_heartbeat_timeout_id d' = d_heartbeat_timeout_id d"
    and v: "\<And>i. pend (dl_view view) (timers s') i \<noteq> None \<Longrightarrow> pend (dl_view view) (timers s) i \<noteq> None"
  shows "punctual view timeout_s s' heard"
  unfolding punctual_def
proof (intro allI impI)
  fix u d' assume "entry s' u = Some d'"
  from e [OF this] obtain d where d: "entry s u = Some d" "d_heartbeat_timeout_id d' = d_heartbeat_timeout_id d" by blast
  with p obtain t where "heard u = Some t" "pend (dl_view view) (timers s) (d_heartbeat_timeout_id d) \<noteq> None \<longrightarrow>
      deadline s (d_heartbeat_timeout_id d) = t + timeout_s * 1000000" unfolding punctual_def by blast
  with v [of "d_heartbeat_timeout_id d'"] d(2) dl
  show "\<exists>t. heard u = Some t \<and> (pend (dl_view view) (timers s') (d_heartbeat_timeout_id d') \<noteq> None \<longrightarrow>
      deadline s' (d_heartbeat_timeout_id d') = t + timeout_s * 1000000)" by (intro exI [of _ t]) simp
qed

lemma deliver_entries:
  assumes "SendtoAccess m s = Inr s'" "data_ok s" "entry s' u = Some d'"
  shows "\<exists>d. entry s u = Some d \<and> d_heartbeat_timeout_id d' = d_heartbeat_timeout_id d"
proof (cases "waits s (m_user_id m)")
  case None
  have "entry s' = entry s" using deliver_spec [OF assms(1,2), unfolded None option.case] by (elim conjE)
  with assms(3) show ?thesis by metis
next
  case (Some c)
  then obtain d where d: "entry s (m_user_id m) = Some d" by (auto simp: waits_def split: option.splits)
  from Some deliver_spec [OF assms(1,2)] have "entry s' = (entry s)(m_user_id m :=
      Some (d\<lparr>d_done := None, d_msgs := None, d_cntl := None\<rparr>))" by (simp add: d)
  with assms(3) d show ?thesis by (auto split: if_splits)
qed

lemma handle_spec:
  assumes h: "UserHeartBeatTimeoutHeadler ops a s = Inr s'" and ok: "data_ok s"
  obtains u where "hbargs s a = Some u" "entry s' = (entry s)(u := None)"
    "effects s' = effects s @ (case waits s u of None \<Rightarrow> [] | Some c \<Rightarrow> [CloseConnection c, RunClosure c])"
    "timers s' = timers s \<or> (\<exists>r i s1. cancel_timer ops i s = (r, s1) \<and> timers s' = timers s1)"
    "\<forall>b. hbargs s' b \<in> {None, hbargs s b}"
proof -
  from handler_spec [OF h] obtain u found s1 where u: "hbargs s a = Some u"
    and c: "ClearUserData ops u s = Inr (found, s1)" and s': "s' = s1\<lparr>hbargs := (hbargs s1)(a := None)\<rparr>" by metis
  note spec = clear_spec [OF c ok]
  show ?thesis
  proof (cases "entry s u")
    case None
    with spec s' show ?thesis by (intro that [OF u]) (auto simp: waits_def fun_eq_iff)
  next
    case (Some d)
    with spec s' show ?thesis
      by (intro that [OF u]) (auto simp: waits_def freed_def split: option.splits if_splits)
  qed
qed

lemma step_guarded_timed:
  assumes ops: "timer_ok ops view" and x: "timed_ok view timeout_s (x, now, heard)"
    and step: "access_step (with_deadlines ops) (dl_view view) timeout_s x l y"
  shows "guarded (dl_view view) y \<and> data_ok (fst y)"
  using step_guarded [OF with_deadlines_ok [OF ops] step] x by (auto simp: timed_ok_def split: prod.splits)

lemma timed_step_ok:
  assumes ops: "timer_ok ops view" and step: "timed_step ops view timeout_s x l y" and x: "timed_ok view timeout_s x"
  shows "timed_ok view timeout_s y"
  using step
proof (cases rule: timed_step.cases)
  case (tick now now' x0 heard)
  with x show ?thesis by (simp add: timed_ok_def split: prod.splits)
next
  case (pulls x0 now u c y0 heard)
  note g = step_guarded_timed [OF ops x [unfolded pulls(1)] pulls(4)]
  from pulls(4) obtain s s' hs where s: "x0 = (s, hs)" "y0 = (s', hs)"
    "PullData (with_deadlines ops) timeout_s now u c s = Inr s'" by (auto elim: access_step.cases)
  have o: "guarded (dl_view view) (s, hs)" "punctual view timeout_s s heard"
    using x pulls(1) s(1) by (simp_all add: timed_ok_def)
  from s(3) have "punctual view timeout_s s' (heard(u \<mapsto> now))"
    unfolding PullData_def by (rule push_spec) (erule (1) rearmed_punctual [OF ops o], auto)
  with g pulls(3) s(2) show ?thesis by (simp add: timed_ok_def)
next
  case (beats x0 now u y0 heard)
  note g = step_guarded_timed [OF ops x [unfolded beats(1)] beats(4)]
  from beats(4) obtain s s' hs where s: "x0 = (s, hs)" "y0 = (s', hs)"
    "HeartBeat (with_deadlines ops) timeout_s now u s = Inr s'" by (auto elim: access_step.cases)
  have o: "guarded (dl_view view) (s, hs)" "punctual view timeout_s s heard"
    using x beats(1) s(1) by (simp_all add: timed_ok_def)
  from s(3) have "punctual view timeout_s s' (heard(u \<mapsto> now))"
    unfolding HeartBeat_def
    by (rule reset_spec) (erule (1) rearmed_punctual [OF ops o], auto split: option.splits)
  with g beats(3) s(2) show ?thesis by (simp add: timed_ok_def)
next
  case (delivers x0 m y0 now heard)
  note g = step_guarded_timed [OF ops x [unfolded delivers(1)] delivers(4)]
  from delivers(4) obtain s s' hs where s: "x0 = (s, hs)" "y0 = (s', hs)" "SendtoAccess m s = Inr s'"
    by (auto elim: access_step.cases)
  have o: "data_ok s" "punctual view timeout_s s heard" using x delivers(1) s(1) by (simp_all add: timed_ok_def)
  have tm: "timers s' = timers s" using deliver_spec [OF s(3) o(1)] by simp
  have "punctual view timeout_s s' heard"
    by (rule fewer_punctual [OF o(2)]) (use tm deliver_entries [OF s(3) o(1)] in auto)
  with g delivers(3) s(2) show ?thesis by (simp add: timed_ok_def)
next
  case (handles x0 a y0 now heard)
  note g = step_guarded_timed [OF ops x [unfolded handles(1)] handles(4)]
  from handles(4) obtain s s' hs where s: "x0 = (s, hs)" "y0 = (s', remove1 a hs)"
    "UserHeartBeatTimeoutHeadler (with_deadlines ops) a s = Inr s'" by (auto elim: access_step.cases)
  have o: "guarded (dl_view view) (s, hs)" "data_ok s" "punctual view timeout_s s heard"
    using x handles(1) s(1) by (simp_all add: timed_ok_def)
  from s(3) o(2) obtain u where e: "entry s' = (entry s)(u := None)"
    and t: "timers s' = timers s \<or> (\<exists>r i s1. cancel_timer (with_deadlines ops) i s = (r, s1) \<and> timers s' = timers s1)"
    by (rule handle_spec)
  have "deadline s' = deadline s \<and> (\<forall>i. pend (dl_view view) (timers s') i \<noteq> None \<longrightarrow> pend (dl_view view) (timers s) i \<noteq> None)"
    using t
  proof
    assume "\<exists>r i s1. cancel_timer (with_deadlines ops) i s = (r, s1) \<and> timers s' = timers s1"
    then obtain r i s1 where c: "cancel_timer (with_deadlines ops) i s = (r, s1)" "timers s' = timers s1" by blast
    with cancel_spec(2) [OF with_deadlines_ok [OF ops] c(1) guarded_0 [OF o(1)]] cancel_deadline [OF c(1)]
    show ?thesis by (auto simp: pend_def split: if_splits)
  qed simp
  then have "punctual view timeout_s s' heard"
    by (intro fewer_punctual [OF o(3)]) (auto simp: e split: if_splits)
  with g handles(3) s(2) show ?thesis by (simp add: timed_ok_def)
next
  case (fires x0 i y0 now heard)
  note g = step_guarded_timed [OF ops x [unfolded fires(1)] fires(4)]
  from fires(4) obtain s hs a tm where s: "x0 = (s, hs)" "y0 = (s\<lparr>timers := tm\<rparr>, a # hs)"
    "dl_view view tm = (dl_view view (timers s))(i := Gone)" by (auto elim: access_step.cases)
  have o: "punctual view timeout_s s heard" using x fires(1) s(1) by (simp add: timed_ok_def)
  have "punctual view timeout_s (s\<lparr>timers := tm\<rparr>) heard"
    by (rule fewer_punctual [OF o]) (use s fires(5) in \<open>auto simp: pend_def split: if_splits\<close>)
  with g fires(3) s(2) show ?thesis by (simp add: timed_ok_def)
qed

lemma timed0_ok: "\<forall>i. view tm i = Unused \<Longrightarrow> timed_ok view timeout_s (timed0 tm now)"
  using access0_ok [of "dl_view view" "(tm, \<lambda>i. 0)"]
  by (auto simp: timed_ok_def timed0_def punctual_def access0_def entry_def)

lemma timed_path_ok:
  "path (timed_step ops view timeout_s) x ls y \<Longrightarrow> timer_ok ops view \<Longrightarrow> timed_ok view timeout_s x \<Longrightarrow>
   timed_ok view timeout_s y"
  by (erule path_keeps) (auto intro: timed_step_ok)

text \<open>A timer that fires is the current one of a user, who was last heard of a timeout ago.\<close>

lemma due_timer:
  assumes x: "timed_ok view timeout_s ((s, hs), now, heard)"
    and f: "access_step (with_deadlines ops) (dl_view view) timeout_s (s, hs) (Fire i) y"
    and d: "deadline s i \<le> now"
  obtains a u t where "y = (s\<lparr>timers := timers (fst y)\<rparr>, a # hs)" "hbargs s a = Some u" "heard u = Some t"
    "t + timeout_s * 1000000 \<le> now"
proof -
  from f obtain a tm where p: "view (fst (timers s)) i = Pending a" and y: "y = (s\<lparr>timers := tm\<rparr>, a # hs)"
    by (auto elim: access_step.cases)
  have g: "guarded (dl_view view) (s, hs)" "punctual view timeout_s s heard" using x by (simp_all add: timed_ok_def)
  have pa: "pend (dl_view view) (timers s) i = Some a" using p by (simp add: pend_def)
  from guarded_timers [OF g(1) pa] obtain u d where u: "hbargs s a = Some u" "entry s u = Some d"
    "d_heartbeat_timeout_id d = i" unfolding guarded_timer_def by blast
  with g(2) pa obtain t where "heard u = Some t" "deadline s i = t + timeout_s * 1000000"
    unfolding punctual_def by fastforce
  with d u(1) y show ?thesis by (intro that [of a u t]) auto
qed

section \<open>When clients are timed out\<close>

text \<open>
  A timer of the access server fires only for a user of whom the server has not heard for
  the whole timeout, whatever pulls, heartbeats and messages came before: no timer that an
  earlier pull or heartbeat armed is left behind to fire early.
\<close>

lemma nobody_is_timed_out_early:
  assumes "timer_ok ops view" "\<forall>i. view tm i = Unused"
    and "path (timed_step ops view timeout_s) (timed0 tm now0) ls ((s, hs), now, heard)"
    and "timed_step ops view timeout_s ((s, hs), now, heard) (Acts (Fire i)) y"
  shows "\<exists>a u t. snd (fst y) = a # hs \<and> hbargs s a = Some u \<and> heard u = Some t \<and> t + timeout_s * 1000000 \<le> now"
proof -
  have x: "timed_ok view timeout_s ((s, hs), now, heard)"
    by (rule timed_path_ok [OF assms(3,1) timed0_ok [where view = view and tm = tm, OF assms(2)]])
  from assms(4) obtain y0 where y: "fst y = y0" "deadline s i \<le> now"
    "access_step (with_deadlines ops) (dl_view view) timeout_s (s, hs) (Fire i) y0" by (auto elim: timed_step.cases)
  from x y(3,2) obtain a u t where "y0 = (s\<lparr>timers := timers (fst y0)\<rparr>, a # hs)" "hbargs s a = Some u"
    "heard u = Some t" "t + timeout_s * 1000000 \<le> now" by (rule due_timer)
  with y(1) show ?thesis by (metis snd_conv)
qed

text \<open>A run in which one user is heard of in time: nobody waits for \<open>u\<close> longer than the timeout.\<close>

definition in_time :: "int \<Rightarrow> int \<Rightarrow> 'tm timed \<Rightarrow> bool" where
  "in_time timeout_s u x \<longleftrightarrow> (case x of (c, now, heard) \<Rightarrow> \<forall>t. heard u = Some t \<longrightarrow> now < t + timeout_s * 1000000)"

definition timely_step ::
  "'tm timer_ops \<Rightarrow> ('tm \<Rightarrow> nat \<Rightarrow> timer_view) \<Rightarrow> int \<Rightarrow> int \<Rightarrow> 'tm timed \<Rightarrow> timed_label \<Rightarrow> 'tm timed \<Rightarrow> bool" where
  "timely_step ops view timeout_s u x l y \<longleftrightarrow> timed_step ops view timeout_s x l y \<and> in_time timeout_s u y"

text \<open>
  The user keeps the entry, no handler of theirs is on the way, and the connections that were
  closed are of other users. \<open>P\<close> has the pulls with their users.
\<close>

definition spared :: "(int \<times> nat) set \<Rightarrow> int \<Rightarrow> 'tm timed \<Rightarrow> bool" where
  "spared P u x \<longleftrightarrow> (case x of ((s, hs), now, heard) \<Rightarrow>
     served P (\<lambda>_. True) s \<and> (\<forall>a \<in> set hs. hbargs s a \<noteq> Some u) \<and> (heard u \<noteq> None \<longrightarrow> entry s u \<noteq> None) \<and>
     (\<forall>c. CloseConnection c \<in> set (effects s) \<longrightarrow> (\<exists>v. v \<noteq> u \<and> (v, c) \<in> P)))"

text \<open>Arming a timer for any user gives no running handler an argument of \<open>u\<close>.\<close>

lemma rearmed_running:
  assumes g: "guarded view (s, hs)" and re: "rearmed ops at v s s' r i"
    and hs: "\<forall>a \<in> set hs. hbargs s a \<noteq> Some u"
  shows "\<forall>a \<in> set hs. hbargs s' a \<noteq> Some u"
proof
  fix a assume a: "a \<in> set hs"
  then have "a \<noteq> next_arg s" using guarded_running [OF g] by blast
  then have "hbargs s' a \<in> {None, hbargs s a}"
    using re by (auto simp: rearmed_def freed_def split: option.splits if_splits)
  with hs a show "hbargs s' a \<noteq> Some u" by auto
qed

lemma armed_spared:
  assumes g: "guarded view (s, hs)" and re: "rearmed ops at v s s' r i"
    and x: "spared P u ((s, hs), now, heard)" and y: "served P (\<lambda>_. True) s'"
    and e: "entry s' = (entry s)(v \<mapsto> d)" and ef: "\<And>c. CloseConnection c \<in> set (effects s') \<Longrightarrow> CloseConnection c \<in> set (effects s)"
  shows "spared P u ((s', hs), now, heard(v \<mapsto> now))"
  using x y ef rearmed_running [OF g re] by (auto simp: spared_def e)

lemma timed_served:
  assumes "served P (\<lambda>_. True) (fst x)" "access_step ops view timeout_s x l y" "\<And>now u c. l = Pull now u c \<Longrightarrow> (u, c) \<in> P"
  shows "served P (\<lambda>_. True) (fst y)"
  by (rule access_step_served [OF assms(2,1,3)]) simp_all

lemma spared_step:
  assumes ops: "timer_ok ops view" and step: "timely_step ops view timeout_s u x l y"
    and ok: "timed_ok view timeout_s x" and x: "spared P u x"
    and pull: "\<And>now v c. l = Acts (Pull now v c) \<Longrightarrow> (v, c) \<in> P"
  shows "spared P u y"
proof -
  from step have st: "timed_step ops view timeout_s x l y" and it: "in_time timeout_s u y"
    by (simp_all add: timely_step_def)
  from st show ?thesis
  proof (cases rule: timed_step.cases)
    case (tick now now' x0 heard)
    with x show ?thesis by (simp add: spared_def split: prod.splits)
  next
    case (pulls x0 now v c y0 heard)
    from pulls(4) obtain s s' hs where s: "x0 = (s, hs)" "y0 = (s', hs)"
      "PullData (with_deadlines ops) timeout_s now v c s = Inr s'" by (auto elim: access_step.cases)
    have g: "guarded (dl_view view) (s, hs)" using ok pulls(1) s(1) by (simp add: timed_ok_def)
    have x': "spared P u ((s, hs), now, heard)" using x pulls(1) s(1) by simp
    have y: "served P (\<lambda>_. True) s'"
      using timed_served [OF _ pulls(4), of P] x' s(1,2) pull [OF pulls(2)] by (auto simp: spared_def)
    from s(3) show ?thesis unfolding PullData_def pulls(3) s(2)
      by (rule push_spec) (erule armed_spared [OF g _ x' y], assumption, auto split: option.splits)
  next
    case (beats x0 now v y0 heard)
    from beats(4) obtain s s' hs where s: "x0 = (s, hs)" "y0 = (s', hs)"
      "HeartBeat (with_deadlines ops) timeout_s now v s = Inr s'" by (auto elim: access_step.cases)
    have g: "guarded (dl_view view) (s, hs)" using ok beats(1) s(1) by (simp add: timed_ok_def)
    have x': "spared P u ((s, hs), now, heard)" using x beats(1) s(1) by simp
    have y: "served P (\<lambda>_. True) s'"
      using timed_served [OF _ beats(4), of P] x' s(1,2) by (auto simp: spared_def)
    from s(3) show ?thesis unfolding HeartBeat_def beats(3) s(2)
      by (rule reset_spec) (erule armed_spared [OF g _ x' y], assumption, auto)
  next
    case (delivers x0 m y0 now heard)
    from delivers(4) obtain s s' hs where s: "x0 = (s, hs)" "y0 = (s', hs)" "SendtoAccess m s = Inr s'"
      by (auto elim: access_step.cases)
    have x': "spared P u ((s, hs), now, heard)" using x delivers(1) s(1) by simp
    have y: "served P (\<lambda>_. True) s'"
      using timed_served [OF _ delivers(4), of P] x' s(1,2) by (auto simp: spared_def)
    have d: "data_ok s" using ok delivers(1) s(1) by (simp add: timed_ok_def)
    have "hbargs s' = hbargs s" "entry s u \<noteq> None \<Longrightarrow> entry s' u \<noteq> None"
      "\<And>c. CloseConnection c \<in> set (effects s') \<Longrightarrow> CloseConnection c \<in> set (effects s)"
      using deliver_spec [OF s(3) d] by (auto split: option.splits)
    with x' y show ?thesis by (auto simp: delivers(3) s(2) spared_def)
  next
    case (handles x0 a y0 now heard)
    from handles(4) obtain s s' hs where s: "x0 = (s, hs)" "y0 = (s', remove1 a hs)" "a \<in> set hs"
      "UserHeartBeatTimeoutHeadler (with_deadlines ops) a s = Inr s'" by (auto elim: access_step.cases)
    have x': "spared P u ((s, hs), now, heard)" using x handles(1) s(1) by simp
    have y: "served P (\<lambda>_. True) s'"
      using timed_served [OF _ handles(4), of P] x' s(1,2) by (auto simp: spared_def)
    have d: "data_ok s" using ok handles(1) s(1) by (simp add: timed_ok_def)
    from s(4) d obtain v where v: "hbargs s a = Some v" "entry s' = (entry s)(v := None)"
      and ef: "effects s' = effects s @ (case waits s v of None \<Rightarrow> [] | Some c \<Rightarrow> [CloseConnection c, RunClosure c])"
      and h: "\<forall>b. hbargs s' b \<in> {None, hbargs s b}" by (rule handle_spec)
    have vu: "v \<noteq> u" using x' s(3) v(1) by (auto simp: spared_def)
    have "hbargs s' b \<noteq> Some u" if "b \<in> set (remove1 a hs)" for b
      using spec [OF h, of b] x' set_remove1_subset [of a hs] that by (auto simp: spared_def)
    moreover have "\<exists>v. v \<noteq> u \<and> (v, c) \<in> P" if "CloseConnection c \<in> set (effects s')" for c
      using that ef x' vu by (auto simp: spared_def served_def split: option.splits)
    moreover have "heard u \<noteq> None \<longrightarrow> entry s' u \<noteq> None" using x' v(2) vu by (simp add: spared_def)
    ultimately show ?thesis using y by (simp add: handles(3) s(2) spared_def)
  next
    case (fires x0 i y0 now heard)
    obtain s hs where s: "x0 = (s, hs)" by fastforce
    have x': "spared P u ((s, hs), now, heard)" and ok': "timed_ok view timeout_s ((s, hs), now, heard)"
      using x ok fires(1) s by simp_all
    from ok' fires(4) [unfolded s] obtain a v t where y: "y0 = (s\<lparr>timers := timers (fst y0)\<rparr>, a # hs)"
      and v: "hbargs s a = Some v" "heard v = Some t" "t + timeout_s * 1000000 \<le> now"
      by (rule due_timer) (use fires(6) s in simp)
    have "v \<noteq> u" using it v(2,3) by (auto simp: fires(3) in_time_def)
    moreover have "served P (\<lambda>_. True) (s\<lparr>timers := timers (fst y0)\<rparr>)"
      using x' by (auto simp: spared_def served_def data_ok_def waits_def)
    ultimately have "spared P u ((s\<lparr>timers := timers (fst y0)\<rparr>, a # hs), now, heard)"
      using x' v(1) by (simp add: spared_def)
    with y show ?thesis unfolding fires(3) by metis
  qed
qed

lemma spared_path:
  assumes ops: "timer_ok ops view"
  shows "path (timely_step ops view timeout_s u) x ls y \<Longrightarrow> timed_ok view timeout_s x \<Longrightarrow> spared P u x \<Longrightarrow>
    \<forall>now v c. Acts (Pull now v c) \<in> set ls \<longrightarrow> (v, c) \<in> P \<Longrightarrow> spared P u y"
proof (induction rule: path.induct)
  case (path_Cons x l x1 ls y)
  have "timed_ok view timeout_s x1"
    by (rule timed_step_ok [OF ops _ path_Cons.prems(1)]) (use path_Cons.hyps(1) in \<open>auto simp: timely_step_def\<close>)
  moreover have "spared P u x1"
    by (rule spared_step [OF ops path_Cons.hyps(1) path_Cons.prems(1,2)]) (use path_Cons.prems(3) in simp)
  ultimately show ?case using path_Cons.IH path_Cons.prems(3) by simp
qed

lemma timely_heard:
  assumes "path (timely_step ops view timeout_s u) x ls y"
  shows "snd (snd x) u \<noteq> None \<or> (\<exists>t c. Acts (Pull t u c) \<in> set ls) \<longrightarrow> snd (snd y) u \<noteq> None"
  using assms
proof (induction rule: path.induct)
  case (path_Cons x l x1 ls y)
  from path_Cons.hyps(1) have "timed_step ops view timeout_s x l x1" by (simp add: timely_step_def)
  then have "snd (snd x) u \<noteq> None \<or> (\<exists>t c. l = Acts (Pull t u c)) \<longrightarrow> snd (snd x1) u \<noteq> None"
    by (cases rule: timed_step.cases) auto
  with path_Cons.IH show ?case by auto
qed simp

text \<open>
  C15: a client that the server hears of within every timeout, by a heartbeat, a pull or a message,
  is never timed out, however the other clients, the deliveries, the timers and the handlers
  come in between: it keeps its entry, no handler of a timer of it is on the way, and the
  connection of none of its pulls is closed. With the flags as they are, 400 seconds here and
  300 in the client, that allows each heartbeat to be late by nearly 100 seconds. (The time of a heartbeat
  is that of the update of the table; the code reads the clock just before it takes the mutex.)
\<close>

theorem timely_clients_are_never_timed_out:
  assumes "timer_ok ops view" "\<forall>i. view tm i = Unused"
    and p: "path (timely_step ops view timeout_s u) (timed0 tm now0) ls ((s, hs), now, heard)"
    and c: "Acts (Pull t u c) \<in> set ls" and own: "\<forall>t' v. Acts (Pull t' v c) \<in> set ls \<longrightarrow> v = u"
  shows "entry s u \<noteq> None \<and> (\<forall>a \<in> set hs. hbargs s a \<noteq> Some u) \<and> CloseConnection c \<notin> set (effects s)"
proof -
  let ?P = "{(v, c) | t v c. Acts (Pull t v c) \<in> set ls}"
  have "spared ?P u (timed0 tm now0)"
    by (simp add: spared_def timed0_def access0_def served_def data_ok_def waits_def entry_def)
  from spared_path [OF assms(1) p timed0_ok [where view = view and tm = tm, OF assms(2)] this]
  have x: "spared ?P u ((s, hs), now, heard)" by blast
  have "heard u \<noteq> None" using timely_heard [OF p] c by auto
  with x own show ?thesis unfolding spared_def by blast
qed

section \<open>Witnesses\<close>

text \<open>
  User 5 waits with the call 100 from time 0, is heard of again after 300 seconds, and 350 seconds
  later has not been timed out; a user who is not heard of again is, after 400 seconds.
\<close>

abbreviation clock_ops :: "(mem_timers \<times> (nat \<Rightarrow> int)) timer_ops" where
  "clock_ops \<equiv> with_deadlines mem_timers_ops"

definition clock_pulled :: "(mem_timers \<times> (nat \<Rightarrow> int)) access" where
  "clock_pulled = right (PullData clock_ops 400 0 5 100 (access0 (no_timers, \<lambda>i. 0)))"

definition clock_beaten :: "(mem_timers \<times> (nat \<Rightarrow> int)) access" where
  "clock_beaten = right (HeartBeat clock_ops 400 300000000 5 clock_pulled)"

lemma clock_pulls: "timed_step mem_timers_ops mem_view 400 (timed0 no_timers 0) (Acts (Pull 0 5 100))
    ((clock_pulled, []), 0, [5 \<mapsto> 0])"
  unfolding timed0_def clock_pulled_def
  by (rule pulls, rule step_pull, rule right_Inr) code_simp

lemma clock_beats: "timed_step mem_timers_ops mem_view 400 ((clock_pulled, []), 300000000, [5 \<mapsto> 0])
    (Acts (Beat 300000000 5)) ((clock_beaten, []), 300000000, [5 \<mapsto> 0, 5 \<mapsto> 300000000])"
  unfolding clock_beaten_def by (rule beats, rule step_beat, rule right_Inr) code_simp

theorem timely_clients_are_never_timed_out_witness:
  "entry clock_beaten 5 \<noteq> None \<and> CloseConnection 100 \<notin> set (effects clock_beaten)"
proof -
  let ?ls = "[Acts (Pull 0 5 100), Tick, Acts (Beat 300000000 5), Tick]"
  have p: "path (timely_step mem_timers_ops mem_view 400 5) (timed0 no_timers 0) ?ls
      ((clock_beaten, []), 650000000, [5 \<mapsto> 0, 5 \<mapsto> 300000000])"
    by (rule path_Cons [of _ _ _ "((clock_pulled, []), 0, [5 \<mapsto> 0])"],
        simp add: timely_step_def in_time_def clock_pulls,
        rule path_Cons [of _ _ _ "((clock_pulled, []), 300000000, [5 \<mapsto> 0])"],
        simp add: timely_step_def in_time_def tick,
        rule path_Cons [of _ _ _ "((clock_beaten, []), 300000000, [5 \<mapsto> 0, 5 \<mapsto> 300000000])"],
        use clock_beats in \<open>simp add: timely_step_def in_time_def\<close>,
        rule path1, simp add: timely_step_def in_time_def tick)
  from timely_clients_are_never_timed_out [OF mem_timers_ok no_timers_unused p, of 0 100] show ?thesis by simp
qed

definition clock_fired :: "(mem_timers \<times> (nat \<Rightarrow> int)) access" where
  "clock_fired = clock_pulled\<lparr>timers := ((fst (fst (timers clock_pulled)),
     (snd (fst (timers clock_pulled)))(1 := Gone)), snd (timers clock_pulled))\<rparr>"

lemma nobody_is_timed_out_early_witness:
  "hbargs clock_pulled 0 = Some 5 \<and> deadline clock_pulled 1 = 400000000"
proof -
  have v: "mem_view (fst (timers clock_pulled)) 1 = Pending 0" "fst (fst (timers clock_pulled)) = 1"
    "deadline clock_pulled 1 = 400000000" by code_simp+
  have "access_step clock_ops (dl_view mem_view) 400 (clock_pulled, []) (Fire 1) (clock_fired, [0])"
    unfolding clock_fired_def by (rule step_fire) (use v in \<open>auto simp: mem_view_def fun_eq_iff\<close>)
  then have f: "timed_step mem_timers_ops mem_view 400 ((clock_pulled, []), 400000000, [5 \<mapsto> 0]) (Acts (Fire 1))
      ((clock_fired, [0]), 400000000, [5 \<mapsto> 0])"
    by (rule fires) (use v(3) in \<open>simp_all add: clock_fired_def\<close>)
  have p: "path (timed_step mem_timers_ops mem_view 400) (timed0 no_timers 0) [Acts (Pull 0 5 100), Tick]
      ((clock_pulled, []), 400000000, [5 \<mapsto> 0])"
    by (rule path_Cons, rule clock_pulls, rule path1, rule tick) simp
  from nobody_is_timed_out_early [OF mem_timers_ok no_timers_unused p f] v(3) show ?thesis
    by (auto split: if_splits)
qed

end
