(* ===== verification/Access_Shutdown.thy ===== *)
theory Access_Shutdown
  imports Access_Claims
begin

text \<open>
  How the access server ends (\<^verbatim>\<open>server/access/access.cc\<close> after \<^verbatim>\<open>server.Start\<close>): once it is asked to
  quit, the clean-up answers the calls that wait and cancels their timers, and then the server is
  stopped and \<^verbatim>\<open>main\<close> waits for the requests that are left. Between the two the server still
  takes requests.
\<close>

section \<open>The argument that an entry remembers is alive\<close>

definition owned :: "'tm access \<Rightarrow> bool" where
  "owned s \<longleftrightarrow> (\<forall>u d a. entry s u = Some d \<longrightarrow> d_hbarg d = Some a \<longrightarrow> hbargs s a = Some u)"

lemma ownedD: "owned s \<Longrightarrow> entry s u = Some d \<Longrightarrow> d_hbarg d = Some a \<Longrightarrow> hbargs s a = Some u"
  by (simp add: owned_def)

lemma rearmed_owned:
  assumes ops: "timer_ok ops view" and g: "guarded view (s, hs)" and o: "owned s"
    and re: "rearmed ops at u s s' r i" and e: "entry s' = (entry s)(u \<mapsto> d)"
    and p: "d_hbarg d = Some (next_arg s) \<or> d_hbarg d = (if r then None else old_arg s u)"
  shows "owned s'"
  unfolding owned_def
proof (intro allI impI)
  fix w dw a assume w: "entry s' w = Some dw" "d_hbarg dw = Some a"
  note h = rearmed_args [OF ops guarded_0 [OF g] re]
  have old: "hbargs s b = Some u \<and> b < next_arg s" if "old_arg s u = Some b" for b
  proof -
    from that obtain du where "entry s u = Some du" "d_hbarg du = Some b"
      by (auto simp: old_arg_def split: option.splits)
    with ownedD [OF o this] guarded_live [OF g, of b] show ?thesis by simp
  qed
  show "hbargs s' a = Some w"
  proof (cases "w = u")
    case True
    with w e have "d_hbarg d = Some a" by simp
    with p old h True show ?thesis by (auto simp: freed_def split: if_splits option.splits)
  next
    case False
    with w e have "hbargs s a = Some w" using ownedD [OF o] by simp
    with guarded_live [OF g, of a] old h False show ?thesis
      by (auto simp: freed_def split: if_splits option.splits)
  qed
qed

lemma step_owned:
  assumes ops: "timer_ok ops view" and step: "access_step ops view timeout_s x l y"
    and x: "guarded view x" "data_ok (fst x)" and o: "owned (fst x)"
  shows "owned (fst y)"
  using step
proof (cases rule: access_step.cases)
  case (step_pull now u c s s' hs)
  from step_pull(4) obtain at r i where re: "rearmed ops at u s s' r i"
    and e: "entry s' = (entry s)(u \<mapsto> \<lparr>d_done = Some c, d_msgs = Some c, d_cntl = Some c,
         d_heartbeat_timeout_id = i, d_hbarg = (if r then None else old_arg s u)\<rparr>)"
    unfolding PullData_def by (rule push_spec)
  with rearmed_owned [OF ops x(1) [unfolded step_pull(1)] _ re e] o step_pull show ?thesis by simp
next
  case (step_beat now u s s' hs)
  from step_beat(4) obtain at r i where re: "rearmed ops at u s s' r i"
    and e: "entry s' = (entry s)(u := Some (case entry s u of
         None \<Rightarrow> \<lparr>d_done = None, d_msgs = None, d_cntl = None, d_heartbeat_timeout_id = i, d_hbarg = Some (next_arg s)\<rparr>
       | Some d \<Rightarrow> d\<lparr>d_heartbeat_timeout_id := i, d_hbarg := Some (next_arg s)\<rparr>))"
    unfolding HeartBeat_def by (rule reset_spec)
  with rearmed_owned [OF ops x(1) [unfolded step_beat(1)] _ re e] o step_beat show ?thesis
    by (simp split: option.split)
next
  case (step_deliver m s s' hs)
  with x have "data_ok s" by simp
  from deliver_spec [OF step_deliver(4) this] o step_deliver show ?thesis
    by (auto simp: owned_def waits_def split: option.splits if_splits)
next
  case (step_fire s i a tm hs)
  with o show ?thesis by (simp add: owned_def)
next
  case (step_handle b hs s s')
  from step_handle(5) obtain u found s1 where b: "hbargs s b = Some u" and c: "ClearUserData ops u s = Inr (found, s1)"
    and s': "s' = s1\<lparr>hbargs := (hbargs s1)(b := None)\<rparr>"
    by (rule handler_spec)
  have ok: "data_ok s" and o': "owned s" using x o step_handle(1) by simp_all
  have "owned s'"
  proof (cases "entry s u")
    case None
    with clear_spec [OF c ok] o' b show ?thesis by (auto simp: s' owned_def)
  next
    case (Some d)
    with clear_spec [OF c ok] obtain r where "entry s1 = (entry s)(u := None)" "hbargs s1 = freed r (d_hbarg d) (hbargs s)"
      by auto
    moreover have "hbargs s a = Some u" if "d_hbarg d = Some a" for a by (rule ownedD [OF o' Some that])
    ultimately show ?thesis using o' b
      by (auto simp: s' owned_def freed_def split: option.splits if_splits)
  qed
  with step_handle(3) show ?thesis by simp
qed

lemma reached_owned:
  assumes "timer_ok ops view" "\<forall>i. view tm i = Unused" "path (access_step ops view timeout_s) (access0 tm, []) ls (s, hs)"
  shows "owned s"
proof -
  have "(guarded view (s, hs) \<and> data_ok (fst (s, hs))) \<and> owned (fst (s, hs))"
    by (rule path_keeps [OF assms(3)])
      (use access0_ok [of view tm, OF assms(2)] step_guarded [OF assms(1)] step_owned [OF assms(1)]
        in \<open>auto simp: owned_def access0_def entry_def\<close>)
  then show ?thesis by simp
qed

section \<open>The clean-up\<close>

text \<open>What the clean-up does to an entry, and to the entries of the users \<open>us\<close>.\<close>

definition closing :: "Data option \<Rightarrow> effect list" where
  "closing e = (case e of None \<Rightarrow> []
     | Some d \<Rightarrow> (case d_done d of None \<Rightarrow> [] | Some c \<Rightarrow> [CloseConnection c, RunClosure c]))"

definition cleans :: "('tm \<Rightarrow> nat \<Rightarrow> timer_view) \<Rightarrow> int list \<Rightarrow> 'tm access \<Rightarrow> 'tm access \<Rightarrow> bool" where
  "cleans view us s s' \<longleftrightarrow>
     id_map s' = id_map s \<and> responses s' = responses s \<and>
     effects s' = effects s @ concat (map (\<lambda>u. closing (entry s u)) us) \<and>
     view (timers s') 0 = view (timers s) 0 \<and>
     (\<forall>i a. pend view (timers s') i = Some a \<longleftrightarrow>
        pend view (timers s) i = Some a \<and> (\<forall>u d. u \<in> set us \<longrightarrow> entry s u = Some d \<longrightarrow> d_heartbeat_timeout_id d \<noteq> i)) \<and>
     (\<forall>a. hbargs s' a = hbargs s a \<or> (\<exists>u \<in> set us. hbargs s a = Some u))"

lemma cleans_entry: "cleans view us s s' \<Longrightarrow> entry s' = entry s"
  by (simp add: cleans_def entry_def fun_eq_iff)

lemma cleans_refl: "cleans view [] s s"
  by (simp add: cleans_def)

lemma cleans_trans:
  assumes "cleans view us s s1" "cleans view vs s1 s2"
  shows "cleans view (us @ vs) s s2"
proof -
  note e = cleans_entry [OF assms(1)]
  have "hbargs s2 a = hbargs s a \<or> (\<exists>u \<in> set (us @ vs). hbargs s a = Some u)" for a
    using assms unfolding cleans_def by (metis Un_iff set_append)
  moreover have "pend view (timers s2) i = Some a \<longleftrightarrow> pend view (timers s) i = Some a \<and>
      (\<forall>u d. u \<in> set (us @ vs) \<longrightarrow> entry s u = Some d \<longrightarrow> d_heartbeat_timeout_id d \<noteq> i)" for i a
    using assms e unfolding cleans_def by auto
  ultimately show ?thesis using assms e unfolding cleans_def by simp
qed

text \<open>The users whose entries the clean-up can still go over.\<close>

definition cleanable :: "('tm \<Rightarrow> nat \<Rightarrow> timer_view) \<Rightarrow> int list \<Rightarrow> 'tm access \<Rightarrow> bool" where
  "cleanable view us s \<longleftrightarrow> distinct us \<and> view (timers s) 0 = Unused \<and> data_ok s \<and>
     (\<forall>u \<in> set us. \<forall>d a. entry s u = Some d \<longrightarrow> d_hbarg d = Some a \<longrightarrow> hbargs s a = Some u)"

lemma cleanable_rest:
  assumes "cleanable view (us @ vs) s" "cleans view us s s'"
  shows "cleanable view vs s'"
proof -
  note e = cleans_entry [OF assms(2)]
  have "hbargs s' a = Some v" if "v \<in> set vs" "entry s v = Some d" "d_hbarg d = Some a" for v d a
  proof -
    have "hbargs s a = Some v" "v \<notin> set us" using assms(1) that unfolding cleanable_def by auto
    with assms(2) show ?thesis unfolding cleans_def by (metis option.inject)
  qed
  then show ?thesis using assms e by (auto simp: cleanable_def cleans_def data_ok_def)
qed

lemma clear_entry_cleans:
  assumes ops: "timer_ok ops view" and u: "cleanable view [u] s" "entry s u = Some d"
  shows "\<exists>s'. clear_entry ops d s = Inr s' \<and> cleans view [u] s s'"
proof -
  have w: "whole d" and v: "view (timers s) 0 = Unused" and a: "\<And>a. d_hbarg d = Some a \<Longrightarrow> hbargs s a = Some u"
    using u by (auto simp: cleanable_def dest: data_okD)
  from close_and_run_no_null [OF w] obtain s1 where c: "close_and_run d s = Inr s1" by blast
  have s1: "s1 = emit (closing (Some d)) s"
    using close_and_run_Inr [OF c w] by (auto simp: closing_def emit_def split: option.splits)
  obtain r s2 where del: "cancel_timer ops (d_heartbeat_timeout_id d) s1 = (r, s2)" by fastforce
  from cancel_frame [OF del] obtain tm where s2: "s2 = s1\<lparr>timers := tm\<rparr>" by blast
  have t: "r \<longleftrightarrow> pend view (timers s) (d_heartbeat_timeout_id d) \<noteq> None"
    "view tm = (if r then (view (timers s))(d_heartbeat_timeout_id d := Gone) else view (timers s))"
    using cancel_spec [OF ops del] v s1 s2 by simp_all
  let ?s' = "s2\<lparr>hbargs := freed r (d_hbarg d) (hbargs s)\<rparr>"
  have "delete_hbarg (if r then d_hbarg d else None) s2 = Inr ?s'"
    using a s1 s2 by (auto simp: delete_hbarg_def freed_def emit_def split: option.splits)
  then have "clear_entry ops d s = Inr ?s'" by (simp add: clear_entry_def fbind_simps c del)
  moreover have "pend view tm i = Some b \<longleftrightarrow> pend view (timers s) i = Some b \<and> d_heartbeat_timeout_id d \<noteq> i" for i b
    using t by (auto simp: pend_def split: timer_view.splits)
  moreover have "view tm 0 = view (timers s) 0" using t v by (auto simp: pend_def)
  ultimately have "cleans view [u] s ?s'" using a u(2) s1 s2
    by (auto simp: cleans_def emit_def freed_def split: option.splits)
  with \<open>clear_entry ops d s = Inr ?s'\<close> show ?thesis by blast
qed

lemma clear_users_cleans:
  assumes ops: "timer_ok ops view"
  shows "cleanable view us s \<Longrightarrow> \<forall>u \<in> set us. nat (u mod 16) = b \<Longrightarrow>
    \<exists>s'. clear_users ops b us s = Inr s' \<and> cleans view us s s'"
proof (induction us arbitrary: s)
  case (Cons u us)
  have "\<exists>s1. (case id_map s b u of None \<Rightarrow> Inr s | Some data \<Rightarrow> clear_entry ops data s) = Inr s1 \<and> cleans view [u] s s1"
  proof (cases "entry s u")
    case None
    then show ?thesis using Cons.prems(2) by (auto simp: cleans_def closing_def entry_def)
  next
    case (Some d)
    have "cleanable view [u] s" using Cons.prems(1) by (simp add: cleanable_def)
    from clear_entry_cleans [OF ops this Some] Some Cons.prems(2) show ?thesis by (auto simp: entry_def)
  qed
  then obtain s1 where s1: "(case id_map s b u of None \<Rightarrow> Inr s | Some data \<Rightarrow> clear_entry ops data s) = Inr s1"
    and c: "cleans view [u] s s1" by blast
  have "cleanable view us s1" by (rule cleanable_rest [OF _ c]) (use Cons.prems(1) in simp)
  from Cons.IH [OF this] Cons.prems(2) obtain s2 where "clear_users ops b us s1 = Inr s2" "cleans view us s1 s2" by auto
  with s1 cleans_trans [OF c] show ?case by (auto simp: fbind_simps)
qed (simp add: cleans_refl)

lemma clear_buckets_cleans:
  assumes ops: "timer_ok ops view"
  shows "cleanable view (concat (map order bs)) s \<Longrightarrow> \<forall>b \<in> set bs. \<forall>u \<in> set (order b). nat (u mod 16) = b \<Longrightarrow>
    \<exists>s'. clear_buckets ops order bs s = Inr s' \<and> cleans view (concat (map order bs)) s s'"
proof (induction bs arbitrary: s)
  case (Cons b bs)
  have "cleanable view (order b) s" using Cons.prems(1) by (simp add: cleanable_def)
  have "\<forall>u \<in> set (order b). nat (u mod 16) = b" using Cons.prems(2) by simp
  from clear_users_cleans [OF ops \<open>cleanable view (order b) s\<close> this] obtain s1 where
    s1: "clear_users ops b (order b) s = Inr s1" "cleans view (order b) s s1" by blast
  have "cleanable view (concat (map order bs)) s1"
    by (rule cleanable_rest [OF _ s1(2)]) (use Cons.prems(1) in simp)
  from Cons.IH [OF this] Cons.prems(2) obtain s2 where
    "clear_buckets ops order bs s1 = Inr s2" "cleans view (concat (map order bs)) s1 s2" by auto
  with s1(1) cleans_trans [OF s1(2)] show ?case by (auto simp: fbind_simps)
qed (simp add: cleans_refl)

text \<open>The order in which the container goes over its entries, bucket by bucket.\<close>

definition lists_entries :: "(nat \<Rightarrow> int list) \<Rightarrow> 'tm access \<Rightarrow> bool" where
  "lists_entries order s \<longleftrightarrow> (\<forall>b < 16. distinct (order b) \<and>
     set (order b) = {u. entry s u \<noteq> None \<and> nat (u mod 16) = b})"

abbreviation all_users :: "(nat \<Rightarrow> int list) \<Rightarrow> int list" where
  "all_users order \<equiv> concat (map order [0..<nat kBucketNum])"

lemma kBucketNum_16: "nat kBucketNum = 16"
  by (simp add: kBucketNum_def)

lemma all_users:
  assumes "lists_entries order s"
  shows "set (all_users order) = {u. entry s u \<noteq> None}" and "distinct (all_users order)"
proof -
  have "nat (u mod 16) < 16" for u :: int by simp
  with assms show "set (all_users order) = {u. entry s u \<noteq> None}"
    unfolding kBucketNum_16 by (auto simp: lists_entries_def)
  have "distinct (concat (map order [0..<n]))" if "n \<le> 16" for n
    using that
  proof (induction n)
    case (Suc n)
    have "set (order n) \<inter> set (order b) = {}" if "b < n" for b
      using assms that Suc.prems by (auto simp: lists_entries_def)
    with Suc assms show ?case by (auto simp: lists_entries_def)
  qed simp
  then show "distinct (all_users order)" unfolding kBucketNum_16 by simp
qed

lemma clean_up:
  assumes ops: "timer_ok ops view" and g: "guarded view (s, hs)" and ok: "data_ok s" and o: "owned s"
    and order: "lists_entries order s"
  shows "\<exists>s'. ClearClosureAndReply ops order s = Inr s' \<and> cleans view (all_users order) s s'"
  unfolding ClearClosureAndReply_def
proof (rule clear_buckets_cleans [OF ops])
  show "cleanable view (all_users order) s"
    using all_users(2) [OF order] guarded_0 [OF g] ok o by (auto simp: cleanable_def owned_def)
  show "\<forall>b \<in> set [0..<nat kBucketNum]. \<forall>u \<in> set (order b). nat (u mod 16) = b"
    using order by (auto simp: lists_entries_def kBucketNum_16)
qed

text \<open>Afterwards no timer is left, the entries are as they were, and who waited was answered.\<close>

lemma clean_up_timers:
  assumes g: "guarded view (s, hs)" and order: "lists_entries order s" and c: "cleans view (all_users order) s s'"
  shows "view (timers s') i \<noteq> Pending a"
proof
  assume "view (timers s') i = Pending a"
  then have "pend view (timers s') i = Some a" by (simp add: pend_def)
  with c have p: "pend view (timers s) i = Some a"
    and other: "\<forall>u d. u \<in> set (all_users order) \<longrightarrow> entry s u = Some d \<longrightarrow> d_heartbeat_timeout_id d \<noteq> i"
    unfolding cleans_def by auto
  from guarded_timers [OF g p] obtain u d where "entry s u = Some d" "d_heartbeat_timeout_id d = i"
    by (auto simp: guarded_timer_def)
  with other all_users(1) [OF order] show False by blast
qed

lemma closing_runs: "count_list (closing (entry s u)) (RunClosure c) = (if waits s u = Some c then 1 else 0)"
  by (auto simp: closing_def waits_def split: option.split)

lemma closing_runs_sum: "distinct us \<Longrightarrow>
    count_list (concat (map (\<lambda>u. closing (entry s u)) us)) (RunClosure c) = card {u \<in> set us. waits s u = Some c}"
proof (induction us)
  case (Cons u us)
  have "{v \<in> set (u # us). waits s v = Some c} =
      (if waits s u = Some c then insert u else id) {v \<in> set us. waits s v = Some c}" by auto
  with Cons show ?case by (auto simp: closing_runs)
qed simp

lemma clean_up_runs:
  assumes order: "lists_entries order s" and c: "cleans view (all_users order) s s'"
  shows "runs s' c = runs s c + card {u. waits s u = Some c}"
proof -
  have "{u \<in> set (all_users order). waits s u = Some c} = {u. waits s u = Some c}"
    using all_users(1) [OF order] by (auto simp: waits_def split: option.splits)
  with c closing_runs_sum [OF all_users(2) [OF order], of s c] show ?thesis by (simp add: cleans_def runs_def)
qed

lemma cleans_waits: "cleans view us s s' \<Longrightarrow> waits s' = waits s"
  by (simp add: waits_def fun_eq_iff cleans_entry)

section \<open>The end of main\<close>

text \<open>
  \<^verbatim>\<open>main\<close> sleeps until it is asked to quit, cleans up, and lets brpc stop the server and wait for
  it. The clean-up takes no lock (a FIXME of the code), so that a handler that changes the table
  under it has no defined behaviour; it is one step here, between two others. A stopped server takes
  no requests, and the wait is over when every request that was taken has been answered. \<open>calls\<close> are
  the pulls that were taken; every other request is answered when its handler returns.
\<close>

datatype phase = Serving | Cleared | Stopped | Returned

datatype main_label = Works label | Asked | Stop_server | Return

type_synonym 'tm access_process = "phase \<times> nat set \<times> 'tm config"

fun is_request :: "label \<Rightarrow> bool" where
  "is_request (Fire i) = False"
| "is_request (Handle a) = False"
| "is_request _ = True"

inductive main_step ::
  "'tm timer_ops \<Rightarrow> ('tm \<Rightarrow> nat \<Rightarrow> timer_view) \<Rightarrow> int \<Rightarrow> 'tm access_process \<Rightarrow> main_label \<Rightarrow> 'tm access_process \<Rightarrow> bool"
  for ops view timeout_s where
  works: "access_step ops view timeout_s x l y \<Longrightarrow> ph = Serving \<or> ph = Cleared \<or> ph = Stopped \<and> \<not> is_request l \<Longrightarrow>
    main_step ops view timeout_s (ph, calls, x) (Works l) (ph, set_option (issued_call l) \<union> calls, y)"
| asked: "lists_entries order s \<Longrightarrow> ClearClosureAndReply ops order s = Inr s' \<Longrightarrow>
    main_step ops view timeout_s (Serving, calls, (s, hs)) Asked (Cleared, calls, (s', hs))"
| stops: "main_step ops view timeout_s (Cleared, calls, x) Stop_server (Stopped, calls, x)"
| returns: "\<forall>c \<in> calls. runs (fst x) c \<noteq> 0 \<Longrightarrow>
    main_step ops view timeout_s (Stopped, calls, x) Return (Returned, calls, x)"

lemma serving_path:
  "path (access_step ops view timeout_s) x ls y \<Longrightarrow>
   path (main_step ops view timeout_s) (Serving, calls, x) (map Works ls)
     (Serving, set (calls_of issued_call ls) \<union> calls, y)"
proof (induction arbitrary: calls rule: path.induct)
  case (path_Cons x l x1 ls y)
  from path_Cons.IH [of "set_option (issued_call l) \<union> calls"] path_Cons.hyps(1) show ?case
    by (cases "issued_call l") (auto intro!: path.path_Cons dest: works [of _ _ _ _ _ _ Serving calls])
qed (simp add: path_Nil)

lemma card_ex1: "\<exists>!x. P x \<Longrightarrow> card {x. P x} = 1"
  by (auto simp: card_1_singleton_iff)

text \<open>
  C14: a server that ends quietly: when it is asked to quit, no handler of a timer that has fired is still
  on its way, and until it has ended nobody calls it and no timer fires. Then the clean-up frees every
  argument once and meets no null pointer, every pull that was ever taken has been answered exactly
  once, no timer is left, and \<^verbatim>\<open>main\<close> returns without waiting. (A handler that waits for its bucket
  would run the closure of its user once more.)
\<close>

theorem quiet_shutdown_answers_every_pull:
  assumes "timer_ok ops view" and "\<forall>i. view tm i = Unused"
    and "path (access_step ops view timeout_s) (access0 tm, []) ls (s, [])"
    and "distinct (calls_of issued_call ls)" and "lists_entries order s"
  shows "\<exists>s'. ClearClosureAndReply ops order s = Inr s' \<and>
    (\<forall>c \<in> set (calls_of issued_call ls). runs s' c = 1) \<and> (\<forall>i a. view (timers s') i \<noteq> Pending a) \<and>
    path (main_step ops view timeout_s) (Serving, {}, (access0 tm, [])) (map Works ls @ [Asked, Stop_server, Return])
      (Returned, set (calls_of issued_call ls), (s', []))"
proof -
  note g = reached_guarded [OF assms(1-3)] and o = reached_owned [OF assms(1-3)]
  from clean_up [OF assms(1) g o assms(5)] obtain s' where
    s': "ClearClosureAndReply ops order s = Inr s'" and c: "cleans view (all_users order) s s'" by blast
  have "accounted (\<lambda>x. waits (fst x)) (\<lambda>x. runs (fst x)) (access0 tm, []) {}"
    and "data_ok (fst (access0 tm, []))"
    by (simp_all add: accounted_def access0_def waits_def entry_def runs_def data_ok_def)
  from table.path_accounted [OF assms(3) this(2,1) assms(4)]
  have acc: "accounted (\<lambda>x. waits (fst x)) (\<lambda>x. runs (fst x)) (s, [] :: nat list) (set (calls_of issued_call ls))" by simp
  have once: "runs s' d = 1" if "d \<in> set (calls_of issued_call ls)" for d
  proof -
    have "runs s d = 0 \<and> (\<exists>!u. waits s u = Some d) \<or> runs s d = 1 \<and> (\<forall>u. waits s u \<noteq> Some d)"
      using acc that by (simp add: accounted_def)
    then have "runs s d + card {u. waits s u = Some d} = 1"
    proof (elim disjE conjE)
      assume "runs s d = 0" "\<exists>!u. waits s u = Some d"
      then show ?thesis using card_ex1 [of "\<lambda>u. waits s u = Some d"] by simp
    qed simp
    then show ?thesis using clean_up_runs [OF assms(5) c, of d] by simp
  qed
  have "path (main_step ops view timeout_s) (Serving, {}, (access0 tm, [])) (map Works ls @ [Asked, Stop_server, Return])
      (Returned, set (calls_of issued_call ls), (s', []))"
    by (rule path_append [OF serving_path [OF assms(3)]])
      (use once in \<open>auto intro!: path.path_Cons path_Nil asked [OF assms(5) s'] stops returns\<close>)
  with s' once clean_up_timers [OF g(1) assms(5) c] show ?thesis by blast
qed

section \<open>Requests while main ends\<close>

lemma reached_accounted:
  assumes "path (access_step ops view timeout_s) (access0 tm, []) ls (s, hs)" "distinct (calls_of issued_call ls)"
  shows "accounted (\<lambda>x. waits (fst x)) (\<lambda>x. runs (fst x)) (s, hs) (set (calls_of issued_call ls))"
proof -
  have "accounted (\<lambda>x. waits (fst x)) (\<lambda>x. runs (fst x)) (access0 tm, []) {}"
    and "data_ok (fst (access0 tm, []))"
    by (simp_all add: accounted_def access0_def waits_def entry_def runs_def data_ok_def)
  from table.path_accounted [OF assms(1) this(2,1) assms(2)] show ?thesis by simp
qed

text \<open>
  C29: the clean-up leaves the calls that it has answered in the table, and the server is stopped
  only after it: a message that is delivered in between runs the closure of a call that was
  already answered, and has deleted itself, a second time.
\<close>

theorem delivery_after_the_clean_up_answers_again:
  assumes "timer_ok ops view" and "\<forall>i. view tm i = Unused"
    and "path (access_step ops view timeout_s) (access0 tm, []) ls (s, hs)"
    and "distinct (calls_of issued_call ls)" and "lists_entries order s" and "waits s u = Some c"
    and "ClearClosureAndReply ops order s = Inr s1" and "SendtoAccess m s1 = Inr s2" and "m_user_id m = u"
  shows "runs s1 c = 1 \<and> runs s2 c = 2"
proof -
  note g = reached_guarded [OF assms(1-3)] and o = reached_owned [OF assms(1-3)]
  from clean_up [OF assms(1) g o assms(5)] assms(7) have cl: "cleans view (all_users order) s s1" by simp
  have "runs s c = 0 \<and> (\<exists>!u. waits s u = Some c)"
    using reached_accounted [OF assms(3,4)] assms(6) unfolding accounted_def by fastforce
  then have r: "runs s1 c = 1"
    using clean_up_runs [OF assms(5) cl, of c] card_ex1 [of "\<lambda>u. waits s u = Some c"] by simp
  have "data_ok s1" using g(2) cleans_entry [OF cl] by (simp add: data_ok_def)
  from deliver_handover(1) [OF assms(8) this] cleans_waits [OF cl] assms(6,9) r show ?thesis
    by (simp add: handover_def)
qed

text \<open>What \<^verbatim>\<open>main\<close> knows of the calls until it returns.\<close>

definition process_ok :: "('tm \<Rightarrow> nat \<Rightarrow> timer_view) \<Rightarrow> 'tm access_process \<Rightarrow> bool" where
  "process_ok view p \<longleftrightarrow> (case p of (ph, calls, (s, hs)) \<Rightarrow> data_ok s \<and>
     (ph = Serving \<longrightarrow> guarded view (s, hs) \<and> owned s) \<and>
     (\<forall>u c. waits s u = Some c \<or> runs s c \<noteq> 0 \<longrightarrow> c \<in> calls))"

lemma handover_calls:
  "handover w r s s' u new \<Longrightarrow> w s' v = Some c \<or> r s' c \<noteq> 0 \<Longrightarrow>
   new = Some c \<or> (\<exists>v. w s v = Some c) \<or> r s c \<noteq> 0"
  by (auto simp: handover_def split: if_splits)

lemma access_step_calls:
  assumes "access_step ops view timeout_s x l y" "data_ok (fst x)"
    and "\<forall>u c. waits (fst x) u = Some c \<or> runs (fst x) c \<noteq> 0 \<longrightarrow> c \<in> calls"
  shows "\<forall>u c. waits (fst y) u = Some c \<or> runs (fst y) c \<noteq> 0 \<longrightarrow> c \<in> set_option (issued_call l) \<union> calls"
proof (intro allI impI)
  fix u c assume c: "waits (fst y) u = Some c \<or> runs (fst y) c \<noteq> 0"
  have "issued_call l = Some c \<or> (\<exists>v. waits (fst x) v = Some c) \<or> runs (fst x) c \<noteq> 0"
  proof (cases "issued_call l")
    case None
    with table.step_other [OF assms(1,2)] c show ?thesis
      by (auto simp: untouched_def dest: handover_calls)
  next
    case (Some d)
    with table.step_issues [OF assms(1,2) Some] c show ?thesis by (auto dest: handover_calls)
  qed
  with assms(3) show "c \<in> set_option (issued_call l) \<union> calls" by auto
qed

lemma main_step_ok:
  assumes ops: "timer_ok ops view" and step: "main_step ops view timeout_s p l q" and p: "process_ok view p"
  shows "process_ok view q"
  using step
proof (cases rule: main_step.cases)
  case (works x l y ph calls)
  have ok: "data_ok (fst x)" and calls: "\<forall>u c. waits (fst x) u = Some c \<or> runs (fst x) c \<noteq> 0 \<longrightarrow> c \<in> calls"
    and serving: "ph = Serving \<Longrightarrow> guarded view x \<and> owned (fst x)"
    using p works(1) by (auto simp: process_ok_def split: prod.splits)
  have "data_ok (fst y)" using table.step_inv [OF works(4)] ok by simp
  moreover have "guarded view y \<and> owned (fst y)" if "ph = Serving"
    using step_guarded [OF ops works(4)] step_owned [OF ops works(4)] ok serving [OF that] by blast
  ultimately show ?thesis using access_step_calls [OF works(4) ok calls] works(3)
    by (auto simp: process_ok_def split: prod.splits)
next
  case (asked order s s' calls hs)
  then have g: "guarded view (s, hs)" "data_ok s" "owned s"
    and calls: "\<forall>u c. waits s u = Some c \<or> runs s c \<noteq> 0 \<longrightarrow> c \<in> calls"
    using p by (simp_all add: process_ok_def)
  from clean_up [OF ops g asked(4)] asked(5) have cl: "cleans view (all_users order) s s'" by simp
  have "\<exists>u. waits s u = Some c" if "runs s' c \<noteq> 0" "runs s c = 0" for c
    using clean_up_runs [OF asked(4) cl, of c] that by (auto intro: ccontr)
  with calls have "\<forall>u c. waits s' u = Some c \<or> runs s' c \<noteq> 0 \<longrightarrow> c \<in> calls"
    unfolding cleans_waits [OF cl] by metis
  moreover have "data_ok s'" using g(2) cleans_entry [OF cl] by (simp add: data_ok_def)
  ultimately show ?thesis using asked(3) by (simp add: process_ok_def)
qed (use p in \<open>auto simp: process_ok_def split: prod.splits\<close>)

text \<open>A call that waits while \<^verbatim>\<open>main\<close> ends, and the steps that may answer it.\<close>

definition held_call :: "int \<Rightarrow> nat \<Rightarrow> 'tm access_process \<Rightarrow> bool" where
  "held_call u c p \<longleftrightarrow> (case p of (ph, calls, (s, hs)) \<Rightarrow> ph \<in> {Cleared, Stopped} \<and> c \<in> calls \<and> data_ok s \<and>
     waits s u = Some c \<and> runs s c = 0 \<and> (\<forall>v. waits s v = Some c \<longrightarrow> v = u))"

fun answers_call :: "int \<Rightarrow> nat \<Rightarrow> 'tm access_process \<Rightarrow> main_label \<Rightarrow> bool" where
  "answers_call u c p (Works (Pull now v c')) \<longleftrightarrow> v = u \<or> c' = c"
| "answers_call u c p (Works (Deliver m)) \<longleftrightarrow> m_user_id m = u"
| "answers_call u c p (Works (Handle a)) \<longleftrightarrow> hbargs (fst (snd (snd p))) a = Some u"
| "answers_call u c p l \<longleftrightarrow> False"

lemma handover_other:
  assumes h: "handover waits runs s s' v new" and new: "v \<noteq> u" "new \<noteq> Some c"
    and w: "waits s u = Some c" "runs s c = 0" and only: "\<And>v. waits s v = Some c \<Longrightarrow> v = u"
  shows "waits s' u = Some c \<and> runs s' c = 0 \<and> (\<forall>v. waits s' v = Some c \<longrightarrow> v = u)"
proof (intro conjI allI impI)
  have m: "waits s' = (waits s)(v := new)" and r: "runs s' c = runs s c + (if waits s v = Some c then 1 else 0)"
    using h by (simp_all add: handover_def)
  show "waits s' u = Some c" unfolding m using new(1) w(1) by simp
  have "waits s v \<noteq> Some c" using only new(1) by blast
  then show "runs s' c = 0" unfolding r using w(2) by simp
  fix z assume z: "waits s' z = Some c"
  with new(2) have "z \<noteq> v" unfolding m by (cases "z = v") simp_all
  with z show "z = u" unfolding m by (intro only) simp
qed

lemma held_access_step:
  assumes step: "access_step ops view timeout_s x l y" and ok: "data_ok (fst x)"
    and h: "waits (fst x) u = Some c" "runs (fst x) c = 0" and only: "\<And>v. waits (fst x) v = Some c \<Longrightarrow> v = u"
    and other: "\<not> answers_call u c (ph, calls, x) (Works l)"
  shows "waits (fst y) u = Some c \<and> runs (fst y) c = 0 \<and> (\<forall>v. waits (fst y) v = Some c \<longrightarrow> v = u)"
  using step
proof (cases rule: access_step.cases)
  case (step_pull now v c' s s' hs)
  then have "v \<noteq> u" "Some c' \<noteq> Some c" using other by auto
  from handover_other [OF push_handover(1) [OF step_pull(4)] this, unfolded step_pull] h only step_pull(1,3)
  show ?thesis by (metis fst_conv)
next
  case (step_beat now v s s' hs)
  from beat_untouched(1) [OF step_beat(4)] h only show ?thesis
    unfolding step_beat(1,3) untouched_def by (metis fst_conv)
next
  case (step_deliver m s s' hs)
  then have n: "m_user_id m \<noteq> u" and d: "data_ok s" using other ok by auto
  from handover_other [OF deliver_handover(1) [OF step_deliver(4) d] n, of c] h only
  show ?thesis unfolding step_deliver(1,3) by (metis fst_conv option.distinct(1))
next
  case (step_fire s i a tm hs)
  have "waits (s\<lparr>timers := tm\<rparr>) = waits s" "runs (s\<lparr>timers := tm\<rparr>) = runs s"
    by (simp_all add: waits_def runs_def fun_eq_iff)
  with h only show ?thesis unfolding step_fire(1,3) by (metis fst_conv)
next
  case (step_handle a hs s s')
  then have d: "data_ok s" using ok by simp
  from handle_handover(1) [OF step_handle(5) d] obtain v where v: "hbargs s a = Some v" "handover waits runs s s' v None"
    by blast
  then have "v \<noteq> u" using other step_handle(1,2) by auto
  from handover_other [OF v(2) this, of c] h only
  show ?thesis unfolding step_handle(1,3) by (metis fst_conv option.distinct(1))
qed

lemma held_call_step:
  assumes step: "main_step ops view timeout_s p l q" and p: "held_call u c p" and other: "\<not> answers_call u c p l"
  shows "held_call u c q"
  using step
proof (cases rule: main_step.cases)
  case (works x l' y ph calls)
  have h: "ph \<in> {Cleared, Stopped}" "c \<in> calls" "data_ok (fst x)" "waits (fst x) u = Some c" "runs (fst x) c = 0"
    "\<forall>v. waits (fst x) v = Some c \<longrightarrow> v = u"
    using p works(1) by (auto simp: held_call_def split: prod.splits)
  have "data_ok (fst y)" using table.step_inv [OF works(4)] h(3) by simp
  moreover have "\<not> answers_call u c (ph, calls, x) (Works l')" using other works(1,2) by simp
  from held_access_step [OF works(4) h(3-5) h(6) [rule_format] this]
  have "waits (fst y) u = Some c \<and> runs (fst y) c = 0 \<and> (\<forall>v. waits (fst y) v = Some c \<longrightarrow> v = u)" .
  ultimately show ?thesis using h(1,2) unfolding works(3) held_call_def by (cases y) simp
qed (use p in \<open>auto simp: held_call_def split: prod.splits\<close>)

lemma held_call_path:
  "path (main_step ops view timeout_s) p ls q \<Longrightarrow> held_call u c p \<Longrightarrow> \<not> held_call u c q \<Longrightarrow>
   \<exists>ls1 l ls2 p1. ls = ls1 @ l # ls2 \<and> path (main_step ops view timeout_s) p ls1 p1 \<and> answers_call u c p1 l"
proof (induction rule: path.induct)
  case (path_Cons p l p1 ls q)
  show ?case
  proof (cases "answers_call u c p l")
    case True
    with path_Nil [of "main_step ops view timeout_s" p] show ?thesis
      by (intro exI [of _ "[]"] exI [of _ l] exI [of _ ls] exI [of _ p]) simp
  next
    case False
    from path_Cons.IH [OF held_call_step [OF path_Cons.hyps(1) path_Cons.prems(1) False] path_Cons.prems(2)]
    obtain ls1 l' ls2 p2 where "ls = ls1 @ l' # ls2" "path (main_step ops view timeout_s) p1 ls1 p2" "answers_call u c p2 l'"
      by blast
    with path.path_Cons [OF path_Cons.hyps(1) this(2)] show ?thesis
      by (intro exI [of _ "l # ls1"] exI [of _ l'] exI [of _ ls2] exI [of _ p2]) simp
  qed
qed simp

text \<open>
  C30: a pull that the server takes after the clean-up, whether the server is stopped at once or goes on
  for a while, keeps \<^verbatim>\<open>main\<close> from returning until the user pulls again, a message for the user is
  delivered, or the handler of a heartbeat timer of the user runs: until the timeout, when nobody
  calls the server any more.
\<close>

theorem a_late_pull_holds_main:
  assumes "timer_ok ops view" and "\<forall>i. view tm i = Unused"
    and "path (main_step ops view timeout_s) (Serving, {}, (access0 tm, [])) ls0 (Cleared, calls, (s, hs))"
    and "PullData ops timeout_s now u c s = Inr s1" and "c \<notin> calls"
    and "path (main_step ops view timeout_s) (Cleared, insert c calls, (s1, hs)) ls (Returned, calls', y)"
    and "\<forall>now v. Works (Pull now v c) \<notin> set ls"
  shows "(\<exists>now c'. Works (Pull now u c') \<in> set ls) \<or> (\<exists>m. Works (Deliver m) \<in> set ls \<and> m_user_id m = u) \<or>
    (\<exists>ls1 a ls2 ph calls2 s2 hs2. ls = ls1 @ Works (Handle a) # ls2 \<and> hbargs s2 a = Some u \<and>
       path (main_step ops view timeout_s) (Cleared, insert c calls, (s1, hs)) ls1 (ph, calls2, (s2, hs2)))"
proof -
  have "process_ok view (Serving, {}, (access0 tm, []))"
    using access0_ok [of view tm, OF assms(2)]
    by (simp add: process_ok_def owned_def access0_def entry_def waits_def runs_def)
  then have ok: "process_ok view (Cleared, calls, (s, hs))"
    by (rule path_keeps [OF assms(3)]) (rule main_step_ok [OF assms(1)])
  then have s: "data_ok s" "\<forall>v. waits s v \<noteq> Some c" "runs s c = 0"
    using assms(5) by (auto simp: process_ok_def)
  from push_handover(1) [OF assms(4)] push_handover(2) [OF assms(4) s(1)] s(2,3)
  have "held_call u c (Cleared, insert c calls, (s1, hs))"
    by (simp add: held_call_def handover_def split: if_splits)
  from held_call_path [OF assms(6) this] obtain ls1 l ls2 p1 where
    p: "ls = ls1 @ l # ls2" "path (main_step ops view timeout_s) (Cleared, insert c calls, (s1, hs)) ls1 p1"
    and l: "answers_call u c p1 l"
    by (auto simp: held_call_def split: prod.splits)
  obtain ph calls2 s2 hs2 where p1: "p1 = (ph, calls2, (s2, hs2))" by (cases p1) auto
  show ?thesis
  proof (cases "(u, c, p1, l)" rule: answers_call.cases)
    case (1 u c p now v c')
    with l p(1) assms(7) show ?thesis by auto
  next
    case (3 u c p a)
    with l p p1 show ?thesis by fastforce
  qed (use l p(1) in auto)
qed

section \<open>Ends to evaluate on\<close>

abbreviation only_5 :: "nat \<Rightarrow> int list" where
  "only_5 \<equiv> (\<lambda>b. if b = 5 then [5] else [])"

lemma pulled_entries: "entry pulled u = (if u = 5 then Some \<lparr>d_done = Some 100, d_msgs = Some 100,
    d_cntl = Some 100, d_heartbeat_timeout_id = 1, d_hbarg = None\<rparr> else None)"
proof -
  have "map_option (\<lambda>d. (d_done d, d_msgs d, d_cntl d, d_heartbeat_timeout_id d, d_hbarg d)) (entry pulled 5) =
      Some (Some 100, Some 100, Some 100, 1, None)" by code_simp
  moreover have "entry pulled u = None" if "u \<noteq> 5"
  proof -
    from pulled_eq [unfolded PullData_def] obtain d where "entry pulled = (entry idle)(5 \<mapsto> d)"
      by (rule push_spec)
    with that show ?thesis by (simp add: access0_def entry_def)
  qed
  ultimately show ?thesis by auto
qed

lemma only_5: "lists_entries only_5 pulled"
  by (auto simp: lists_entries_def pulled_entries)

definition cleared :: "mem_timers access" where
  "cleared = right (ClearClosureAndReply mem_timers_ops only_5 pulled)"

lemma cleared_eq: "ClearClosureAndReply mem_timers_ops only_5 pulled = Inr cleared"
  unfolding cleared_def by (rule right_Inr) code_simp

theorem quiet_shutdown_answers_every_pull_witness:
  "runs cleared 100 = 1 \<and> (\<forall>i a. mem_view (timers cleared) i \<noteq> Pending a) \<and>
   path (main_step mem_timers_ops mem_view 400) (Serving, {}, (idle, []))
     [Works (Pull 0 5 100), Asked, Stop_server, Return] (Returned, {100}, (cleared, []))"
  using quiet_shutdown_answers_every_pull [OF mem_timers_ok no_timers_unused pulled_path _ only_5] cleared_eq by simp

definition late_delivery :: "mem_timers access" where
  "late_delivery = right (SendtoAccess hi cleared)"

lemma late_delivery_eq: "SendtoAccess hi cleared = Inr late_delivery"
  unfolding late_delivery_def by (rule right_Inr) code_simp

theorem delivery_after_the_clean_up_answers_again_witness:
  "runs cleared 100 = 1 \<and> runs late_delivery 100 = 2"
proof -
  have "waits pulled 5 = Some 100" by (simp add: waits_def pulled_entries)
  from delivery_after_the_clean_up_answers_again [OF mem_timers_ok no_timers_unused pulled_path _ only_5 this cleared_eq
      late_delivery_eq] show ?thesis by simp
qed

lemma nothing_to_clean: "ClearClosureAndReply mem_timers_ops (\<lambda>b. []) idle = Inr idle"
proof -
  have "clear_buckets mem_timers_ops (\<lambda>b. []) bs idle = Inr idle" for bs
    by (induction bs) (simp_all add: fbind_simps)
  then show ?thesis by (simp add: ClearClosureAndReply_def)
qed

lemma asked_idle: "path (main_step mem_timers_ops mem_view 400) (Serving, {}, (idle, [])) [Asked] (Cleared, {}, (idle, []))"
  by (rule path1) (rule asked [OF _ nothing_to_clean], simp add: lists_entries_def access0_def entry_def)

lemma expired_return: "path (main_step mem_timers_ops mem_view 400) (Cleared, {100}, (pulled, []))
    [Stop_server, Works (Fire 1), Works (Handle 0), Return] (Returned, {100}, (expired, []))"
proof -
  have m: "mem_view (timers pulled) 1 = Pending 0 \<and> runs expired 100 = 1" by code_simp
  have 0: "main_step mem_timers_ops mem_view 400 (Cleared, {100}, (pulled, [])) Stop_server (Stopped, {100}, (pulled, []))"
    by (rule stops)
  have "mem_step (pulled, []) (Fire 1) (fired pulled 1, [0])" using m by (intro mem_fire) simp
  from works [OF this, of Stopped "{100}"]
  have 1: "main_step mem_timers_ops mem_view 400 (Stopped, {100}, (pulled, [])) (Works (Fire 1))
      (Stopped, {100}, (fired pulled 1, [0]))" by simp
  have "mem_step (fired pulled 1, [0]) (Handle 0) (expired, remove1 0 [0])"
    by (rule step_handle [OF _ expired_eq]) simp
  from works [OF this, of Stopped "{100}"]
  have 2: "main_step mem_timers_ops mem_view 400 (Stopped, {100}, (fired pulled 1, [0])) (Works (Handle 0))
      (Stopped, {100}, (expired, []))" by simp
  have "main_step mem_timers_ops mem_view 400 (Stopped, {100}, (expired, [])) Return (Returned, {100}, (expired, []))"
    by (rule returns) (use m in simp)
  with 0 1 2 show ?thesis by (blast intro: path_Cons path_Nil)
qed

theorem a_late_pull_holds_main_witness:
  "path (main_step mem_timers_ops mem_view 400) (Cleared, {100}, (pulled, []))
     [Stop_server, Works (Fire 1), Works (Handle 0), Return] (Returned, {100}, (expired, [])) \<and>
   (\<exists>ls1 a ls2 ph calls2 s2 hs2. [Stop_server, Works (Fire 1), Works (Handle 0), Return] = ls1 @ Works (Handle a) # ls2 \<and>
      hbargs s2 a = Some 5 \<and> path (main_step mem_timers_ops mem_view 400) (Cleared, {100}, (pulled, [])) ls1 (ph, calls2, (s2, hs2)))"
  using a_late_pull_holds_main [OF mem_timers_ok no_timers_unused asked_idle pulled_eq _ expired_return] expired_return
  by simp

end
