(* ===== verification/Logic_Memory.thy ===== *)
theory Logic_Memory
  imports Prelude
begin

text \<open>
  The objects of the asynchronous calls that the background thread of the logic server makes:
  each \<^verbatim>\<open>SendtoAccess\<close> has a controller, an answer and a closure of its own, which the closure
  deletes when brpc runs it. Any number of calls of any number of threads are under way at once,
  and they end in any order.
\<close>

section \<open>The heap\<close>

text \<open>What an address holds; a controller knows whether its call failed.\<close>

datatype heap_obj = Controller bool | PongObj | SendtoAccessClosure nat nat

record push_heap =
  ph_objs :: "nat \<Rightarrow> heap_obj option"
  ph_next :: nat

definition ph_new :: "heap_obj \<Rightarrow> push_heap \<Rightarrow> nat \<times> push_heap" where
  "ph_new x h = (ph_next h, h\<lparr>ph_objs := (ph_objs h)(ph_next h \<mapsto> x), ph_next := Suc (ph_next h)\<rparr>)"

definition ph_delete :: "nat \<Rightarrow> push_heap \<Rightarrow> fault + push_heap" where
  "ph_delete p h = (if ph_objs h p = None then Inl DoubleFree else Inr (h\<lparr>ph_objs := (ph_objs h)(p := None)\<rparr>))"

section \<open>A call and its end\<close>

text \<open>The objects that \<open>SendtoPeers\<close> makes for one call; the closure owns the other two.\<close>

definition begin_call :: "push_heap \<Rightarrow> nat \<times> push_heap" where
  "begin_call h = (case ph_new (Controller False) h of (cntl, h1) \<Rightarrow>
     (case ph_new PongObj h1 of (pong, h2) \<Rightarrow> ph_new (SendtoAccessClosure cntl pong) h2))"

text \<open>
  brpc has set the controller and runs the closure: it looks whether the call failed, which only
  goes to the log, and deletes itself; the destructor deletes the controller and the answer.
\<close>

definition SendtoAccessClosure_Run :: "nat \<Rightarrow> push_heap \<Rightarrow> fault + push_heap" where
  "SendtoAccessClosure_Run c h =
     (case ph_objs h c of
        Some (SendtoAccessClosure cntl pong) \<Rightarrow>
          (case ph_objs h cntl of
             Some (Controller failed) \<Rightarrow>
               fbind (ph_delete cntl h) (\<lambda>h1. fbind (ph_delete pong h1) (\<lambda>h2. ph_delete c h2))
           | _ \<Rightarrow> Inl UseAfterFree)
      | _ \<Rightarrow> Inl UseAfterFree)"

definition set_failed :: "nat \<Rightarrow> bool \<Rightarrow> push_heap \<Rightarrow> push_heap" where
  "set_failed c failed h =
     (case ph_objs h c of
        Some (SendtoAccessClosure cntl pong) \<Rightarrow> h\<lparr>ph_objs := (ph_objs h)(cntl \<mapsto> Controller failed)\<rparr>
      | _ \<Rightarrow> h)"

datatype memory_label = Begins | Ends nat bool

inductive memory_step :: "push_heap \<times> nat list \<Rightarrow> memory_label \<Rightarrow> push_heap \<times> nat list \<Rightarrow> bool" where
  begins: "begin_call h = (c, h') \<Longrightarrow> memory_step (h, cs) Begins (h', c # cs)"
| ends: "c \<in> set cs \<Longrightarrow> SendtoAccessClosure_Run c (set_failed c failed h) = Inr h' \<Longrightarrow>
    memory_step (h, cs) (Ends c failed) (h', remove1 c cs)"

definition no_calls :: "push_heap \<times> nat list" where
  "no_calls = (\<lparr>ph_objs = (\<lambda>p. None), ph_next = 0\<rparr>, [])"

section \<open>Who owns what\<close>

text \<open>
  The closures under way have three objects each, next to each other, which nobody shares, and
  there are no others.
\<close>

definition owned :: "nat \<Rightarrow> nat set" where
  "owned c = {c - 2, c - 1, c}"

definition memory_ok :: "push_heap \<times> nat list \<Rightarrow> bool" where
  "memory_ok x \<longleftrightarrow> (case x of (h, cs) \<Rightarrow>
     distinct cs \<and> dom (ph_objs h) = (\<Union>c \<in> set cs. owned c) \<and>
     (\<forall>c \<in> set cs. 2 \<le> c \<and> c < ph_next h \<and> (\<exists>f. ph_objs h (c - 2) = Some (Controller f)) \<and>
        ph_objs h (c - 1) = Some PongObj \<and> ph_objs h c = Some (SendtoAccessClosure (c - 2) (c - 1))) \<and>
     (\<forall>c \<in> set cs. \<forall>d \<in> set cs. c \<noteq> d \<longrightarrow> owned c \<inter> owned d = {}))"

lemma begin_call_eq:
  "begin_call h = (Suc (Suc (ph_next h)), h\<lparr>ph_objs := (ph_objs h)(ph_next h \<mapsto> Controller False,
     Suc (ph_next h) \<mapsto> PongObj, Suc (Suc (ph_next h)) \<mapsto> SendtoAccessClosure (ph_next h) (Suc (ph_next h))),
     ph_next := Suc (Suc (Suc (ph_next h)))\<rparr>)"
  by (simp add: begin_call_def ph_new_def)

lemma run_eq:
  assumes "memory_ok (h, cs)" "c \<in> set cs"
  shows "SendtoAccessClosure_Run c (set_failed c failed h) =
    Inr (h\<lparr>ph_objs := (ph_objs h)(c - 2 := None, c - 1 := None, c := None)\<rparr>)"
proof -
  from assms obtain f where o: "2 \<le> c" "ph_objs h (c - 2) = Some (Controller f)"
    "ph_objs h (c - 1) = Some PongObj" "ph_objs h c = Some (SendtoAccessClosure (c - 2) (c - 1))"
    unfolding memory_ok_def by auto
  then have "c - 2 \<noteq> c" "c - 1 \<noteq> c" "c - 2 \<noteq> c - 1" by auto
  with o show ?thesis
    by (simp add: SendtoAccessClosure_Run_def set_failed_def ph_delete_def)
qed

lemma begins_ok:
  assumes ok: "memory_ok (h, cs)"
  shows "memory_ok (snd (begin_call h), fst (begin_call h) # cs)"
proof -
  let ?n = "ph_next h" and ?c = "Suc (Suc (ph_next h))"
  have low: "\<forall>c \<in> set cs. 2 \<le> c \<and> c < ?n" using ok by (auto simp: memory_ok_def)
  have own: "owned ?c = {?n, Suc ?n, ?c}" by (auto simp: owned_def)
  have apart: "\<forall>c \<in> set cs. owned c \<inter> owned ?c = {}" using low unfolding own by (auto simp: owned_def)
  have objs: "ph_objs (snd (begin_call h)) p = ph_objs h p" if "p \<notin> owned ?c" for p
    using that by (simp add: begin_call_eq own)
  have "dom (ph_objs (snd (begin_call h))) = owned ?c \<union> dom (ph_objs h)"
    by (auto simp: begin_call_eq own split: if_splits)
  moreover have "\<forall>c \<in> set cs. ph_objs (snd (begin_call h)) (c - 2) = ph_objs h (c - 2) \<and>
      ph_objs (snd (begin_call h)) (c - 1) = ph_objs h (c - 1) \<and> ph_objs (snd (begin_call h)) c = ph_objs h c"
    using apart objs by (auto simp: owned_def)
  moreover have "?c \<notin> set cs" using low by auto
  ultimately show ?thesis
    using ok low apart by (auto simp: memory_ok_def begin_call_eq Int_commute own)
qed

lemma ends_ok:
  assumes ok: "memory_ok (h, cs)" and c: "c \<in> set cs"
  shows "memory_ok (h\<lparr>ph_objs := (ph_objs h)(c - 2 := None, c - 1 := None, c := None)\<rparr>, remove1 c cs)"
proof -
  let ?h = "h\<lparr>ph_objs := (ph_objs h)(c - 2 := None, c - 1 := None, c := None)\<rparr>"
  have d: "distinct cs" and apart: "\<forall>d \<in> set cs. d \<noteq> c \<longrightarrow> owned d \<inter> owned c = {}"
    and dom: "dom (ph_objs h) = (\<Union>c \<in> set cs. owned c)" using ok c unfolding memory_ok_def by auto
  have objs: "ph_objs ?h p = (if p \<in> owned c then None else ph_objs h p)" for p by (auto simp: owned_def)
  have "dom (ph_objs ?h) = dom (ph_objs h) - owned c" by (auto simp: owned_def split: if_splits)
  also have "\<dots> = (\<Union>d \<in> set (remove1 c cs). owned d)" using dom apart d by auto
  finally have "dom (ph_objs ?h) = (\<Union>d \<in> set (remove1 c cs). owned d)" .
  moreover have "ph_objs ?h p = ph_objs h p" if "d \<in> set (remove1 c cs)" "p \<in> owned d" for d p
    using that apart d objs by auto
  moreover have "d \<in> owned d" "d - 1 \<in> owned d" "d - 2 \<in> owned d" for d by (simp_all add: owned_def)
  ultimately show ?thesis using ok d unfolding memory_ok_def by (auto simp del: fun_upd_apply)
qed

lemma memory_step_ok:
  assumes "memory_step x l y" "memory_ok x"
  shows "memory_ok y"
  using assms(1)
proof (cases rule: memory_step.cases)
  case (begins h c h' cs)
  with begins_ok [of h cs] assms(2) show ?thesis by simp
next
  case (ends c cs failed h h')
  with assms(2) have ok: "memory_ok (h, cs)" by simp
  from run_eq [OF ok ends(4)] ends_ok [OF ok ends(4)] ends(3,5) show ?thesis by simp
qed

lemma owned_card: "memory_ok (h, cs) \<Longrightarrow> card (dom (ph_objs h)) = 3 * length cs"
proof -
  assume ok: "memory_ok (h, cs)"
  then have o: "distinct cs" "dom (ph_objs h) = (\<Union>c \<in> set cs. owned c)" "\<forall>c \<in> set cs. 2 \<le> c"
    "\<forall>c \<in> set cs. \<forall>d \<in> set cs. c \<noteq> d \<longrightarrow> owned c \<inter> owned d = {}" by (auto simp: memory_ok_def)
  have "card (\<Union>c \<in> set cs. owned c) = (\<Sum>c \<in> set cs. card (owned c))"
    by (rule card_UN_disjoint) (use o(4) in \<open>auto simp: owned_def\<close>)
  also have "\<dots> = (\<Sum>c \<in> set cs. 3)" using o(3) by (intro sum.cong) (auto simp: owned_def card_insert_if)
  also have "\<dots> = 3 * length cs" using distinct_card [OF o(1)] by simp
  finally show ?thesis using o(2) by simp
qed

section \<open>The memory of a run\<close>

text \<open>
  C33: over any interleaving of calls that begin and end, whether they failed or not, the end of a
  call under way deletes its three objects without touching a freed one or freeing one twice, and
  nothing else is on the heap: when no call is under way, everything has been freed.
\<close>

theorem push_calls_free_their_objects:
  assumes "path memory_step no_calls ls (h, cs)"
  shows "(\<forall>c \<in> set cs. \<forall>failed. \<exists>h'. SendtoAccessClosure_Run c (set_failed c failed h) = Inr h') \<and>
    card (dom (ph_objs h)) = 3 * length cs \<and> (cs = [] \<longrightarrow> dom (ph_objs h) = {})"
proof -
  have "memory_ok no_calls" by (simp add: memory_ok_def no_calls_def)
  with path_keeps [OF assms, of memory_ok] memory_step_ok have ok: "memory_ok (h, cs)" by blast
  then have "cs = [] \<longrightarrow> dom (ph_objs h) = {}" by (simp add: memory_ok_def)
  with run_eq [OF ok] owned_card [OF ok] show ?thesis by blast
qed

text \<open>Two calls, the first ends first.\<close>

theorem push_calls_free_their_objects_witness:
  "\<exists>h. path memory_step no_calls [Begins, Begins, Ends 2 True] (h, [5]) \<and> card (dom (ph_objs h)) = 3"
proof -
  let ?h1 = "snd (begin_call (fst no_calls))"
  let ?h2 = "snd (begin_call ?h1)"
  have b: "begin_call (fst no_calls) = (2, ?h1)" "begin_call ?h1 = (5, ?h2)"
    by (simp_all add: begin_call_eq no_calls_def)
  have "\<not> isl (SendtoAccessClosure_Run 2 (set_failed 2 True ?h2))"
    by (simp add: begin_call_eq no_calls_def SendtoAccessClosure_Run_def set_failed_def ph_delete_def)
  then obtain h where r: "SendtoAccessClosure_Run 2 (set_failed 2 True ?h2) = Inr h"
    by (cases "SendtoAccessClosure_Run 2 (set_failed 2 True ?h2)") auto
  have "memory_step (?h2, [5, 2]) (Ends 2 True) (h, [5])"
    using ends [of 2 "[5, 2]" True ?h2 h] r by simp
  with begins [OF b(1), of "[]"] begins [OF b(2), of "[2]"]
  have p: "path memory_step no_calls [Begins, Begins, Ends 2 True] (h, [5])"
    by (auto simp: no_calls_def intro!: path_Cons path1)
  from push_calls_free_their_objects [OF p] p show ?thesis by auto
qed

end
