(* ===== verification/Logic_Progress.thy ===== *)
theory Logic_Progress
  imports System_Threads
begin

text \<open>
  Progress of the logic server: no message is lost between its arrival and its answer, every
  thread makes at most four calls, and none waits for another.
\<close>

section \<open>How many calls a thread has left\<close>

fun remaining :: "thread \<Rightarrow> nat" where
  "remaining (Checking nm) = 4"
| "remaining (Listing nm) = 3"
| "remaining (Numbering nm q) = 2"
| "remaining (Saving nm q ids) = 1"

text \<open>The answer is one step of its own, also when it comes early.\<close>

abbreviation calls_left :: "thread list \<Rightarrow> nat" where
  "calls_left ts \<equiv> sum_list (map remaining ts)"

fun arrived :: "send_label \<Rightarrow> NewMsg option" where
  "arrived (Arrive nm) = Some nm"
| "arrived _ = None"

fun answered :: "send_label \<Rightarrow> NewMsg option" where
  "answered (Answers nm r) = Some nm"
| "answered _ = None"

definition arrivals :: "send_label list \<Rightarrow> NewMsg list" where
  "arrivals ls = List.map_filter arrived ls"

definition replies :: "send_label list \<Rightarrow> NewMsg list" where
  "replies ls = List.map_filter answered ls"

lemma account_simps [simp]:
  "arrivals [] = []" "arrivals (Arrive nm # ls) = nm # arrivals ls"
  "arrivals (Steps # ls) = arrivals ls" "arrivals (Answers nm r # ls) = arrivals ls"
  "replies [] = []" "replies (Arrive nm # ls) = replies ls"
  "replies (Steps # ls) = replies ls" "replies (Answers nm r # ls) = nm # replies ls"
  by (simp_all add: arrivals_def replies_def map_filter_simps)

lemma remaining_bounds: "1 \<le> remaining t" "remaining t \<le> 4"
  by (cases t; simp)+

lemma advance_goes_on:
  "advance st now t w = (w', Inr t') \<Longrightarrow> thread_msg t' = thread_msg t \<and> remaining t' < remaining t"
  by (induction st now t w rule: advance.induct) (auto split: prod.splits sum.splits if_splits)

section \<open>What a step does to the account\<close>

lemma logic_step_account:
  "logic_step st x l y \<Longrightarrow>
    mset (map thread_msg (snd x)) + mset (arrivals [l]) = mset (replies [l]) + mset (map thread_msg (snd y)) \<and>
    Suc (calls_left (snd y)) \<le> calls_left (snd x) + 5 * length (arrivals [l])"
proof (induction rule: logic_step.induct)
  case (moves now t w w' t' ts1 ts2)
  from advance_goes_on [OF this] show ?case by simp
next
  case (answers now t w w' r ts1 ts2)
  show ?case using remaining_bounds(1) [of t] by simp
qed simp

lemma account_Cons: "arrivals (l # ls) = arrivals [l] @ arrivals ls" "replies (l # ls) = replies [l] @ replies ls"
  by (cases l; simp)+

lemma logic_path_account:
  "path (logic_step st) x ls y \<Longrightarrow>
    mset (map thread_msg (snd x)) + mset (arrivals ls) = mset (replies ls) + mset (map thread_msg (snd y)) \<and>
    length ls + calls_left (snd y) \<le> calls_left (snd x) + 5 * length (arrivals ls)"
proof (induction rule: path.induct)
  case (path_Cons x l x1 ls y)
  note account = logic_step_account [OF path_Cons.hyps(1)]
  show ?case unfolding account_Cons [of l ls] mset_append length_append
  proof
    from account path_Cons.IH
    show "mset (map thread_msg (snd x)) + (mset (arrivals [l]) + mset (arrivals ls)) =
        mset (replies [l]) + mset (replies ls) + mset (map thread_msg (snd y))"
      by (metis (no_types) add.assoc add.commute)
    from account path_Cons.IH
    show "length (l # ls) + calls_left (snd y) \<le> calls_left (snd x) + 5 * (length (arrivals [l]) + length (arrivals ls))"
      by simp
  qed
qed simp

text \<open>A thread can always make its next call, whatever the others do.\<close>

lemma thread_can_go_on: "t \<in> set ts \<Longrightarrow> \<exists>l y. logic_step st (w, ts) l y \<and> arrived l = None"
proof -
  assume "t \<in> set ts"
  then obtain ts1 ts2 where ts: "ts = ts1 @ t # ts2" by (auto simp: in_set_conv_decomp)
  obtain w' out where a: "advance st 0 t w = (w', out)" by fastforce
  show ?thesis
  proof (cases out)
    case (Inl r)
    from logic_step.answers [OF a [unfolded Inl]] ts show ?thesis by (metis arrived.simps(3))
  next
    case (Inr t')
    from logic_step.moves [OF a [unfolded Inr]] ts show ?thesis by (metis arrived.simps(2))
  qed
qed

lemma calls_left_bound: "calls_left ts \<le> 4 * length ts"
  by (induction ts) (use remaining_bounds(2) in \<open>auto intro: add_mono simp: add.commute\<close>)

section \<open>The process\<close>

text \<open>
  A fault is no answer: \<^verbatim>\<open>CHECK_NE\<close> aborts the process and takes all threads with it, and after an
  access out of bounds nothing is known. In the steps of the threads a fault is a label like an
  answer; here it ends the process, and no thread makes a step any more.
\<close>

datatype 'w process = Up "'w server" | Down

fun faults :: "send_label \<Rightarrow> bool" where
  "faults (Answers nm (Inl (Fault f))) = True"
| "faults l = False"

inductive process_step :: "'w stubs \<Rightarrow> 'w process \<Rightarrow> send_label \<Rightarrow> 'w process \<Rightarrow> bool" for st where
  goes_on: "logic_step st x l y \<Longrightarrow> \<not> faults l \<Longrightarrow> process_step st (Up x) l (Up y)"
| dies: "logic_step st x l y \<Longrightarrow> faults l \<Longrightarrow> process_step st (Up x) l Down"

inductive_cases process_stepE: "process_step st x l y"

lemma faultsE: "faults l \<Longrightarrow> (\<And>nm f. l = Answers nm (Inl (Fault f)) \<Longrightarrow> P) \<Longrightarrow> P"
  by (cases l rule: faults.cases) auto

lemma down_stays: "path (process_step st) Down ls p \<Longrightarrow> ls = [] \<and> p = Down"
  by (erule path.cases) (auto elim: process_stepE)

text \<open>A run of the process is a run of its threads without a fault, but perhaps for the last step.\<close>

lemma process_path:
  "path (process_step st) (Up x) ls p \<Longrightarrow>
   (\<forall>l \<in> set (case p of Up y \<Rightarrow> ls | Down \<Rightarrow> butlast ls). \<not> faults l) \<and>
   (case p of Up y \<Rightarrow> path (logic_step st) x ls y
    | Down \<Rightarrow> \<exists>ls0 l y z. ls = ls0 @ [l] \<and> faults l \<and> path (logic_step st) x ls0 y \<and> logic_step st y l z)"
proof (induction "Up x" ls p arbitrary: x rule: path.induct)
  case path_Nil
  then show ?case by (simp add: path.path_Nil)
next
  case (path_Cons l q ls p)
  from path_Cons.hyps(1) show ?case
  proof (cases rule: process_step.cases)
    case (goes_on y)
    from path_Cons.hyps(3) [OF goes_on(1)] goes_on(2,3) show ?thesis
    proof (cases p)
      case (Up z)
      with path_Cons.hyps(3) [OF goes_on(1)] goes_on(2,3) show ?thesis by (auto intro: path.path_Cons)
    next
      case Down
      with path_Cons.hyps(3) [OF goes_on(1)] obtain ls0 l' y' z where
        ls: "ls = ls0 @ [l']" "faults l'" "path (logic_step st) y ls0 y'" "logic_step st y' l' z"
        and no: "\<forall>l \<in> set (butlast ls). \<not> faults l" by auto
      have "path (logic_step st) x (l # ls0) y'" by (rule path.path_Cons [OF goes_on(2) ls(3)])
      with ls(1,2,4) have "\<exists>ls1 k y z. l # ls = ls1 @ [k] \<and> faults k \<and> path (logic_step st) x ls1 y \<and> logic_step st y k z"
        by (metis append_Cons)
      with ls(1) no goes_on(3) Down show ?thesis by simp
    qed
  next
    case (dies y)
    from down_stays path_Cons.hyps(2) dies(1) have "ls = [] \<and> p = Down" by blast
    moreover have "\<exists>ls1 k z y. [l] = ls1 @ [k] \<and> faults k \<and> path (logic_step st) x ls1 z \<and> logic_step st z k y"
      using dies(2,3) path.path_Nil by (metis append_Nil)
    ultimately show ?thesis by simp
  qed
qed

lemma process_run:
  "path (logic_step st) x ls y \<Longrightarrow> \<forall>l \<in> set ls. \<not> faults l \<Longrightarrow> path (process_step st) (Up x) ls (Up y)"
  by (induction rule: path.induct) (auto intro: path.path_Nil path.path_Cons goes_on)

section \<open>The property\<close>

text \<open>
  C13: whatever the servers and the network do: as long as the process lives, every message that has
  arrived is either answered, once, with a reply or an error, or still in its thread; a run has at
  most five steps a message, its arrival included; and while a thread is left the process can make a
  step without a new message. So when no more messages arrive, after finitely many steps every
  message has its answer or the process has ended. It ends only with a fault in the thread of a
  message that has arrived and was not answered, and what was answered before stays answered once.
\<close>

theorem every_message_is_answered:
  assumes "path (process_step st) (Up (w, ts)) ls p"
  shows "length ls \<le> 4 * length ts + 5 * length (arrivals ls) \<and>
    (case p of
       Up (w', ts') \<Rightarrow>
         mset (map thread_msg ts) + mset (arrivals ls) = mset (replies ls) + mset (map thread_msg ts') \<and>
         (\<forall>l \<in> set ls. \<not> faults l) \<and>
         (ts' \<noteq> [] \<longrightarrow> (\<exists>l q. process_step st (Up (w', ts')) l q \<and> arrived l = None))
     | Down \<Rightarrow> \<exists>ls0 nm f. ls = ls0 @ [Answers nm (Inl (Fault f))] \<and> (\<forall>l \<in> set ls0. \<not> faults l) \<and>
         add_mset nm (mset (replies ls0)) \<subseteq># mset (map thread_msg ts) + mset (arrivals ls0))"
proof (cases p)
  case (Up y)
  obtain w' ts' where y: "y = (w', ts')" by fastforce
  from process_path [OF assms] Up y have run: "path (logic_step st) (w, ts) ls (w', ts')"
    and no: "\<forall>l \<in> set ls. \<not> faults l" by auto
  have "\<exists>l q. process_step st (Up (w', ts')) l q \<and> arrived l = None" if "ts' \<noteq> []"
    using thread_can_go_on [OF hd_in_set [OF that], of st w'] by (metis goes_on dies)
  with logic_path_account [OF run] calls_left_bound [of ts] no Up y show ?thesis by simp
next
  case Down
  from process_path [OF assms] Down obtain ls0 l y z where ls: "ls = ls0 @ [l]" "faults l"
    "path (logic_step st) (w, ts) ls0 y" "logic_step st y l z" and no: "\<forall>l \<in> set ls0. \<not> faults l" by auto
  from ls(2) obtain nm f where l: "l = Answers nm (Inl (Fault f))" by (rule faultsE)
  have "path (logic_step st) (w, ts) ls z" unfolding ls(1) by (rule path_append [OF ls(3) path1 [where step = "logic_step st", OF ls(4)]])
  from logic_path_account [OF this] calls_left_bound [of ts]
  have "length ls \<le> 4 * length ts + 5 * length (arrivals ls)" by simp
  moreover from logic_path_account [OF ls(3)] logic_step_account [OF ls(4)] l
  have "add_mset nm (mset (replies ls0)) \<subseteq># mset (map thread_msg ts) + mset (arrivals ls0)" by simp
  ultimately show ?thesis using Down ls(1) l no by auto
qed

text \<open>
  The message and its retransmission that race: both are answered, in ten steps.
\<close>

theorem every_message_is_answered_witness:
  "arrivals (fst raced) = [hi_to_2, hi_to_2] \<and> snd (snd raced) = [] \<and> length (fst raced) = 10 \<and>
   mset (replies (fst raced)) = {#hi_to_2, hi_to_2#}"
proof -
  have "case raced of (ls, w, ts) \<Rightarrow>
      arrivals ls = [hi_to_2, hi_to_2] \<and> ts = [] \<and> length ls = 10 \<and> list_all (\<lambda>l. \<not> faults l) ls" by code_simp
  then have n: "arrivals (fst raced) = [hi_to_2, hi_to_2]" "snd (snd raced) = []" "length (fst raced) = 10"
    and "\<forall>l \<in> set (fst raced). \<not> faults l"
    by (auto simp: case_prod_beta list_all_iff)
  from every_message_is_answered [OF process_run [OF raced_path this(4)]] n show ?thesis by simp
qed

end
