(* ===== verification/Logic_Channels.thy ===== *)
theory Logic_Channels
  imports Startup Logic_Correct
begin

text \<open>
  The channels of the background thread: \<^verbatim>\<open>access_map_\<close> with what \<^verbatim>\<open>Channel::Init\<close> left in it. As
  long as every channel can be initialised, a thread makes the calls of \<open>SendtoPeers\<close>; a channel
  that could not is kept as it is.
\<close>

section \<open>The map of channels\<close>

record push_flags =
  pf_connection_type :: string
  pf_timeout_ms :: int
  pf_max_retry :: int

definition push_defaults :: push_flags where
  "push_defaults = \<lparr>pf_connection_type = ''single'', pf_timeout_ms = 100, pf_max_retry = 3\<rparr>"

definition access_channel :: "push_flags \<Rightarrow> string \<Rightarrow> channel" where
  "access_channel fl addr = \<lparr>ch_addr = addr, ch_load_balancer = None,
     ch_options = Some \<lparr>co_protocol = ''baidu_std'', co_connection_type = pf_connection_type fl,
       co_timeout_ms = pf_timeout_ms fl, co_max_retry = pf_max_retry fl\<rparr>\<rparr>"

text \<open>An entry is a channel; \<open>Some None\<close> is one whose \<^verbatim>\<open>Init\<close> has failed, which is not looked at.\<close>

type_synonym access_map = "string \<Rightarrow> channel option option"

definition open_channel :: "brpc \<Rightarrow> push_flags \<Rightarrow> string \<Rightarrow> access_map \<Rightarrow> access_map" where
  "open_channel br fl addr access_map =
     (if access_map addr = None then access_map(addr := Some (init_channel br (access_channel fl addr))) else access_map)"

text \<open>The vector of channels; \<^verbatim>\<open>operator[]\<close> finds the entry that the test has made sure of.\<close>

fun collect_channels ::
  "brpc \<Rightarrow> push_flags \<Rightarrow> Session list \<Rightarrow> access_map \<Rightarrow> channel option list \<times> access_map" where
  "collect_channels br fl [] access_map = ([], access_map)"
| "collect_channels br fl (s # ss) access_map =
     (if se_has_session s
      then (let access_map1 = open_channel br fl (se_addr s) access_map in
            case collect_channels br fl ss access_map1 of
              (vec, m) \<Rightarrow> (the (access_map1 (se_addr s)) # vec, m))
      else collect_channels br fl ss access_map)"

definition push_thread ::
  "brpc \<Rightarrow> push_flags \<Rightarrow> 'w stubs \<Rightarrow> SendtoPeersArgs \<Rightarrow> 'w \<Rightarrow> access_map \<Rightarrow>
   'w \<times> access_map \<times> (fault + (channel option \<times> Msg) list)" where
  "push_thread br fl st args w access_map =
     (let user_ids = map un_user_id (drop 1 (pa_id_request args)) in
      case st_GetSessions st user_ids w of
        (w1, Inl (Fault f)) \<Rightarrow> (w1, access_map, Inl f)
      | (w1, Inl (Failed _ _)) \<Rightarrow> (w1, access_map, Inr [])
      | (w1, Inr sessions) \<Rightarrow>
          (case collect_channels br fl sessions access_map of (channel_vec, access_map1) \<Rightarrow>
            (w1, access_map1, send_loop args user_ids channel_vec 0 0 sessions)))"

section \<open>With every channel initialised\<close>

definition all_open :: "access_map \<Rightarrow> bool" where
  "all_open m \<longleftrightarrow> (\<forall>a ch. m a = Some ch \<longrightarrow> (\<exists>c. ch = Some c \<and> ch_addr c = a))"

abbreviation leads_to :: "channel option \<Rightarrow> string" where
  "leads_to ch \<equiv> ch_addr (the ch)"

lemma open_channel_open:
  assumes "\<forall>a. br_Init br (access_channel fl a)" "all_open m"
  shows "all_open (open_channel br fl a m)" "dom (open_channel br fl a m) = insert a (dom m)"
    "leads_to (the (open_channel br fl a m a)) = a"
proof -
  show o: "all_open (open_channel br fl a m)" and dom: "dom (open_channel br fl a m) = insert a (dom m)"
    using assms by (auto simp: all_open_def open_channel_def init_channel_def access_channel_def split: if_splits)
  from dom obtain ch where "open_channel br fl a m a = Some ch" by auto
  with o show "leads_to (the (open_channel br fl a m a)) = a" unfolding all_open_def by fastforce
qed

lemma collect_channels_open:
  assumes br: "\<forall>a. br_Init br (access_channel fl a)"
  shows "all_open m \<Longrightarrow> collect_channels br fl ss m = (vec, m1) \<Longrightarrow>
    all_open m1 \<and> channels_for ss (dom m) = (map leads_to vec, dom m1)"
proof (induction ss arbitrary: m vec)
  case (Cons s ss)
  show ?case
  proof (cases "se_has_session s")
    case True
    note o = open_channel_open [OF br Cons.prems(1), of "se_addr s"]
    from True Cons.prems(2) obtain vec' where
      c: "collect_channels br fl ss (open_channel br fl (se_addr s) m) = (vec', m1)"
      and vec: "vec = the (open_channel br fl (se_addr s) m (se_addr s)) # vec'"
      by (auto simp: Let_def split: prod.splits)
    from Cons.IH [OF o(1) c] True vec o(2,3) show ?thesis by simp
  qed (use Cons in simp)
qed simp

text \<open>The loop does with the channels what it does with their addresses.\<close>

lemma send_loop_map:
  "send_loop args us (map f vec) i j ss = map_sum id (map (apfst f)) (send_loop args us vec i j ss)"
proof (induction args us vec i j ss rule: send_loop.induct)
  case (2 args us vec i j s ss)
  show ?case
  proof (cases "msg_ids (pa_id_reply args) (i + 1)")
    case (Inr ids)
    then show ?thesis using 2 by (cases "send_loop args us vec (Suc i) (Suc j) ss") (auto simp: fbind_simps)
  qed (use 2 in \<open>auto simp: fbind_simps\<close>)
qed simp

text \<open>
  As long as brpc initialises the channels to the access servers, a background thread does
  what \<open>SendtoPeers\<close> does over addresses: the same calls, in the same order, to the channels that
  lead to them, and the same map.
\<close>

lemma push_thread_refines_SendtoPeers:
  assumes "\<forall>a. br_Init br (access_channel fl a)" and "all_open m"
    and "push_thread br fl st args w m = (w1, m1, r)"
  shows "all_open m1 \<and> SendtoPeers st args w (dom m) = (w1, dom m1, map_sum id (map (apfst leads_to)) r)"
proof -
  obtain w' r' where g: "st_GetSessions st (map un_user_id (drop 1 (pa_id_request args))) w = (w', r')" by fastforce
  show ?thesis
  proof (cases r')
    case (Inl e)
    with g assms(2,3) show ?thesis by (cases e) (auto simp: push_thread_def SendtoPeers_def)
  next
    case (Inr ss)
    obtain vec m' where c: "collect_channels br fl ss m = (vec, m')" by fastforce
    with g Inr assms(3) have "w1 = w'" "m1 = m'"
      and r: "r = send_loop args (map un_user_id (drop 1 (pa_id_request args))) vec 0 0 ss"
      by (auto simp: push_thread_def)
    with collect_channels_open [OF assms(1,2) c] g Inr show ?thesis
      by (simp add: SendtoPeers_def send_loop_map)
  qed
qed

section \<open>The calls of a thread\<close>

text \<open>An address that the map does not know gets a channel, with whatever \<^verbatim>\<open>Init\<close> left of it; the others keep theirs.\<close>

definition with_channels :: "brpc \<Rightarrow> push_flags \<Rightarrow> string set \<Rightarrow> access_map \<Rightarrow> access_map" where
  "with_channels br fl addrs m = (\<lambda>a. case m a of Some ch \<Rightarrow> Some ch
     | None \<Rightarrow> if a \<in> addrs then Some (init_channel br (access_channel fl a)) else None)"

lemma with_one_channel: "with_channels br fl addrs (open_channel br fl a m) = with_channels br fl (insert a addrs) m"
  by (auto simp: with_channels_def open_channel_def fun_eq_iff split: option.split)

lemma collect_channels_spec:
  "collect_channels br fl ss m =
     (let m1 = with_channels br fl (se_addr ` set (filter se_has_session ss)) m in
      (map (\<lambda>s. the (m1 (se_addr s))) (filter se_has_session ss), m1))"
proof (induction ss arbitrary: m)
  case Nil
  have "with_channels br fl {} m = m" by (auto simp: with_channels_def fun_eq_iff split: option.split)
  then show ?case by simp
next
  case (Cons s ss)
  have "open_channel br fl (se_addr s) m (se_addr s) = with_channels br fl (insert (se_addr s) B) m (se_addr s)" for B
    by (auto simp: open_channel_def with_channels_def split: option.split)
  with Cons show ?case by (simp add: Let_def with_one_channel)
qed

lemma zip_users: "zip (map f ss) (zip ss ids) = map (\<lambda>(s, e). (f s, s, e)) (zip ss ids)"
  by (induction ss ids rule: list_induct2') auto

lemma push_thread_eq:
  assumes g: "st_GetSessions st (map un_user_id (drop 1 (pa_id_request args))) w = (w1, Inr ss)"
    and users: "map se_user_id ss = map un_user_id (drop 1 (pa_id_request args))"
    and len: "length (pa_id_reply args) = length (pa_id_request args)" "pa_id_request args \<noteq> []"
    and m1: "m1 = with_channels br fl (se_addr ` set (filter se_has_session ss)) m"
  shows "push_thread br fl st args w m = (w1, m1, Inr (map (\<lambda>(s, e). (the (m1 (se_addr s)),
      peer_msg (pa_new_msg args) (pa_sender args) (se_user_id s) (mi_start_msg_id e)))
    (filter (\<lambda>(s, e). se_has_session s) (zip ss (drop 1 (pa_id_reply args))))))"
proof -
  let ?us = "map un_user_id (drop 1 (pa_id_request args))" and ?ch = "\<lambda>a. the (m1 a)"
  have n: "length ss = length ?us" using arg_cong [OF users, of length] by simp
  have "1 \<le> length (pa_id_request args)" using len(2) by (cases "pa_id_request args") auto
  with n len(1) have "send_loop args ?us (map se_addr (filter se_has_session ss)) 0 0 ss =
      Inr (peer_calls args ?us ss (drop 1 (pa_id_reply args)))"
    by (subst send_loop_spec) auto
  then have "send_loop args ?us (map ?ch (map se_addr (filter se_has_session ss))) 0 0 ss =
      Inr (map (apfst ?ch) (peer_calls args ?us ss (drop 1 (pa_id_reply args))))"
    unfolding send_loop_map by simp
  moreover have "collect_channels br fl ss m = (map ?ch (map se_addr (filter se_has_session ss)), m1)"
    by (simp add: collect_channels_spec Let_def m1 comp_def)
  ultimately have "push_thread br fl st args w m =
      (w1, m1, Inr (map (apfst ?ch) (peer_calls args ?us ss (drop 1 (pa_id_reply args)))))"
    using g by (simp add: push_thread_def)
  moreover have "map (apfst ?ch) (peer_calls args ?us ss ids) = map (\<lambda>(s, e). (?ch (se_addr s),
      peer_msg (pa_new_msg args) (pa_sender args) (se_user_id s) (mi_start_msg_id e)))
    (filter (\<lambda>(s, e). se_has_session s) (zip ss ids))" for ids
    unfolding users [symmetric] peer_calls_def zip_users by (simp add: filter_map comp_def split_def)
  ultimately show ?thesis by simp
qed

section \<open>A channel that could not be initialised\<close>

text \<open>The map knows under an address only a channel that leads there, or a failed one.\<close>

definition addressed :: "access_map \<Rightarrow> bool" where
  "addressed m \<longleftrightarrow> (\<forall>a c. m a = Some (Some c) \<longrightarrow> ch_addr c = a)"

definition dead :: "string \<Rightarrow> access_map \<Rightarrow> bool" where
  "dead a m \<longleftrightarrow> addressed m \<and> m a = Some None"

lemma open_channel_addressed: "addressed m \<Longrightarrow> addressed (open_channel br fl b m)"
  by (auto simp: addressed_def open_channel_def init_channel_def access_channel_def split: if_splits)

lemma open_channel_dead: "dead a m \<Longrightarrow> dead a (open_channel br fl b m)"
  using open_channel_addressed [of m br fl b] by (auto simp: dead_def open_channel_def)

lemma collect_channels_dead:
  "dead a m \<Longrightarrow> collect_channels br fl ss m = (vec, m1) \<Longrightarrow>
   dead a m1 \<and> (\<forall>c. Some c \<in> set vec \<longrightarrow> ch_addr c \<noteq> a)"
proof (induction ss arbitrary: m vec)
  case (Cons s ss)
  show ?case
  proof (cases "se_has_session s")
    case True
    let ?m = "open_channel br fl (se_addr s) m"
    from True Cons.prems(2) obtain vec' where
      c: "collect_channels br fl ss ?m = (vec', m1)" and vec: "vec = the (?m (se_addr s)) # vec'"
      by (auto simp: Let_def split: prod.splits)
    note d = open_channel_dead [OF Cons.prems(1), of br fl "se_addr s"]
    have "ch_addr c \<noteq> a" if "Some c = the (?m (se_addr s))" for c
    proof -
      have "?m (se_addr s) \<noteq> None" by (auto simp: open_channel_def)
      with that have "?m (se_addr s) = Some (Some c)" by auto
      with d show ?thesis by (auto simp: dead_def addressed_def)
    qed
    with Cons.IH [OF d c] vec show ?thesis by auto
  qed (use Cons in simp)
qed simp

lemma send_loop_channels:
  "send_loop args us vec i j ss = Inr calls \<Longrightarrow> fst ` set calls \<subseteq> set vec"
proof (induction args us vec i j ss arbitrary: calls rule: send_loop.induct)
  case (2 args us vec i j s ss)
  then show ?case by (fastforce simp: fbind_Inr split: if_splits)
qed simp

text \<open>
  The background threads of a run, in the order in which they take the mutex of the map. What
  \<^verbatim>\<open>Init\<close> answers may be different each time.
\<close>

type_synonym push_label = "(channel option \<times> Msg) list"

inductive push_step :: "'w stubs \<Rightarrow> push_flags \<Rightarrow> access_map \<Rightarrow> push_label \<Rightarrow> access_map \<Rightarrow> bool" for st fl where
  pushes: "push_thread br fl st args w m = (w1, m1, Inr calls) \<Longrightarrow> push_step st fl m calls m1"

lemma push_step_dead:
  assumes "push_step st fl m calls m1" "dead a m"
  shows "dead a m1 \<and> (\<forall>c msg. (Some c, msg) \<in> set calls \<longrightarrow> ch_addr c \<noteq> a)"
  using assms(1)
proof (cases rule: push_step.cases)
  case (pushes br args w w1)
  let ?us = "map un_user_id (drop 1 (pa_id_request args))"
  obtain w' r' where g: "st_GetSessions st ?us w = (w', r')" by fastforce
  show ?thesis
  proof (cases r')
    case (Inl e)
    with g pushes assms(2) show ?thesis by (cases e) (auto simp: push_thread_def)
  next
    case (Inr ss)
    obtain vec m' where c: "collect_channels br fl ss m = (vec, m')" by fastforce
    with g Inr pushes have "m1 = m'" and "send_loop args ?us vec 0 0 ss = Inr calls"
      by (auto simp: push_thread_def)
    with collect_channels_dead [OF assms(2) c] send_loop_channels show ?thesis by fastforce
  qed
qed

lemma push_path_dead:
  "path (push_step st fl) m ls m' \<Longrightarrow> dead a m \<Longrightarrow>
   \<forall>calls \<in> set ls. \<forall>c msg. (Some c, msg) \<in> set calls \<longrightarrow> ch_addr c \<noteq> a"
proof (induction rule: path.induct)
  case (path_Cons m calls m1 ls m')
  from push_step_dead [OF path_Cons.hyps(1) path_Cons.prems] path_Cons.IH show ?case by simp
qed simp

lemma failed_init_is_kept:
  assumes "addressed m" "m (se_addr s) = None" "s \<in> set ss" "se_has_session s"
    and "\<forall>c. ch_addr c = se_addr s \<longrightarrow> \<not> br_Init br c"
  shows "dead (se_addr s) (snd (collect_channels br fl ss m))"
  using assms
proof (induction ss arbitrary: m)
  case (Cons t ss)
  let ?m = "open_channel br fl (se_addr t) m"
  show ?case
  proof (cases "se_has_session t")
    case False
    with Cons show ?thesis by auto
  next
    case True
    then have e: "snd (collect_channels br fl (t # ss) m) = snd (collect_channels br fl ss ?m)"
      by (simp add: Let_def split: prod.splits)
    show ?thesis
    proof (cases "se_addr t = se_addr s")
      case True
      have "?m (se_addr s) = Some None"
        using Cons.prems(2,5) True by (simp add: open_channel_def init_channel_def access_channel_def)
      then have "dead (se_addr s) ?m" by (simp only: dead_def open_channel_addressed [OF Cons.prems(1)])
      from collect_channels_dead [OF this prod.collapse [symmetric], of br fl ss] show ?thesis unfolding e by simp
    next
      case False
      have "s \<in> set ss" using Cons.prems(3) False by auto
      moreover have "?m (se_addr s) = None" using Cons.prems(2) False by (simp add: open_channel_def)
      ultimately show ?thesis
        using Cons.IH [OF open_channel_addressed [OF Cons.prems(1)]] Cons.prems(4,5) unfolding e by simp
    qed
  qed
qed simp

text \<open>
  C32: the answer of \<^verbatim>\<open>Init\<close> is not looked at: once the channel to an access server could not be
  initialised for one push, no later push of this logic server to that address is ever made,
  however many threads push there and whatever brpc could do for them.
\<close>

theorem a_failed_channel_is_never_opened_again:
  assumes "addressed m" and "m (se_addr s) = None" and "s \<in> set ss" and "se_has_session s"
    and "\<forall>c. ch_addr c = se_addr s \<longrightarrow> \<not> br_Init br c"
    and "st_GetSessions st (map un_user_id (drop 1 (pa_id_request args))) w = (w1, Inr ss)"
    and "push_thread br fl st args w m = (w1, m1, r)" and "path (push_step st fl) m1 ls m2"
  shows "\<forall>calls \<in> set ls. \<forall>c msg. (Some c, msg) \<in> set calls \<longrightarrow> ch_addr c \<noteq> se_addr s"
proof -
  from assms(6,7) have "m1 = snd (collect_channels br fl ss m)"
    by (auto simp: push_thread_def split: prod.splits)
  with failed_init_is_kept [OF assms(1-5)] push_path_dead [OF assms(8)] show ?thesis by simp
qed

section \<open>Threads to evaluate on\<close>

definition brpc_that :: "(channel \<Rightarrow> bool) \<Rightarrow> brpc" where
  "brpc_that ok = \<lparr>br_Init = ok, br_AddService = True, br_Start = (\<lambda>port idle. True)\<rparr>"

definition at_access :: Session where
  "at_access = \<lparr>se_has_session = True, se_user_id = 2, se_addr = ''a''\<rparr>"

definition session_stubs :: "unit stubs" where
  "session_stubs = quiet_stubs\<lparr>st_GetSessions := (\<lambda>us w. (w, Inr [at_access]))\<rparr>"

definition to_2 :: SendtoPeersArgs where
  "to_2 = \<lparr>pa_id_request = [one_id 1, one_id 2],
     pa_id_reply = [\<lparr>mi_user_id = 1, mi_start_msg_id = 8, mi_msg_id_num = 1\<rparr>,
                    \<lparr>mi_user_id = 2, mi_start_msg_id = 9, mi_msg_id_num = 1\<rparr>],
     pa_new_msg = some_new_msg, pa_sender = 1\<rparr>"

abbreviation pushed_with :: "bool \<Rightarrow> access_map \<Rightarrow> unit \<times> access_map \<times> (fault + push_label)" where
  "pushed_with ok \<equiv> push_thread (brpc_that (\<lambda>c. ok)) push_defaults session_stubs to_2 ()"

definition msg_9 :: Msg where
  "msg_9 = peer_msg some_new_msg 1 2 9"

lemmas push_evaluation = push_thread_def session_stubs_def quiet_stubs_def to_2_def one_id_def Let_def
  at_access_def open_channel_def init_channel_def brpc_that_def msg_ids_def fbind_simps msg_9_def

lemma pushed_open: "pushed_with True (\<lambda>a. None) =
    ((), [''a'' \<mapsto> Some (access_channel push_defaults ''a'')], Inr [(Some (access_channel push_defaults ''a''), msg_9)])"
  by (simp add: push_evaluation)

lemma pushed_failed: "pushed_with False (\<lambda>a. None) = ((), [''a'' \<mapsto> None], Inr [(None, msg_9)])"
  by (simp add: push_evaluation)

lemma pushed_later: "pushed_with True [''a'' \<mapsto> None] = ((), [''a'' \<mapsto> None], Inr [(None, msg_9)])"
  by (simp add: push_evaluation)

lemma push_thread_refines_SendtoPeers_witness:
  "SendtoPeers session_stubs to_2 () {} = ((), {''a''}, Inr [(''a'', msg_9)])"
  using push_thread_refines_SendtoPeers [OF _ _ pushed_open]
  by (simp add: all_open_def brpc_that_def access_channel_def)

theorem a_failed_channel_is_never_opened_again_witness:
  "path (push_step session_stubs push_defaults) [''a'' \<mapsto> None] [[(None, msg_9)]] [''a'' \<mapsto> None] \<and>
   (\<nexists>c msg. (Some c, msg) \<in> set (concat [[(None, msg_9)]]) \<and> ch_addr c = ''a'')"
proof
  show p: "path (push_step session_stubs push_defaults) [''a'' \<mapsto> None] [[(None, msg_9)]] [''a'' \<mapsto> None]"
    by (rule path1) (rule pushes [OF pushed_later])
  have "st_GetSessions session_stubs (map un_user_id (drop 1 (pa_id_request to_2))) () = ((), Inr [at_access])"
    by (simp add: session_stubs_def)
  from a_failed_channel_is_never_opened_again [OF _ _ _ _ _ this pushed_failed p, of at_access]
  show "\<nexists>c msg. (Some c, msg) \<in> set (concat [[(None, msg_9)]]) \<and> ch_addr c = ''a''"
    by (simp add: addressed_def at_access_def brpc_that_def)
qed

end
