(* ===== verification/Deployment.thy ===== *)
theory Deployment
  imports Proxy_Values Client
begin

text \<open>
  The whole way of a call: from the client over the network to the access server, from there
  over the network to a logic server, and from there to the id generator and the database
  proxy (\<open>System\<close>). This theory puts the models of the servers one behind the other as the
  client's \<open>access_api\<close>, and says what one attempt to send a message can have done.
\<close>

section \<open>The site\<close>

text \<open>
  What the servers are started with and what they run on. \<open>si_reuse\<close> says whether brpc makes a
  call on a controller that was used before and not reset. The clocks are functions of the
  number of calls that the client has made.
\<close>

record ('tm, 'd, 'r, 'q) site =
  si_be :: "('r, 'q) backends"
  si_ldb :: "'d leveldb"
  si_each_gen_id_num :: int
  si_timers :: "'tm timer_ops"
  si_timeout_s :: int
  si_crc32c :: "nat list \<Rightarrow> nat"
  si_addr :: string
  si_seconds :: "nat \<Rightarrow> int"
  si_micros :: "nat \<Rightarrow> int"
  si_reuse :: bool

abbreviation si_stubs :: "('tm, 'd, 'r, 'q) site \<Rightarrow> ('d, 'r, 'q) world stubs" where
  "si_stubs si \<equiv> deployed (si_be si) (si_ldb si) (si_each_gen_id_num si)"

text \<open>
  Behind the access server: the world of the logic servers, the background threads they have
  started, and the fates of the calls that the access server makes. The logic servers keep no
  state that \<open>SendMsg\<close> reads, so which one the hash selects makes no difference.
\<close>

record ('d, 'r, 'q) behind =
  bh_world :: "('d, 'r, 'q) world"
  bh_pushes :: "SendtoPeersArgs list"
  bh_net :: "fate list"

text \<open>
  What the client sees: the access server (\<open>None\<close> once its process has ended), what is behind
  it, the fates of the client's calls, and their number.
\<close>

record ('tm, 'd, 'r, 'q) front =
  fr_access :: "'tm access option"
  fr_behind :: "('d, 'r, 'q) behind"
  fr_net :: "fate list"
  fr_tick :: nat

abbreviation fr_world :: "('tm, 'd, 'r, 'q) front \<Rightarrow> ('d, 'r, 'q) world" where
  "fr_world s \<equiv> bh_world (fr_behind s)"

section \<open>From the access server to the logic servers\<close>

definition to_logic ::
  "(('d, 'r, 'q) behind \<Rightarrow> ('d, 'r, 'q) behind \<times> 'a result) \<Rightarrow> ('d, 'r, 'q) behind \<Rightarrow> ('d, 'r, 'q) behind \<times> 'a result" where
  "to_logic h b = (case bh_net b of [] \<Rightarrow> h b | f # fs \<Rightarrow> rpc f h (b\<lparr>bh_net := fs\<rparr>))"

definition on_world ::
  "(('d, 'r, 'q) world \<Rightarrow> ('d, 'r, 'q) world \<times> 'a result) \<Rightarrow> ('d, 'r, 'q) behind \<Rightarrow> ('d, 'r, 'q) behind \<times> 'a result" where
  "on_world h b = (case h (bh_world b) of (w, r) \<Rightarrow> (b\<lparr>bh_world := w\<rparr>, r))"

text \<open>A logic server answers and starts the background thread, when there is one.\<close>

definition logic_SendMsg ::
  "('tm, 'd, 'r, 'q) site \<Rightarrow> nat \<Rightarrow> NewMsg \<Rightarrow> ('d, 'r, 'q) behind \<Rightarrow> ('d, 'r, 'q) behind \<times> MsgReply result" where
  "logic_SendMsg si t new_msg b =
     (case SendMsg (si_stubs si) (si_seconds si t) new_msg (bh_world b) of
        (w, Inl e) \<Rightarrow> (b\<lparr>bh_world := w\<rparr>, Inl e)
      | (w, Inr (reply, push)) \<Rightarrow>
          (b\<lparr>bh_world := w, bh_pushes := bh_pushes b @ (case push of None \<Rightarrow> [] | Some args \<Rightarrow> [args])\<rparr>, Inr reply))"

definition logic_remote :: "('tm, 'd, 'r, 'q) site \<Rightarrow> nat \<Rightarrow> ('d, 'r, 'q) behind remote" where
  "logic_remote si t = \<lparr>
     rm_SendMsg = (\<lambda>code new_msg. to_logic (logic_SendMsg si t new_msg)),
     rm_GetMsgs = (\<lambda>code msg_range. to_logic (on_world (logic_GetMsgs (si_stubs si) msg_range))),
     rm_GetFriends = (\<lambda>code user_id. to_logic (on_world (logic_GetFriends (si_stubs si) user_id))),
     rm_GetGroups = (\<lambda>code user_id. to_logic (on_world (logic_GetGroups (si_stubs si) user_id))),
     rm_GetGroupMembers = (\<lambda>code group_id. to_logic (on_world (logic_GetGroupMembers (si_stubs si) group_id))),
     rm_AuthAndSaveSession = (\<lambda>signin_data. to_logic (on_world (\<lambda>w.
       case AuthAndSaveSession (si_be si) signin_data (wd_db w) of (db, r) \<Rightarrow> (w\<lparr>wd_db := db\<rparr>, r))))\<rparr>"

section \<open>From the client to the access server\<close>

text \<open>
  A handler of the access server that faults ends its process: that call and every later one
  fail.
\<close>

definition on_access ::
  "(nat \<Rightarrow> 'tm access \<Rightarrow> ('d, 'r, 'q) behind \<Rightarrow> fault + 'tm access \<times> ('d, 'r, 'q) behind \<times> 'a result) \<Rightarrow>
   ('tm, 'd, 'r, 'q) front \<Rightarrow> ('tm, 'd, 'r, 'q) front \<times> 'a result" where
  "on_access h s =
     (case fr_access s of
        None \<Rightarrow> (s, Inl (Failed 112 ''Host is down''))
      | Some acc \<Rightarrow>
          (case h (fr_tick s) acc (fr_behind s) of
             Inl f \<Rightarrow> (s\<lparr>fr_access := None\<rparr>, Inl (Failed 112 ''Host is down''))
           | Inr (acc', b, r) \<Rightarrow> (s\<lparr>fr_access := Some acc', fr_behind := b\<rparr>, r)))"

definition to_access ::
  "(nat \<Rightarrow> 'tm access \<Rightarrow> ('d, 'r, 'q) behind \<Rightarrow> fault + 'tm access \<times> ('d, 'r, 'q) behind \<times> 'a result) \<Rightarrow>
   ('tm, 'd, 'r, 'q) front \<Rightarrow> ('tm, 'd, 'r, 'q) front \<times> 'a result" where
  "to_access h s =
     (let s1 = s\<lparr>fr_tick := Suc (fr_tick s)\<rparr> in
      case fr_net s1 of [] \<Rightarrow> on_access h s1 | f # fs \<Rightarrow> rpc f (on_access h) (s1\<lparr>fr_net := fs\<rparr>))"

definition passing ::
  "(nat \<Rightarrow> ('d, 'r, 'q) behind \<Rightarrow> ('d, 'r, 'q) behind \<times> 'a result) \<Rightarrow>
   nat \<Rightarrow> 'tm access \<Rightarrow> ('d, 'r, 'q) behind \<Rightarrow> fault + 'tm access \<times> ('d, 'r, 'q) behind \<times> 'a result" where
  "passing h t acc b = (case h t b of (b', r) \<Rightarrow> Inr (acc, b', r))"

text \<open>
  A call on a controller that was used before is refused by brpc where it does not make it. The
  answer of a pull comes from what other users do, so here it is a parameter.
\<close>

definition send_at_access ::
  "('tm, 'd, 'r, 'q) site \<Rightarrow> NewMsg \<Rightarrow> nat \<Rightarrow> 'tm access \<Rightarrow> ('d, 'r, 'q) behind \<Rightarrow>
   fault + 'tm access \<times> ('d, 'r, 'q) behind \<times> MsgReply result" where
  "send_at_access si new_msg t = access_SendMsg (si_timers si) (logic_remote si t) (si_crc32c si)
     (si_timeout_s si) (si_micros si t) new_msg"

definition front_SendMsg ::
  "('tm, 'd, 'r, 'q) site \<Rightarrow> bool \<Rightarrow> NewMsg \<Rightarrow> ('tm, 'd, 'r, 'q) front \<Rightarrow> ('tm, 'd, 'r, 'q) front \<times> MsgReply result" where
  "front_SendMsg si cntl_used new_msg s =
     (if cntl_used \<and> \<not> si_reuse si then (s, Inl (Failed EINVAL ''Fail to lock call_id''))
      else to_access (send_at_access si new_msg) s)"

definition front_api ::
  "('tm, 'd, 'r, 'q) site \<Rightarrow> (user_id_t \<Rightarrow> ('tm, 'd, 'r, 'q) front \<Rightarrow> ('tm, 'd, 'r, 'q) front \<times> Msg list result) \<Rightarrow>
   ('tm, 'd, 'r, 'q) front access_api" where
  "front_api si pull = \<lparr>
     api_SignIn = (\<lambda>d. to_access (passing (\<lambda>t. access_SignIn (logic_remote si t) (si_addr si) d))),
     api_GetFriends = (\<lambda>u. to_access (passing (\<lambda>t. access_GetFriends (logic_remote si t) (si_crc32c si) u))),
     api_GetGroups = (\<lambda>u. to_access (passing (\<lambda>t. access_GetGroups (logic_remote si t) (si_crc32c si) u))),
     api_GetGroupMembers = (\<lambda>g. to_access (passing (\<lambda>t. access_GetGroupMembers (logic_remote si t) (si_crc32c si) g))),
     api_GetMsgs = (\<lambda>r. to_access (passing (\<lambda>t. access_GetMsgs (logic_remote si t) (si_crc32c si) r))),
     api_SendMsg = front_SendMsg si,
     api_HeartBeat = (\<lambda>u. to_access (\<lambda>t acc b.
       fbind (HeartBeat (si_timers si) (si_timeout_s si) (si_micros si t) u acc) (\<lambda>acc'. Inr (acc', b, Inr 0)))),
     api_PullData = pull\<rparr>"

section \<open>One attempt\<close>

text \<open>Either nothing has changed behind the access server, or a logic server ran \<open>SendMsg\<close> once.\<close>

definition attempted ::
  "('tm, 'd, 'r, 'q) site \<Rightarrow> NewMsg \<Rightarrow> ('d, 'r, 'q) world \<Rightarrow> ('d, 'r, 'q) world \<Rightarrow> MsgReply result \<Rightarrow> bool" where
  "attempted si nm w w' r \<longleftrightarrow> w' = w \<and> isl r \<or>
     (\<exists>now r'. SendMsg (si_stubs si) now nm w = (w', r') \<and> (\<forall>reply. r = Inr reply \<longrightarrow> (\<exists>p. r' = Inr (reply, p))))"

lemma attempted_fails: "attempted si nm w w' r \<Longrightarrow> attempted si nm w w' (Inl e)"
  unfolding attempted_def by auto

lemma rpc_attempt:
  assumes "attempted si nm w (v (fst (h s))) (snd (h s))" "v s = w"
  shows "attempted si nm w (v (fst (rpc f h s))) (snd (rpc f h s))"
  using assms attempted_fails [OF assms(1)] by (cases f) (auto simp: attempted_def)

lemma logic_attempt:
  "attempted si nm (bh_world b) (bh_world (fst (logic_SendMsg si t nm b))) (snd (logic_SendMsg si t nm b))"
proof -
  obtain w r where s: "SendMsg (si_stubs si) (si_seconds si t) nm (bh_world b) = (w, r)" by fastforce
  then have e: "bh_world (fst (logic_SendMsg si t nm b)) = w"
    "\<And>reply. snd (logic_SendMsg si t nm b) = Inr reply \<Longrightarrow> \<exists>p. r = Inr (reply, p)"
    by (cases r; auto simp: logic_SendMsg_def split: prod.splits)+
  show ?thesis unfolding attempted_def using s e by blast
qed

lemma to_logic_attempt:
  "attempted si nm (bh_world b) (bh_world (fst (to_logic (logic_SendMsg si t nm) b)))
     (snd (to_logic (logic_SendMsg si t nm) b))"
proof (cases "bh_net b")
  case (Cons f fs)
  then have "to_logic (logic_SendMsg si t nm) b = rpc f (logic_SendMsg si t nm) (b\<lparr>bh_net := fs\<rparr>)"
    by (simp add: to_logic_def)
  moreover have "attempted si nm (bh_world b) (bh_world (fst (rpc f (logic_SendMsg si t nm) (b\<lparr>bh_net := fs\<rparr>))))
      (snd (rpc f (logic_SendMsg si t nm) (b\<lparr>bh_net := fs\<rparr>)))"
    using logic_attempt [of si nm "b\<lparr>bh_net := fs\<rparr>" t] by (intro rpc_attempt) simp_all
  ultimately show ?thesis by simp
qed (simp add: to_logic_def logic_attempt)

lemma access_attempt:
  "attempted si nm (fr_world s) (fr_world (fst (on_access (send_at_access si nm) s)))
     (snd (on_access (send_at_access si nm) s))"
proof (cases "fr_access s")
  case (Some acc)
  let ?b = "fr_behind s" and ?call = "to_logic (logic_SendMsg si (fr_tick s) nm) (fr_behind s)"
  show ?thesis
  proof (cases "ResetHeartBeatTimer (si_timers si) (si_timeout_s si) (si_micros si (fr_tick s)) (nm_user_id nm) acc")
    case (Inl f)
    with Some show ?thesis by (simp add: on_access_def send_at_access_def access_SendMsg_def attempted_def)
  next
    case (Inr acc')
    with Some have "on_access (send_at_access si nm) s = (s\<lparr>fr_access := Some acc', fr_behind := fst ?call\<rparr>, snd ?call)"
      by (simp add: on_access_def send_at_access_def access_SendMsg_def logic_remote_def split: prod.split)
    then show ?thesis using to_logic_attempt [of si nm ?b "fr_tick s"] by simp
  qed
qed (simp add: on_access_def attempted_def)

lemma front_attempt:
  assumes "front_SendMsg si used nm s = (s', r)"
  shows "attempted si nm (fr_world s) (fr_world s') r"
proof -
  let ?h = "send_at_access si nm"
  let ?s = "s\<lparr>fr_tick := Suc (fr_tick s)\<rparr>"
  have "attempted si nm (fr_world s) (fr_world (fst (to_access ?h s))) (snd (to_access ?h s))"
  proof (cases "fr_net s")
    case Nil
    then show ?thesis using access_attempt [of si nm ?s] by (simp add: to_access_def)
  next
    case (Cons f fs)
    then have "to_access ?h s = rpc f (on_access ?h) (?s\<lparr>fr_net := fs\<rparr>)" by (simp add: to_access_def)
    moreover have "attempted si nm (fr_world s) (fr_world (fst (rpc f (on_access ?h) (?s\<lparr>fr_net := fs\<rparr>))))
        (snd (rpc f (on_access ?h) (?s\<lparr>fr_net := fs\<rparr>)))"
      using access_attempt [of si nm "?s\<lparr>fr_net := fs\<rparr>"] by (intro rpc_attempt) simp_all
    ultimately show ?thesis by simp
  qed
  with assms show ?thesis by (auto simp: front_SendMsg_def attempted_def split: if_splits)
qed

end
