(* ===== verification/Client_Claims.thy ===== *)
theory Client_Claims
  imports Client
begin

text \<open>
  What the client makes of a line, the times it stamps on messages, and its retry loop.
\<close>

lemma takeWhile_no_space: "CHR '' '' \<notin> set b \<Longrightarrow> after_last_space (a @ CHR '' '' # b) = b"
  by (simp add: after_last_space_def takeWhile_append takeWhile_eq_all_conv)

text \<open>
  Of a \<^verbatim>\<open>sendmsgto\<close> command the client takes the receiver it names, and of the text only
  what follows its last space: whatever was written before it is lost.
\<close>

lemma only_the_last_word_is_sent:
  assumes "in_i64 peer" "peer \<noteq> user" "CHR '' '' \<notin> set word"
  shows "client_parse user (sendmsgto @ to_string peer @ CHR '' '' # text @ CHR '' '' # word) = Inr (SendTo peer word) \<and>
    client_parse user (sendmsgto @ to_string peer @ CHR '' '' # word) = Inr (SendTo peer word)"
proof -
  have parse: "client_parse user (sendmsgto @ to_string peer @ CHR '' '' # r) =
      Inr (SendTo peer (after_last_space (sendmsgto @ to_string peer @ CHR '' '' # r)))" for r
  proof -
    have "strtoll (to_string peer @ CHR '' '' # r) = peer"
      by (rule strtoll_to_string [OF assms(1)]) (simp add: no_digit_first_def is_digit_def)
    then show ?thesis using assms(2) by (simp add: client_parse_def)
  qed
  have "after_last_space (sendmsgto @ to_string peer @ CHR '' '' # text @ CHR '' '' # word) = word"
    using takeWhile_no_space [OF assms(3), of "sendmsgto @ to_string peer @ CHR '' '' # text"] by simp
  moreover have "after_last_space (sendmsgto @ to_string peer @ CHR '' '' # word) = word"
    using takeWhile_no_space [OF assms(3), of "sendmsgto @ to_string peer"] by simp
  ultimately show ?thesis using parse by metis
qed

text \<open>
  Three messages that are sent in the same second get the times \<open>T\<close>, \<open>T + 1\<close> and \<open>T\<close>
  again, so the third one carries the idempotence key of the first.
\<close>

lemma third_message_of_a_second_repeats_the_time:
  assumes "in_i32 t" "in_i32 (t + 1)" "prev \<noteq> t"
  shows "message_times prev [t, t, t] = Inr [t, t + 1, t]"
  using assms by (simp add: message_time_def Let_def i32_def)

lemma times_increase:
  "sorted_wrt (<) clock \<Longrightarrow> \<forall>c \<in> set clock. prev \<le> c \<and> in_i32 c \<and> in_i32 (c + 1) \<Longrightarrow>
   \<exists>ts. message_times prev clock = Inr ts \<and> sorted_wrt (<) (prev # ts)"
proof (induction clock arbitrary: prev)
  case (Cons c clock)
  let ?t = "if c = prev then c + 1 else c"
  have t: "message_time prev c = Inr ?t" "prev < ?t"
    using Cons.prems(2) by (auto simp: message_time_def Let_def i32_def)
  have "\<forall>c' \<in> set clock. ?t \<le> c' \<and> in_i32 c' \<and> in_i32 (c' + 1)"
    using Cons.prems by (auto simp: zless_iff_Suc_zadd)
  with Cons.IH [of ?t] Cons.prems(1) obtain ts where
    "message_times ?t clock = Inr ts" "sorted_wrt (<) (?t # ts)" by auto
  with t show ?case by (intro exI [of _ "?t # ts"]) auto
qed simp

text \<open>
  As long as the clock has moved on since the message before, the times of the messages
  strictly increase, starting above the time of the last message sent.
\<close>

lemma times_increase_with_the_clock:
  assumes "sorted_wrt (<) clock" "\<forall>c \<in> set clock. prev \<le> c \<and> in_i32 c \<and> in_i32 (c + 1)"
  shows "\<exists>ts. message_times prev clock = Inr ts \<and> sorted_wrt (<) (prev # ts)"
  using times_increase [OF assms] .

text \<open>The state after the first attempts of the loop.\<close>

fun tried :: "nat \<Rightarrow> 'w access_api \<Rightarrow> bool \<Rightarrow> NewMsg \<Rightarrow> 'w \<Rightarrow> 'w" where
  "tried 0 api used nm w = w"
| "tried (Suc k) api used nm w = tried k api True nm (fst (api_SendMsg api used nm w))"

lemma first_attempts: "[0..<Suc k] = 0 # map Suc [0..<k]"
  by (simp add: map_Suc_upt upt_conv_Cons)

lemma retry_answers:
  "send_until_answered rounds api used nm w = (w', Some reply) \<longleftrightarrow>
   (\<exists>k. k < rounds \<and>
      list_all (\<lambda>i. isl (snd (api_SendMsg api (used \<or> 0 < i) nm (tried i api used nm w)))) [0..<k] \<and>
      api_SendMsg api (used \<or> 0 < k) nm (tried k api used nm w) = (w', Inr reply))"
proof (induction rounds arbitrary: w used)
  case (Suc rounds)
  let ?ends = "\<lambda>used k v. list_all (\<lambda>i. isl (snd (api_SendMsg api (used \<or> 0 < i) nm (tried i api used nm v)))) [0..<k] \<and>
    api_SendMsg api (used \<or> 0 < k) nm (tried k api used nm v) = (w', Inr reply)"
  obtain w1 r where s: "api_SendMsg api used nm w = (w1, r)" by fastforce
  have later: "?ends used (Suc k) w \<longleftrightarrow> isl r \<and> ?ends True k w1" for k
    unfolding first_attempts using s by (simp add: list.pred_map comp_def)
  have "(\<exists>k. k < Suc rounds \<and> ?ends used k w) \<longleftrightarrow> ?ends used 0 w \<or> (\<exists>k. k < rounds \<and> ?ends used (Suc k) w)"
    using less_Suc_eq_0_disj by auto
  also have "\<dots> \<longleftrightarrow> (w1 = w' \<and> r = Inr reply) \<or> (isl r \<and> (\<exists>k. k < rounds \<and> ?ends True k w1))"
    unfolding later using s by auto
  finally have ends: "(\<exists>k. k < Suc rounds \<and> ?ends used k w) \<longleftrightarrow>
      (w1 = w' \<and> r = Inr reply) \<or> (isl r \<and> (\<exists>k. k < rounds \<and> ?ends True k w1))" .
  have "send_until_answered (Suc rounds) api used nm w = (w', Some reply) \<longleftrightarrow>
      (w1 = w' \<and> r = Inr reply) \<or> (isl r \<and> send_until_answered rounds api True nm w1 = (w', Some reply))"
    using s by (cases r) auto
  also have "\<dots> \<longleftrightarrow> (w1 = w' \<and> r = Inr reply) \<or> (isl r \<and> (\<exists>k. k < rounds \<and> ?ends True k w1))"
    unfolding Suc.IH [of True w1] ..
  finally show ?case by (rule trans [OF _ ends [symmetric]])
qed simp

text \<open>
  The inner loop sends the same message, under the same time, again and again: it ends
  with the first answer that is not an error, and while every attempt fails it goes on until
  the user quits. Every attempt but the first is made with a controller that was used before.
\<close>

lemma retry_ends_with_the_first_answer:
  "send_until_answered rounds api False nm w = (w', Some reply) \<longleftrightarrow>
   (\<exists>k. k < rounds \<and>
      list_all (\<lambda>i. isl (snd (api_SendMsg api (0 < i) nm (tried i api False nm w)))) [0..<k] \<and>
      api_SendMsg api (0 < k) nm (tried k api False nm w) = (w', Inr reply))"
  using retry_answers [of rounds api False nm w w' reply] by simp

text \<open>
  The controller of the retry loop is never reset. Where calls on a controller that was
  used before fail, one failed attempt is the end of it: no later round is answered, however
  well the servers are, and the loop goes on until the user quits.
\<close>

lemma unreset_controller_never_recovers:
  assumes "\<And>v. isl (snd (api_SendMsg api True nm v))"
    and "isl (snd (api_SendMsg api False nm w))"
  shows "snd (send_until_answered rounds api False nm w) = None"
proof -
  have "\<not> isl (snd (api_SendMsg api (0 < k) nm (tried k api False nm w))) \<longrightarrow> False" for k
    using assms by (cases k) auto
  then have "\<And>w' reply. send_until_answered rounds api False nm w \<noteq> (w', Some reply)"
    unfolding retry_answers [of rounds api False, simplified] by (metis isl_def snd_conv sum.disc(2))
  then show ?thesis by (cases "send_until_answered rounds api False nm w"; cases "snd (send_until_answered rounds api False nm w)") auto
qed

section \<open>Witnesses\<close>

lemma only_the_last_word_is_sent_witness:
  "client_parse 123 (sendmsgto @ to_string 1234 @ CHR '' '' # ''hello'' @ CHR '' '' # ''world'') =
   Inr (SendTo 1234 ''world'')"
  using only_the_last_word_is_sent [of 1234 123 "''world''" "''hello''"]
  by (simp add: in_i64_def)

lemma third_message_of_a_second_repeats_the_time_witness:
  "message_times 0 [1600000000, 1600000000, 1600000000] = Inr [1600000000, 1600000001, 1600000000]"
  using third_message_of_a_second_repeats_the_time [of 1600000000 0] by (simp add: in_i32_def)

lemma times_increase_with_the_clock_witness:
  "\<exists>ts. message_times 0 [10, 11, 15] = Inr ts \<and> sorted_wrt (<) (0 # ts)"
  by (rule times_increase_with_the_clock) (simp_all add: in_i32_def)

text \<open>
  A server that is down at the first call and up from then on, behind a brpc that refuses a
  controller that was not reset; the state says whether it is up.
\<close>

definition up_later :: "bool access_api" where
  "up_later = \<lparr>api_SignIn = (\<lambda>_ w. (w, Inr 0)), api_GetFriends = (\<lambda>_ w. (w, Inr [])),
     api_GetGroups = (\<lambda>_ w. (w, Inr [])), api_GetGroupMembers = (\<lambda>_ w. (w, Inr [])),
     api_GetMsgs = (\<lambda>_ w. (w, Inr [])),
     api_SendMsg = (\<lambda>used _ up. (True, if used then Inl (Failed EINVAL ''Fail to lock call_id'')
       else if up then Inr \<lparr>mr_msg_id = 7, mr_last_msg_id = 7, mr_msg_time = 1\<rparr> else Inl (Failed 112 ''Host is down''))),
     api_HeartBeat = (\<lambda>_ w. (w, Inr 0)), api_PullData = (\<lambda>_ w. (w, Inr []))\<rparr>"

abbreviation some_msg :: NewMsg where
  "some_msg \<equiv> message_to 1 [] 2 ''hi'' 99"

lemma unreset_controller_never_recovers_witness:
  "snd (send_until_answered 100 up_later False some_msg False) = None \<and>
   isl (snd (api_SendMsg up_later False some_msg True)) = False"
  by (intro conjI unreset_controller_never_recovers) (simp_all add: up_later_def)

end
