(* ===== verification/Delivery.thy ===== *)
theory Delivery
  imports Deployment Client_Claims Mem_World Logic_Channels
begin

text \<open>
  Sending a message from end to end: the retry loop of the client over the whole chain of
  servers, with every request and every answer at the mercy of the network.
\<close>

section \<open>While a message is being sent\<close>

text \<open>The table has gained rows of the message only, and redis holds what the proxy stored.\<close>

definition sending ::
  "('r, 'q) backends \<Rightarrow> ('q \<Rightarrow> tables) \<Rightarrow> msg_row list \<Rightarrow> NewMsg \<Rightarrow> ('d, 'r, 'q) world \<Rightarrow> bool" where
  "sending be view old nm w \<longleftrightarrow> unique_rows (wd_messages view w) \<and>
     proxy_value be (nm_user_id nm) (wd_redis w) \<and>
     (\<exists>new. wd_messages view w = old @ new \<and> list_all (row_of_msg nm) new)"

definition older :: "NewMsg \<Rightarrow> msg_row list \<Rightarrow> bool" where
  "older nm old \<longleftrightarrow> list_all (\<lambda>r. own_row (nm_user_id nm) r \<longrightarrow> r_client_time r < nm_client_time nm) old"

lemma send_keeps_sending:
  assumes ok: "mysql_ok (be_mysql be) view" "redis_ok (be_redis be)" "cjson_ok (be_cjson be)"
    and w: "sending be view old nm w" and s: "SendMsg (deployed be ops N) now nm w = (w', r)"
  shows "sending be view old nm w'"
proof -
  have "proxy_value be (nm_user_id nm) (wd_redis w')"
    by (rule send_keeps_value [OF proxy_value_kept [OF ok(2)] _ s]) (use w in \<open>simp add: sending_def\<close>)
  with deployed.send_rows(2,3) [where view = view and w = w, OF ok(1) s] w
  show ?thesis unfolding sending_def by fastforce
qed

lemma answer_tells_row:
  assumes ok: "mysql_ok (be_mysql be) view" "redis_ok (be_redis be)" "cjson_ok (be_cjson be)"
    and w: "sending be view old nm w" and ct: "nm_client_time nm \<noteq> 0"
    and s: "SendMsg (deployed be ops N) now nm w = (w', Inr (reply, p))"
  shows "told_its_row view nm w' reply"
proof (cases p)
  case (Some args)
  from deployed.send_rows(3) [where view = view and w = w, OF ok(1) s] Some show ?thesis
    unfolding told_its_row_def sender_saved_def by fastforce
next
  case None
  have "\<exists>d. st_GetUserLastSendData (deployed be ops N) (nm_user_id nm) w = (w', Inr d) \<and>
      ul_client_time d = nm_client_time nm \<and> mr_msg_id reply = ul_msg_id d"
    using s None by (auto simp: SendMsg_def Let_def elim!: and_then_InrE split: if_splits)
  then obtain d where d: "st_GetUserLastSendData (deployed be ops N) (nm_user_id nm) w = (w', Inr d)"
    "ul_client_time d = nm_client_time nm" "mr_msg_id reply = ul_msg_id d" by blast
  have "wd_messages view w' = wd_messages view w"
    using deployed.last_keeps [where view = view and w = w, OF ok(1) d(1)] by blast
  moreover have "proxy_value be (nm_user_id nm) (wd_redis w)" using w by (simp add: sending_def)
  from recognised_row [OF ok this ct d(1,2)] have
    "\<exists>x \<in> set (wd_messages view w). unique_key x = sender_key nm \<and> r_msg_id x = ul_msg_id d" .
  ultimately show ?thesis unfolding told_its_row_def by (simp add: d(3))
qed

lemma attempt_sending:
  assumes ok: "mysql_ok (be_mysql (si_be si)) view" "redis_ok (be_redis (si_be si))" "cjson_ok (be_cjson (si_be si))"
    and w: "sending (si_be si) view old nm w" and ct: "nm_client_time nm \<noteq> 0"
    and a: "attempted si nm w w' r"
  shows "sending (si_be si) view old nm w'" "r = Inr reply \<Longrightarrow> told_its_row view nm w' reply"
  using a send_keeps_sending [OF ok w] answer_tells_row [OF ok w ct] w
  unfolding attempted_def by (metis sum.disc(2))+

lemma loop_tells_row:
  assumes ok: "mysql_ok (be_mysql (si_be si)) view" "redis_ok (be_redis (si_be si))" "cjson_ok (be_cjson (si_be si))"
    and ct: "nm_client_time nm \<noteq> 0"
  shows "sending (si_be si) view old nm (fr_world s) \<Longrightarrow>
    send_until_answered rounds (front_api si pull) used nm s = (s', Some reply) \<Longrightarrow>
    sending (si_be si) view old nm (fr_world s') \<and> told_its_row view nm (fr_world s') reply"
proof (induction rounds arbitrary: s used)
  case (Suc rounds)
  obtain s1 r where s1: "front_SendMsg si used nm s = (s1, r)" by fastforce
  note A = attempt_sending [OF ok Suc.prems(1) ct front_attempt [OF s1]]
  show ?case
  proof (cases r)
    case (Inl e)
    with Suc.prems(2) s1 Suc.IH [OF A(1)] show ?thesis by (simp add: front_api_def)
  next
    case (Inr reply')
    with Suc.prems(2) s1 A show ?thesis by (simp add: front_api_def)
  qed
qed simp

text \<open>
  C2: a message with a time that is not 0 and under which the sender has no message in the table yet:
  whatever the network and the servers do to the attempts (requests and answers lost, statements that
  fail after they were carried out, keys of redis that expire), when the client's retry loop ends
  with an answer, the message is in the table exactly once under its key, with its text and under the
  id of the answer, and the table has gained no row that is not of this message. (A client that uses
  a time again, as after a restart in the same second, is answered with the row of the other message.)
\<close>

theorem answered_message_is_stored_once:
  assumes ok: "mysql_ok (be_mysql (si_be si)) view" "redis_ok (be_redis (si_be si))" "cjson_ok (be_cjson (si_be si))"
    and u: "unique_rows (wd_messages view (fr_world s))" 
    and o: "sender_key nm \<notin> unique_key ` set (wd_messages view (fr_world s))"
    and v: "proxy_value (si_be si) (nm_user_id nm) (wd_redis (fr_world s))" and ct: "nm_client_time nm \<noteq> 0"
    and a: "send_until_answered rounds (front_api si pull) False nm s = (s', Some reply)"
  shows "\<exists>x new. filter (\<lambda>y. unique_key y = sender_key nm) (wd_messages view (fr_world s')) = [x] \<and>
    r_msg_id x = mr_msg_id reply \<and> r_message x = nm_message nm \<and>
    wd_messages view (fr_world s') = wd_messages view (fr_world s) @ new \<and> list_all (row_of_msg nm) new"
proof -
  let ?old = "wd_messages view (fr_world s)" and ?rows = "wd_messages view (fr_world s')"
  have "sending (si_be si) view ?old nm (fr_world s)" using u v by (simp add: sending_def)
  from loop_tells_row [OF ok ct this a] obtain new x where
    s': "unique_rows ?rows" "?rows = ?old @ new" "list_all (row_of_msg nm) new"
    and x: "x \<in> set ?rows" "unique_key x = sender_key nm" "r_msg_id x = mr_msg_id reply"
    unfolding sending_def told_its_row_def by blast
  have "x \<notin> set ?old" using o x(2) by (metis imageI)
  with x(1) s'(2,3) have "r_message x = nm_message nm" by (auto simp: list_all_iff row_of_msg_def)
  moreover have "filter (\<lambda>y. unique_key y = sender_key nm) ?rows = [x]"
    using filter_all_distinct_keys [of unique_key ?rows x] s'(1) x(1,2) by (simp add: unique_rows_def)
  ultimately show ?thesis using s'(2,3) x(3) by blast
qed

section \<open>A message that was stored and not answered\<close>

definition stuck ::
  "('r, 'q) backends \<Rightarrow> ('q \<Rightarrow> tables) \<Rightarrow> msg_row list \<Rightarrow> NewMsg \<Rightarrow> ('d, 'r, 'q) world \<Rightarrow> bool" where
  "stuck be view rows nm w \<longleftrightarrow> wd_messages view w = rows \<and> encoded_value be (nm_user_id nm) (wd_redis w)"

lemma attempt_stuck:
  assumes ok: "mysql_ok (be_mysql (si_be si)) view" "redis_ok (be_redis (si_be si))" "cjson_ok (be_cjson (si_be si))"
    and st: "redis_steady (be_redis (si_be si))" and u: "unique_rows rows" and nz: "nm_client_time nm \<noteq> 0"
    and row: "sender_key nm \<in> unique_key ` set rows"
    and w: "stuck (si_be si) view rows nm w" and a: "attempted si nm w w' r"
  shows "stuck (si_be si) view rows nm w'" "isl r"
proof -
  have sends: "stuck (si_be si) view rows nm w' \<and> isl r'" if s: "SendMsg (si_stubs si) now nm w = (w', r')" for now r'
  proof -
    from w have m: "wd_messages view w = rows" and v: "encoded_value (si_be si) (nm_user_id nm) (wd_redis w)"
      by (simp_all add: stuck_def)
    from stored_is_refused [OF ok(1,3) st _ v _ nz s] u row m
      send_keeps_value [OF encoded_value_kept [OF ok(2) st] v s]
    show ?thesis by (simp add: stuck_def)
  qed
  from a [unfolded attempted_def] consider "w' = w" "isl r"
    | now r' where "SendMsg (si_stubs si) now nm w = (w', r')" "\<forall>reply. r = Inr reply \<longrightarrow> (\<exists>p. r' = Inr (reply, p))"
    by blast
  then have "stuck (si_be si) view rows nm w' \<and> isl r"
  proof cases
    case 1
    with w show ?thesis by simp
  next
    case (2 now r')
    from sends [OF 2(1)] have "stuck (si_be si) view rows nm w'" "isl r'" by simp_all
    with 2(2) show ?thesis by (cases r) auto
  qed
  then show "stuck (si_be si) view rows nm w'" "isl r" by simp_all
qed

lemma loop_stuck:
  assumes ok: "mysql_ok (be_mysql (si_be si)) view" "redis_ok (be_redis (si_be si))" "cjson_ok (be_cjson (si_be si))"
    and st: "redis_steady (be_redis (si_be si))" and u: "unique_rows rows" and nz: "nm_client_time nm \<noteq> 0"
    and row: "sender_key nm \<in> unique_key ` set rows"
  shows "stuck (si_be si) view rows nm (fr_world s) \<Longrightarrow>
    \<exists>s'. send_until_answered rounds (front_api si pull) used nm s = (s', None) \<and>
      stuck (si_be si) view rows nm (fr_world s')"
proof (induction rounds arbitrary: s used)
  case (Suc rounds)
  obtain s1 r where s1: "front_SendMsg si used nm s = (s1, r)" by fastforce
  note A = attempt_stuck [OF ok st u nz row Suc.prems front_attempt [OF s1]]
  then obtain e where "r = Inl e" by (cases r) auto
  with s1 Suc.IH [OF A(1)] show ?case by (simp add: front_api_def)
qed simp

text \<open>
  C20: a message with a client time other than 0 that is in the table but whose answer was lost is never confirmed: as long as
  redis keeps what the proxy stored for the sender, every round of the client's retry loop ends in
  an error, whatever the network does, and the loop goes on until the user quits. Nothing is
  stored twice.
\<close>

theorem stored_message_is_never_confirmed:
  assumes ok: "mysql_ok (be_mysql (si_be si)) view" "redis_ok (be_redis (si_be si))" "cjson_ok (be_cjson (si_be si))"
    and st: "redis_steady (be_redis (si_be si))" and u: "unique_rows (wd_messages view (fr_world s))"
    and v: "encoded_value (si_be si) (nm_user_id nm) (wd_redis (fr_world s))" and nz: "nm_client_time nm \<noteq> 0"
    and row: "sender_key nm \<in> unique_key ` set (wd_messages view (fr_world s))"
  shows "\<exists>s'. send_until_answered rounds (front_api si pull) used nm s = (s', None) \<and>
    wd_messages view (fr_world s') = wd_messages view (fr_world s)"
proof -
  let ?rows = "wd_messages view (fr_world s)"
  have "stuck (si_be si) view ?rows nm (fr_world s)" using v by (simp add: stuck_def)
  from loop_stuck [OF ok st u nz row this, of rounds pull used] show ?thesis by (auto simp: stuck_def)
qed

section \<open>A message whose requests are lost\<close>



section \<open>A message that was stored in part\<close>

text \<open>
  C24: the save of a group message, later than all messages of its sender, fails after the first
  rows, and the sender gets an error and sends it again. When redis holds nothing under the key of the
  sender, and the look-up of the last message is answered, the second attempt is answered as sent,
  under the id of the sender's row, although a member whose row is missing still has none; no push is
  started.
\<close>

theorem partly_stored_message_is_acknowledged:
  assumes ok: "mysql_ok (be_mysql be) view" and u: "unique_rows (wd_messages view w)" and o: "older nm (wd_messages view w)"
    and first: "SendMsg (deployed be ops N) now nm w = (w1, Inl e)"
    and part: "wd_messages view w1 \<noteq> wd_messages view w"
      "(member, nm_user_id nm, nm_client_time nm) \<notin> unique_key ` set (wd_messages view w1)"
    and red: "answers be (wd_db w1) r" "rd_get (be_redis be) r (last_send_key (nm_user_id nm)) = None"
    and look: "st_GetUserLastSendData (deployed be ops N) (nm_user_id nm) w1 = (w2, Inr d)"
  shows "\<exists>x \<in> set (wd_messages view w1). unique_key x = sender_key nm \<and>
    SendMsg (deployed be ops N) now' nm w1 =
      (w2, Inr (\<lparr>mr_msg_id = r_msg_id x, mr_last_msg_id = 0, mr_msg_time = ul_msg_time d\<rparr>, None)) \<and>
    (member, nm_user_id nm, nm_client_time nm) \<notin> unique_key ` set (wd_messages view w2)"
proof -
  note S = deployed.send_rows [where view = view and w = w, OF ok first]
  from S(3) obtain new where new: "wd_messages view w1 = wd_messages view w @ new" "list_all (row_of_msg nm) new"
    "sender_first nm new" by blast
  with part(1) have "new \<noteq> []" by auto
  then have row: "hd new \<in> set (wd_messages view w1)" "unique_key (hd new) = sender_key nm"
    using new(1,3) by (simp_all add: sender_first_def)
  have newest: "\<forall>y \<in> set (wd_messages view w1). r_user_id y = nm_user_id nm \<longrightarrow> r_sender y = nm_user_id nm \<longrightarrow>
      r_client_time y \<le> nm_client_time nm"
    using o new(1,2) by (auto simp: older_def list_all_iff row_of_msg_def dest: less_imp_le)
  note d = newest_is_found [OF ok S(2) [OF u] red row newest look]
  have "wd_messages view w2 = wd_messages view w1"
    using deployed.last_keeps [where view = view and w = w1, OF ok look] by blast
  moreover have "SendMsg (deployed be ops N) now' nm w1 =
      (w2, Inr (\<lparr>mr_msg_id = r_msg_id (hd new), mr_last_msg_id = 0, mr_msg_time = ul_msg_time d\<rparr>, None))"
    using look d by (simp add: SendMsg_def)
  ultimately show ?thesis using row part(2) by (intro bexI [of _ "hd new"]) simp_all
qed

section \<open>The calls for an accepted message\<close>

text \<open>
  C23: when a message has been accepted and redis answers for its receivers, the background thread
  makes exactly one call per receiver with a session, in their order, each over the channel to the
  server of that receiver's own session and with that receiver's own user and message id (the two
  indices of its loops do not get out of step). An access server that the logic server knew already
  keeps its channel, each other one gets a channel, once, and whatever \<^verbatim>\<open>Init\<close> answered.
\<close>

theorem push_calls_every_receiver:
  assumes ok: "mysql_ok (be_mysql be) view"
    and s: "SendMsg (deployed be ops N) now nm w = (w', Inr (reply, Some args))"
    and g: "st_GetSessions (deployed be ops N) (map un_user_id (drop 1 (pa_id_request args))) wp = (w2, Inr ss)"
  shows "\<exists>m1. push_thread br fl (deployed be ops N) args wp m = (w2, m1, Inr
      (map (\<lambda>(x, e). (the (m1 (se_addr x)), peer_msg (nm\<lparr>nm_msg_time := to_i32 now\<rparr>) (nm_user_id nm) (mi_user_id e) (mi_start_msg_id e)))
        (filter (\<lambda>(x, e). se_has_session x) (zip ss (drop 1 (pa_id_reply args)))))) \<and>
    map se_user_id ss = map mi_user_id (drop 1 (pa_id_reply args)) \<and>
    m1 = (\<lambda>a. case m a of Some ch \<Rightarrow> Some ch
      | None \<Rightarrow> if \<exists>x \<in> set ss. se_has_session x \<and> se_addr x = a then Some (init_channel br (access_channel fl a)) else None)"
proof -
  note fit = deployed.args_fit [where view = view and w = w, OF ok s]
  from g have "GetSessions be (map un_user_id (drop 1 (pa_id_request args))) (wd_db wp) = (wd_db w2, Inr ss)"
    by (auto simp: deployed_def dest: to_db_Inr)
  note users = sessions_users [OF this]
  have ids: "map se_user_id ss = map mi_user_id (drop 1 (pa_id_reply args))"
    using users arg_cong [OF fit(3), of "drop 1"] by (simp add: drop_map)
  let ?m1 = "with_channels br fl (se_addr ` set (filter se_has_session ss)) m"
  have "se_user_id x = mi_user_id e" if "(x, e) \<in> set (zip ss (drop 1 (pa_id_reply args)))" for x e
  proof -
    from that obtain i where "i < length ss" "ss ! i = x" "drop 1 (pa_id_reply args) ! i = e"
      "i < length (drop 1 (pa_id_reply args))" by (auto simp: set_zip)
    with arg_cong [OF ids, of "\<lambda>l. l ! i"] show ?thesis by simp
  qed
  then have "map (\<lambda>(x, e). (the (?m1 (se_addr x)), peer_msg (pa_new_msg args) (pa_sender args) (se_user_id x) (mi_start_msg_id e)))
        (filter (\<lambda>(x, e). se_has_session x) (zip ss (drop 1 (pa_id_reply args)))) =
      map (\<lambda>(x, e). (the (?m1 (se_addr x)), peer_msg (nm\<lparr>nm_msg_time := to_i32 now\<rparr>) (nm_user_id nm) (mi_user_id e) (mi_start_msg_id e)))
        (filter (\<lambda>(x, e). se_has_session x) (zip ss (drop 1 (pa_id_reply args))))"
    by (intro map_cong refl) (auto simp: fit(4,5))
  moreover note push_thread_eq [OF g users fit(1,2) refl, of br fl m]
  moreover have "?m1 = (\<lambda>a. case m a of Some ch \<Rightarrow> Some ch
      | None \<Rightarrow> if \<exists>x \<in> set ss. se_has_session x \<and> se_addr x = a then Some (init_channel br (access_channel fl a)) else None)"
    by (auto simp: with_channels_def fun_eq_iff image_iff split: option.split)
  ultimately show ?thesis using ids by (intro exI [of _ ?m1]) simp
qed

section \<open>A message for a user who waits\<close>

text \<open>
  C17: when a private message without NUL in its text has been accepted, its receiver waits with a
  pull, redis still has the session of the receiver and answers, and the channel to the access server
  of the session has been initialised or can be: then the background thread makes one call, to that
  server, and the call answers the pull with the message, exactly as the receiver would read it back
  from the table.
\<close>

theorem accepted_message_answers_the_waiting_pull:
  assumes ok: "mysql_ok (be_mysql be) view"
    and s: "SendMsg (deployed be ops N) now nm w = (w', Inr (reply, Some args))" and t: "nm_msg_type nm = PRIVATE"
    and c: "in_i32 (nm_client_time nm)" "c_str (nm_message nm) = nm_message nm"
    and ses: "st_GetSessions (deployed be ops N) [nm_peer_id nm] wp = (w2, Inr [ses])" "se_has_session ses"
    and map: "addressed access_map"
      "access_map (se_addr ses) = None \<and> br_Init br (access_channel fl (se_addr ses)) \<or> access_map (se_addr ses) = Some (Some known)"
    and wait: "bucket_of (nm_peer_id nm) = Inr b" "id_map acc b (nm_peer_id nm) = Some data"
      "d_done data = Some call" "d_msgs data = Some m"
  shows "\<exists>rrow acc' ch m'. rrow \<in> set (wd_messages view w') \<and> r_user_id rrow = nm_peer_id nm \<and> r_message rrow = nm_message nm \<and>
    push_thread br fl (deployed be ops N) args wp access_map = (w2, m', Inr [(Some ch, row_msg (nm_peer_id nm) rrow)]) \<and>
    ch_addr ch = se_addr ses \<and>
    SendtoAccess (row_msg (nm_peer_id nm) rrow) acc = Inr acc' \<and>
    responses acc' m = responses acc m @ [row_msg (nm_peer_id nm) rrow] \<and> effects acc' = effects acc @ [RunClosure call]"
proof -
  note fit = deployed.args_fit [where view = view and w = w, OF ok s]
  from deployed.private_accepted [where view = view and w = w, OF ok s t] obtain sid rid where
    ids: "pa_id_reply args = [sid, rid]" and
    rows: "wd_messages view w' = wd_messages view w @
      [sender_row (new_private_msg nm (to_i32 now) (mi_start_msg_id sid) (mi_start_msg_id rid)),
       receiver_row (new_private_msg nm (to_i32 now) (mi_start_msg_id sid) (mi_start_msg_id rid))]"
    by blast
  let ?r = "receiver_row (new_private_msg nm (to_i32 now) (mi_start_msg_id sid) (mi_start_msg_id rid))"
  from s t have req: "map un_user_id (drop 1 (pa_id_request args)) = [nm_peer_id nm]"
    by (auto simp: SendMsg_def id_request_of_def one_id_def Let_def elim!: and_then_InrE split: if_splits)
  let ?m = "open_channel br fl (se_addr ses) access_map"
  obtain ch where ch: "?m (se_addr ses) = Some (Some ch)"
    using map(2) by (auto simp: open_channel_def init_channel_def)
  have a: "ch_addr ch = se_addr ses"
    using open_channel_addressed [OF map(1), of br fl "se_addr ses"] ch by (simp add: addressed_def)
  have "peer_msg (pa_new_msg args) (pa_sender args) (nm_peer_id nm) (mi_start_msg_id rid) = row_msg (nm_peer_id nm) ?r"
    using t c fit(4,5) by (simp add: peer_msg_def row_msg_def receiver_row_def new_private_msg_def)
  then have push: "push_thread br fl (deployed be ops N) args wp access_map =
      (w2, ?m, Inr [(Some ch, row_msg (nm_peer_id nm) ?r)])"
    using ses ch unfolding push_thread_def req
    by (simp add: ids msg_ids_def fbind_simps Let_def)
  have "m_user_id (row_msg (nm_peer_id nm) ?r) = nm_peer_id nm" by (simp add: row_msg_def)
  then obtain acc' where "SendtoAccess (row_msg (nm_peer_id nm) ?r) acc = Inr acc'"
    "responses acc' m = responses acc m @ [row_msg (nm_peer_id nm) ?r]" "effects acc' = effects acc @ [RunClosure call]"
    using wait by (simp add: SendtoAccess_def PopClosureAndReply_def set_entry_def emit_def Let_def)
  moreover have "?r \<in> set (wd_messages view w')" "r_user_id ?r = nm_peer_id nm" "r_message ?r = nm_message nm"
    by (simp_all add: rows receiver_row_def new_private_msg_def)
  ultimately show ?thesis using push a by blast
qed

section \<open>Witnesses\<close>

definition mem_site :: "(mem_timers, string \<Rightarrow> string option, mem_redis_state, mem_sql) site" where
  "mem_site = \<lparr>si_be = mem_backends, si_ldb = map_db, si_each_gen_id_num = 4, si_timers = mem_timers_ops,
     si_timeout_s = 400, si_crc32c = (\<lambda>_. 0), si_addr = ''h:1'', si_seconds = (\<lambda>_. 100),
     si_micros = (\<lambda>t. int t * 1000000), si_reuse = True\<rparr>"

lemma mem_site_simps [simp]:
  "si_be mem_site = mem_backends" "si_ldb mem_site = map_db" "si_each_gen_id_num mem_site = 4" "si_reuse mem_site"
  by (simp_all add: mem_site_def)

type_synonym mem_front = "(mem_timers, string \<Rightarrow> string option, mem_redis_state, mem_sql) front"

definition mem_front :: "fate list \<Rightarrow> mem_world \<Rightarrow> mem_front" where
  "mem_front net w = \<lparr>fr_access = Some idle, fr_behind = \<lparr>bh_world = w, bh_pushes = [], bh_net = []\<rparr>,
     fr_net = net, fr_tick = 0\<rparr>"

lemma mem_front_simps [simp]: "fr_world (mem_front net w) = w" "fr_net (mem_front net w) = net"
  "bh_net (fr_behind (mem_front net w)) = []" "fr_tick (mem_front net w) = 0" "fr_access (mem_front net w) = Some idle"
  by (simp_all add: mem_front_def)

definition no_pull :: "user_id_t \<Rightarrow> mem_front \<Rightarrow> mem_front \<times> Msg list result" where
  "no_pull u s = (s, Inr [])"

definition answered_after :: "nat \<Rightarrow> mem_front \<Rightarrow> mem_front \<times> MsgReply option" where
  "answered_after rounds s = send_until_answered rounds (front_api mem_site no_pull) False hi_to_2 s"

text \<open>
  The first request is lost; the second is carried out, but redis is not reached when the message
  has been stored, so it is answered with an error; the third is recognised.
\<close>

definition unlucky :: mem_front where
  "unlucky = mem_front [RequestLost 1 ''lost'']
     ((mem_world empty_tables (\<lambda>_. None))\<lparr>wd_db := mem_proxy empty_tables [] (\<lambda>_. None) [Answered, Unreached 2 ''down'']\<rparr>)"

theorem answered_message_is_stored_once_witness:
  "\<exists>x. filter (\<lambda>y. unique_key y = (1, 1, 99)) (wd_messages fst (fr_world (fst (answered_after 3 unlucky)))) = [x] \<and>
    r_message x = ''hi''"
proof -
  have "snd (answered_after 3 unlucky) \<noteq> None" by code_simp
  then obtain reply where "snd (answered_after 3 unlucky) = Some reply" by blast
  then have a: "send_until_answered 3 (front_api mem_site no_pull) False hi_to_2 unlucky =
      (fst (answered_after 3 unlucky), Some reply)"
    unfolding answered_after_def by (metis prod.collapse)
  have w: "wd_messages fst (fr_world unlucky) = []" "dp_redis (wd_db (fr_world unlucky)) = (\<lambda>_. None, [Answered, Unreached 2 ''down''])"
    by (simp_all add: unlucky_def tables_of_def mem_proxy_def empty_tables_def)
  have ok: "mysql_ok (be_mysql (si_be mem_site)) fst" "redis_ok (be_redis (si_be mem_site))" "cjson_ok (be_cjson (si_be mem_site))"
    by (simp_all add: mem_mysql_ok mem_redis_ok mem_cjson_ok)
  from answered_message_is_stored_once [OF ok _ _ _ _ a] w show ?thesis
    by (simp add: unique_rows_def proxy_value_def) blast
qed

text \<open>A redis that is always reached and forgets nothing.\<close>

definition steady_site :: "(mem_timers, string \<Rightarrow> string option, mem_redis_state, mem_sql) site" where
  "steady_site = mem_site\<lparr>si_be := mem_backends\<lparr>be_redis := mem_redis\<lparr>rd_link := (\<lambda>r. (Answered, r))\<rparr>\<rparr>\<rparr>"

lemma steady_ok: "mysql_ok (be_mysql (si_be steady_site)) fst" "redis_ok (be_redis (si_be steady_site))"
  "cjson_ok (be_cjson (si_be steady_site))" "redis_steady (be_redis (si_be steady_site))"
  using mem_redis_ok
  by (simp_all add: steady_site_def mem_mysql_ok mem_cjson_ok redis_ok_def redis_steady_def)

definition cached_1 :: "string \<Rightarrow> string option" where
  "cached_1 = [last_send_key 1 \<mapsto> mem_encode [to_string 10, to_string 99, to_string 100]]"

abbreviation stored_hello :: mem_world where
  "stored_hello \<equiv> mem_world (empty_tables\<lparr>t_messages := [sender_row hello]\<rparr>) cached_1"

theorem stored_message_is_never_confirmed_witness:
  "\<exists>s'. send_until_answered 1000 (front_api steady_site no_pull) False hi_to_2 (mem_front [] stored_hello) = (s', None) \<and>
    wd_messages fst (fr_world s') = [sender_row hello]"
proof -
  have v: "encoded_value (si_be steady_site) (nm_user_id hi_to_2) (wd_redis (fr_world (mem_front [] stored_hello)))"
    unfolding encoded_value_def
    by (intro exI [of _ 10] exI [of _ 99] exI [of _ 100]) (simp add: steady_site_def mem_cjson_def mem_redis_def cached_1_def)
  have "unique_rows (wd_messages fst (fr_world (mem_front [] stored_hello)))" "nm_client_time hi_to_2 \<noteq> 0"
    "sender_key hi_to_2 \<in> unique_key ` set (wd_messages fst (fr_world (mem_front [] stored_hello)))"
    by (simp_all add: unique_rows_def unique_key_def sender_row_def)
  from stored_message_is_never_confirmed [OF steady_ok(1-3) steady_ok(4) this(1) v this(2,3)]
  show ?thesis by simp
qed





abbreviation hi_to_7 :: NewMsg where
  "hi_to_7 \<equiv> hi_to_2\<lparr>nm_peer_id := 7, nm_msg_type := GROUP\<rparr>"

text \<open>The statement for the second member of the group breaks.\<close>

definition breaking :: mem_world where
  "breaking = (let t = empty_tables\<lparr>t_members := map (\<lambda>u. \<lparr>g_group_id = 7, g_group_name = ''g'', g_user_id = u,
       g_user_name = ''u''\<rparr>) [1, 2, 3]\<rparr> in
     (mem_world t (\<lambda>_. None))\<lparr>wd_db := mem_proxy t [False, True] (\<lambda>_. None) []\<rparr>)"

definition broken :: "mem_world \<times> (MsgReply \<times> SendtoPeersArgs option) result" where
  "broken = SendMsg mem_stubs 100 hi_to_7 breaking"

definition broken_again :: "mem_world \<times> (MsgReply \<times> SendtoPeersArgs option) result" where
  "broken_again = SendMsg mem_stubs 101 hi_to_7 (fst broken)"

theorem partly_stored_message_is_acknowledged_witness:
  "\<exists>reply. snd broken_again = Inr (reply, None) \<and> (3, 1, 99) \<notin> unique_key ` set (wd_messages fst (fst broken_again))"
proof -
  have c: "isl (snd broken)" "\<not> isl (snd (st_GetUserLastSendData mem_stubs 1 (fst broken)))" "wd_messages fst (fst broken) \<noteq> []"
    "list_all (\<lambda>y. unique_key y \<noteq> (3, 1, 99)) (wd_messages fst (fst broken))"
    "snd (wd_redis (fst broken)) = []" "fst (wd_redis (fst broken)) (last_send_key 1) = None"
    by code_simp+
  obtain e where f: "SendMsg mem_stubs 100 hi_to_7 breaking = (fst broken, Inl e)"
    using c(1) unfolding broken_def by (metis isl_def prod.collapse)
  let ?look = "st_GetUserLastSendData mem_stubs 1 (fst broken)"
  obtain d where a: "st_GetUserLastSendData mem_stubs (nm_user_id hi_to_7) (fst broken) = (fst ?look, Inr d)"
    using c(2) by (cases ?look; cases "snd ?look") auto
  have m: "(3, nm_user_id hi_to_7, nm_client_time hi_to_7) \<notin> unique_key ` set (wd_messages fst (fst broken))"
    using c(4) by (auto simp: list_all_iff)
  have r: "answers mem_backends (wd_db (fst broken)) (wd_redis (fst broken))"
    using c(5) by (cases "wd_redis (fst broken)") (simp add: answers_def mem_redis_def)
  have n: "rd_get (be_redis mem_backends) (wd_redis (fst broken)) (last_send_key (nm_user_id hi_to_7)) = None"
    using c(6) by (cases "wd_redis (fst broken)") simp
  have b: "wd_messages fst breaking = []" by (simp add: breaking_def tables_of_def mem_proxy_def empty_tables_def Let_def)
  then have o: "unique_rows (wd_messages fst breaking)" "older hi_to_7 (wd_messages fst breaking)"
    "wd_messages fst (fst broken) \<noteq> wd_messages fst breaking"
    using c(3) by (simp_all add: unique_rows_def older_def)
  from partly_stored_message_is_acknowledged [where now' = 101, OF mem_ok(1) o(1,2) f o(3) m r n a]
  obtain x :: msg_row where x: "broken_again = (fst ?look, Inr (\<lparr>mr_msg_id = r_msg_id x, mr_last_msg_id = 0, mr_msg_time = ul_msg_time d\<rparr>, None))"
    "(3, nm_user_id hi_to_7, nm_client_time hi_to_7) \<notin> unique_key ` set (wd_messages fst (fst ?look))"
    unfolding broken_again_def by blast
  have "(3, 1, 99) = (3 :: int, nm_user_id hi_to_7, nm_client_time hi_to_7)" by simp
  with x(2) have "(3, 1, 99) \<notin> unique_key ` set (wd_messages fst (fst broken_again))" unfolding x(1) by (metis fst_conv)
  moreover from x(1) have "snd broken_again = Inr (\<lparr>mr_msg_id = r_msg_id x, mr_last_msg_id = 0, mr_msg_time = ul_msg_time d\<rparr>, None)"
    by (metis snd_conv)
  ultimately show ?thesis by blast
qed

definition accepted :: "mem_world \<times> (MsgReply \<times> SendtoPeersArgs option) result" where
  "accepted = SendMsg mem_stubs 100 hi_to_2 (mem_world empty_tables signed_in)"

theorem push_calls_every_receiver_witness:
  "\<exists>w2 m1 ch call. push_thread (brpc_that (\<lambda>c. True)) push_defaults mem_stubs (the (snd (projr (snd accepted)))) (fst accepted)
      (\<lambda>a. None) = (w2, m1, Inr [(Some ch, call)]) \<and> ch_addr ch = ''h:1'' \<and> m_message call = ''hi''"
proof -
  have "\<not> isl (snd accepted)" "snd (projr (snd accepted)) \<noteq> None" by code_simp+
  from accepted_eq [OF this]
  have s: "SendMsg mem_stubs 100 hi_to_2 (mem_world empty_tables signed_in) =
      (fst accepted, Inr (fst (projr (snd accepted)), Some (the (snd (projr (snd accepted))))))"
    unfolding accepted_def .
  let ?args = "the (snd (projr (snd accepted)))"
  have r: "map un_user_id (drop 1 (pa_id_request ?args)) = [2]"
    "pa_id_reply ?args = [\<lparr>mi_user_id = 1, mi_start_msg_id = 1, mi_msg_id_num = 1\<rparr>, \<lparr>mi_user_id = 2, mi_start_msg_id = 1, mi_msg_id_num = 1\<rparr>]"
    by code_simp+
  let ?g = "st_GetSessions mem_stubs [2] (fst accepted)"
  have e: "snd ?g = Inr [\<lparr>se_has_session = True, se_user_id = 2, se_addr = ''h:1''\<rparr>]" by code_simp
  then have g: "st_GetSessions mem_stubs (map un_user_id (drop 1 (pa_id_request ?args))) (fst accepted) =
      (fst ?g, Inr [\<lparr>se_has_session = True, se_user_id = 2, se_addr = ''h:1''\<rparr>])"
    unfolding r(1) by (metis prod.collapse)
  from push_calls_every_receiver [where br = "brpc_that (\<lambda>c. True)" and fl = push_defaults and m = "\<lambda>a. None", OF mem_ok(1) s g]
  show ?thesis by (simp add: r(2) init_channel_def brpc_that_def access_channel_def peer_msg_def c_str_def)
qed

definition waiting :: "mem_timers access" where
  "waiting = projr (PullData mem_timers_ops 400 0 2 5 idle)"

theorem accepted_message_answers_the_waiting_pull_witness:
  "\<exists>msg acc'. SendtoAccess msg waiting = Inr acc' \<and> responses acc' 5 = [msg] \<and> m_message msg = ''hi'' \<and>
    effects acc' = [RunClosure 5]"
proof -
  have "\<not> isl (snd accepted)" "snd (projr (snd accepted)) \<noteq> None" by code_simp+
  from accepted_eq [OF this]
  have s: "SendMsg mem_stubs 100 hi_to_2 (mem_world empty_tables signed_in) =
      (fst accepted, Inr (fst (projr (snd accepted)), Some (the (snd (projr (snd accepted))))))"
    unfolding accepted_def .
  let ?g = "st_GetSessions mem_stubs [2] (fst accepted)"
  have "\<not> isl (snd ?g)" "length (projr (snd ?g)) = 1" "se_has_session (hd (projr (snd ?g)))" by code_simp+
  then have g: "st_GetSessions mem_stubs [nm_peer_id hi_to_2] (fst accepted) = (fst ?g, Inr [hd (projr (snd ?g))])"
    "se_has_session (hd (projr (snd ?g)))"
    by (cases ?g; cases "snd ?g"; cases "projr (snd ?g)"; simp)+
  have b: "bucket_of (nm_peer_id hi_to_2) = Inr 2" by (simp add: bucket_of_nonneg)
  have "id_map waiting 2 2 \<noteq> None" "d_done (the (id_map waiting 2 2)) = Some 5" "d_msgs (the (id_map waiting 2 2)) = Some 5"
    "responses waiting 5 = []" "effects waiting = []" by code_simp+
  then obtain data where d: "id_map waiting 2 (nm_peer_id hi_to_2) = Some data" "d_done data = Some 5" "d_msgs data = Some 5"
    and e: "responses waiting 5 = []" "effects waiting = []" by auto
  have c: "in_i32 (nm_client_time hi_to_2)" "c_str (nm_message hi_to_2) = nm_message hi_to_2"
    by (simp_all add: in_i32_def c_str_def)
  have m: "addressed (\<lambda>a. None)" by (simp add: addressed_def)
  have i: "None = None \<and> br_Init (brpc_that (\<lambda>c. True)) (access_channel push_defaults (se_addr (hd (projr (snd ?g))))) \<or>
      None = Some (Some some_channel)" for some_channel by (simp add: brpc_that_def)
  from accepted_message_answers_the_waiting_pull [OF mem_ok(1) s _ c g m i b d] e
  obtain rrow acc' where "r_message rrow = ''hi''" "SendtoAccess (row_msg 2 rrow) waiting = Inr acc'"
    "responses acc' 5 = [row_msg 2 rrow]" "effects acc' = [RunClosure 5]" by auto
  then show ?thesis by (intro exI [of _ "row_msg 2 rrow"] exI [of _ acc']) (simp add: row_msg_def)
qed

end
