(* ===== verification/DbProxy_Threads.thy ===== *)
theory DbProxy_Threads
  imports Proxy_Values Mem_World
begin

text \<open>
  The proxy serves many calls at once. A handler can be interrupted between two of its statements
  and commands, so here the handlers that store and look up messages are cut there and interleaved:
  any number of saves and look-ups run at the same time, each of the servers behind the proxy does
  one statement or command after the other.
\<close>

section \<open>A handler that is under way\<close>

text \<open>
  \<open>GettingLast\<close> and \<open>SelectingLast\<close> are \<open>GetUserLastSendData\<close> before its command and before its
  statement; \<open>Inserting\<close> has the statements of a save that are still to be made, each with its
  database; \<open>SettingLast\<close> is a save before its script.
\<close>

datatype proxy_thread =
    GettingLast user_id_t
  | SelectingLast user_id_t
  | Inserting save_request "(pool \<times> msg_row list) list"
  | SettingLast save_request

datatype proxy_answer = LastData user_id_t "UserLastSendData result" | SaveResult save_request "unit result"

fun statements :: "save_request \<Rightarrow> (pool \<times> msg_row list) list" where
  "statements (SavePrivate m) =
     (let pool = ChooseDatabase (npm_sender m); peer_pool = ChooseDatabase (npm_receiver m) in
      if pool = peer_pool then [(pool, [sender_row m, receiver_row m])]
      else [(pool, [sender_row m]), (peer_pool, [receiver_row m])])"
| "statements (SaveGroup m) =
     map (\<lambda>um. (ChooseDatabase (um_user_id um), [group_row m um])) (ngm_user_and_msgids m)"

fun last_of :: "save_request \<Rightarrow> UserLastSendData" where
  "last_of (SavePrivate m) = \<lparr>ul_user_id = npm_sender m, ul_msg_id = npm_sender_msg_id m,
     ul_client_time = npm_client_time m, ul_msg_time = npm_msg_time m\<rparr>"
| "last_of (SaveGroup m) = \<lparr>ul_user_id = ngm_sender_user_id m, ul_msg_id = ngm_sender_msg_id m,
     ul_client_time = ngm_client_time m, ul_msg_time = ngm_msg_time m\<rparr>"

definition saving :: "save_request \<Rightarrow> (pool \<times> msg_row list) list \<Rightarrow> proxy_thread" where
  "saving req ss = (if ss = [] then SettingLast req else Inserting req ss)"

fun advance_proxy ::
  "('r, 'q) backends \<Rightarrow> proxy_thread \<Rightarrow> ('r, 'q) dbproxy \<Rightarrow> ('r, 'q) dbproxy \<times> (proxy_answer + proxy_thread)" where
  "advance_proxy be (GettingLast u) w =
     (case redis_CallMethod be (cmd_get (be_redis be) (last_send_key u)) w of
        (w1, Inl e) \<Rightarrow> (w1, Inl (LastData u (Inl (Failed EINVAL ''Fail to get data from redis.''))))
      | (w1, Inr (RString s)) \<Rightarrow>
          (case sscanf_last s of
             Inl f \<Rightarrow> (w1, Inl (LastData u (Inl (Fault f))))
           | Inr d \<Rightarrow> (w1, Inl (LastData u (Inr (last_answer d)))))
      | (w1, Inr other) \<Rightarrow> (w1, Inr (SelectingLast u)))"
| "advance_proxy be (SelectingLast u) w =
     (let p = ChooseDatabase u in
      case sql_messages (be_mysql be) (dp_sql w p) (last_sent_where u) of
        (q, Inl e) \<Rightarrow> (set_sql p q w, Inl (LastData u (Inl (Failed EINVAL ''Fail to select from messages.''))))
      | (q, Inr rs) \<Rightarrow> (set_sql p q w, Inl (LastData u (Inr (last_answer (last_from_rows rs))))))"
| "advance_proxy be (Inserting req []) w = (w, Inr (SettingLast req))"
| "advance_proxy be (Inserting req ((p, rows) # ss)) w =
     (case sql_exec be p rows w of
        (w1, Some e) \<Rightarrow> (w1, Inl (SaveResult req (Inl (Failed EINVAL ''Fail to insert into messages.''))))
      | (w1, None) \<Rightarrow> (w1, Inr (saving req ss)))"
| "advance_proxy be (SettingLast req) w =
     (case SetUserLastSendData_impl be (last_of req) w of (w1, r) \<Rightarrow> (w1, Inl (SaveResult req r)))"

section \<open>A handler that runs alone\<close>

fun run_proxy ::
  "nat \<Rightarrow> ('r, 'q) backends \<Rightarrow> proxy_thread \<Rightarrow> ('r, 'q) dbproxy \<Rightarrow> ('r, 'q) dbproxy \<times> (proxy_answer + proxy_thread)" where
  "run_proxy 0 be t w = (w, Inr t)"
| "run_proxy (Suc n) be t w =
     (case advance_proxy be t w of (w1, Inl a) \<Rightarrow> (w1, Inl a) | (w1, Inr t1) \<Rightarrow> run_proxy n be t1 w1)"

definition with_statements ::
  "('r, 'q) backends \<Rightarrow> save_request \<Rightarrow> ('r, 'q) dbproxy \<times> string option \<Rightarrow> ('r, 'q) dbproxy \<times> unit result" where
  "with_statements be req we = (case we of
      (w1, Some e) \<Rightarrow> (w1, Inl (Failed EINVAL ''Fail to insert into messages.''))
    | (w1, None) \<Rightarrow> SetUserLastSendData_impl be (last_of req) w1)"

lemma run_setting: "run_proxy (Suc n) be (SettingLast req) w =
    (case SetUserLastSendData_impl be (last_of req) w of (w', r) \<Rightarrow> (w', Inl (SaveResult req r)))"
  by (simp split: prod.split)

lemma run_group:
  "run_proxy (Suc (length ums)) be (saving (SaveGroup m) (map (\<lambda>um. (ChooseDatabase (um_user_id um), [group_row m um])) ums)) w =
   (case with_statements be (SaveGroup m) (insert_group be m ums w) of (w', r) \<Rightarrow> (w', Inl (SaveResult (SaveGroup m) r)))"
proof (induction ums arbitrary: w)
  case Nil
  show ?case unfolding saving_def by (simp add: run_setting with_statements_def del: run_proxy.simps)
next
  case (Cons um ums)
  obtain w1 e where s: "sql_exec be (ChooseDatabase (um_user_id um)) [group_row m um] w = (w1, e)" by fastforce
  with Cons.IH [of w1] show ?case
    by (cases e) (simp_all add: saving_def with_statements_def del: ChooseDatabase_simp)
qed

text \<open>
  Cutting the handlers of the proxy loses nothing: a save, or a look-up of the last message,
  that runs from its first statement to its answer without being interrupted does to the servers,
  and answers, exactly what its handler does.
\<close>

lemma proxy_thread_alone_is_the_handler:
  "run_proxy 2 be (GettingLast u) w = (case GetUserLastSendData be u w of (w', r) \<Rightarrow> (w', Inl (LastData u r))) \<and>
   run_proxy (Suc (length (statements req))) be (saving req (statements req)) w =
     (case save_message be w req of (w', r) \<Rightarrow> (w', Inl (SaveResult req r)))"
proof
  show "run_proxy 2 be (GettingLast u) w = (case GetUserLastSendData be u w of (w', r) \<Rightarrow> (w', Inl (LastData u r)))"
  proof -
    obtain w1 c where c: "redis_CallMethod be (cmd_get (be_redis be) (last_send_key u)) w = (w1, c)" by fastforce
    obtain q rs where s: "sql_messages (be_mysql be) (dp_sql w1 db_message_connect_pool) (last_sent_where u) = (q, rs)" by fastforce
    show ?thesis
    proof (cases c)
      case (Inr reply)
      with c s show ?thesis
        by (cases reply; cases rs) (simp_all add: numeral_2_eq_2 GetUserLastSendData_def split: sum.split)
    qed (use c in \<open>simp add: numeral_2_eq_2 GetUserLastSendData_def\<close>)
  qed
  show "run_proxy (Suc (length (statements req))) be (saving req (statements req)) w =
     (case save_message be w req of (w', r) \<Rightarrow> (w', Inl (SaveResult req r)))"
  proof (cases req)
    case (SavePrivate m)
    then show ?thesis
      by (simp add: saving_def SavePrivateMsg_def insert_private_def split: prod.split option.split)
  next
    case (SaveGroup m)
    have "SaveGroupMsg be m w = with_statements be (SaveGroup m) (insert_group be m (ngm_user_and_msgids m) w)"
      by (simp add: SaveGroupMsg_def with_statements_def split: prod.split option.split)
    with SaveGroup run_group [of "ngm_user_and_msgids m" be m w] show ?thesis by (simp del: run_proxy.simps ChooseDatabase_simp)
  qed
qed

section \<open>Many handlers\<close>

datatype proxy_call = CallGetLast user_id_t | CallSave save_request

fun thread_of_call :: "proxy_call \<Rightarrow> proxy_thread" where
  "thread_of_call (CallGetLast u) = GettingLast u"
| "thread_of_call (CallSave req) = saving req (statements req)"

datatype proxy_label = Called proxy_call | Progress | Answered_as proxy_answer

type_synonym ('r, 'q) proxy_server = "('r, 'q) dbproxy \<times> proxy_thread list"

inductive proxy_step ::
  "('r, 'q) backends \<Rightarrow> ('r, 'q) proxy_server \<Rightarrow> proxy_label \<Rightarrow> ('r, 'q) proxy_server \<Rightarrow> bool" for be where
  called: "proxy_step be (w, ts) (Called c) (w, ts @ [thread_of_call c])"
| progress: "advance_proxy be t w = (w', Inr t') \<Longrightarrow>
    proxy_step be (w, ts1 @ t # ts2) Progress (w', ts1 @ t' # ts2)"
| answered: "advance_proxy be t w = (w', Inl a) \<Longrightarrow>
    proxy_step be (w, ts1 @ t # ts2) (Answered_as a) (w', ts1 @ ts2)"

inductive_cases proxy_stepE: "proxy_step be x l y"

section \<open>What the threads have stored\<close>

lemma request_statements: "concat (map snd (statements req)) = request_rows req"
proof (cases req)
  case (SaveGroup m)
  have "concat (map (\<lambda>um. [group_row m um]) ums) = map (group_row m) ums" for ums by (induction ums) simp_all
  with SaveGroup show ?thesis by (simp add: comp_def)
qed simp

lemma statement_rows: "(\<Union>s \<in> set (statements req). set (snd s)) = set (request_rows req)"
  using arg_cong [OF request_statements [of req], of set] by simp

lemma statement_pools: "(p, rs) \<in> set (statements req) \<Longrightarrow> p = db_message_connect_pool"
  by (cases req) auto

text \<open>A save that is under way has stored the rows of the statements it has made.\<close>

fun stored_so_far :: "msg_row list \<Rightarrow> proxy_thread \<Rightarrow> bool" where
  "stored_so_far rows (Inserting req ss) \<longleftrightarrow>
     (\<exists>before. statements req = before @ ss \<and> set (concat (map snd before)) \<subseteq> set rows)"
| "stored_so_far rows (SettingLast req) \<longleftrightarrow> set (request_rows req) \<subseteq> set rows"
| "stored_so_far rows _ \<longleftrightarrow> True"

lemma stored_so_far_mono: "stored_so_far rows t \<Longrightarrow> set rows \<subseteq> set rows' \<Longrightarrow> stored_so_far rows' t"
  by (cases t) auto

lemma stored_so_far_saving:
  assumes "statements req = before @ ss" "set (concat (map snd before)) \<subseteq> set rows"
  shows "stored_so_far rows (saving req ss)"
proof (cases "ss = []")
  case True
  with assms statement_rows [of req] show ?thesis by (simp add: saving_def)
next
  case False
  with assms show ?thesis by (auto simp: saving_def)
qed

text \<open>
  What one step of a thread does: the table gains the rows of one statement or nothing, and keeps
  its unique key; a save that answers with success has stored its rows.
\<close>

definition table_step :: "msg_row list \<Rightarrow> msg_row list \<Rightarrow> bool" where
  "table_step rows rows' \<longleftrightarrow> set rows \<subseteq> set rows' \<and> (unique_rows rows \<longrightarrow> unique_rows rows')"

lemma advance_stores:
  assumes ok: "insert_ok (be_mysql be) view" "select_ok (be_mysql be) view"
    and t: "stored_so_far (messages view w) t" and a: "advance_proxy be t w = (w', out)"
  shows "table_step (messages view w) (messages view w') \<and> (\<forall>t'. out = Inr t' \<longrightarrow> stored_so_far (messages view w') t') \<and>
    (\<forall>req. out = Inl (SaveResult req (Inr ())) \<longrightarrow> set (request_rows req) \<subseteq> set (messages view w'))"
proof (cases t)
  case (GettingLast u)
  obtain c where c: "redis_CallMethod be (cmd_get (be_redis be) (last_send_key u)) w = (w', c)"
    using a GettingLast by (auto split: prod.splits sum.splits redis_reply.splits)
  from redis_CallMethod_tables [where view = view, OF this] a GettingLast show ?thesis
    by (auto simp: table_step_def split: prod.splits sum.splits redis_reply.splits)
next
  case (SelectingLast u)
  obtain q r where s: "sql_messages (be_mysql be) (dp_sql w db_message_connect_pool) (last_sent_where u) = (q, r)" by fastforce
  have "view q = tables_of view w"
    using ok(2) s unfolding select_ok_def tables_of_def by (elim conjE) blast
  with a SelectingLast s show ?thesis by (auto simp: table_step_def split: sum.splits)
next
  case (Inserting req ss)
  with t obtain before where b: "statements req = before @ ss" "set (concat (map snd before)) \<subseteq> set (messages view w)" by auto
  show ?thesis
  proof (cases ss)
    case Nil
    with a Inserting b statement_rows [of req] show ?thesis by (auto simp: table_step_def)
  next
    case (Cons s ss')
    obtain p rows where s: "s = (p, rows)" by fastforce
    have p: "p = db_message_connect_pool" using statement_pools [of p rows req] b(1) Cons s by simp
    obtain e where e: "sql_exec be db_message_connect_pool rows w = (w', e)"
      and out: "out = (case e of Some x \<Rightarrow> Inl (SaveResult req (Inl (Failed EINVAL ''Fail to insert into messages.'')))
        | None \<Rightarrow> Inr (saving req ss'))"
      using a Inserting Cons s p by (auto split: prod.splits option.splits)
    note S = sql_exec_spec [OF ok(1) e]
    have tab: "table_step (messages view w) (messages view w')"
      using S by (auto simp: table_step_def unique_rows_append)
    show ?thesis
    proof (cases e)
      case None
      with S have "set (concat (map snd (before @ [s]))) \<subseteq> set (messages view w')" using b(2) s by auto
      then have "stored_so_far (messages view w') (saving req ss')"
        by (intro stored_so_far_saving [of req "before @ [s]"]) (simp_all add: b(1) Cons)
      with tab out None show ?thesis by simp
    qed (use tab out in simp)
  qed
next
  case (SettingLast req)
  then obtain r where "SetUserLastSendData_impl be (last_of req) w = (w', r)" and out: "out = Inl (SaveResult req r)"
    using a by (auto split: prod.splits)
  from set_last_tables [where view = view, OF this(1)] t SettingLast out show ?thesis by (auto simp: table_step_def)
qed

definition proxy_ok :: "('q \<Rightarrow> tables) \<Rightarrow> ('r, 'q) proxy_server \<Rightarrow> bool" where
  "proxy_ok view x \<longleftrightarrow> unique_rows (messages view (fst x)) \<and> list_all (stored_so_far (messages view (fst x))) (snd x)"

lemma stored_all_mono:
  "list_all (stored_so_far rows) ts \<Longrightarrow> set rows \<subseteq> set rows' \<Longrightarrow> list_all (stored_so_far rows') ts"
  by (auto simp: list_all_iff intro: stored_so_far_mono)

lemma proxy_step_ok:
  assumes my: "mysql_ok (be_mysql be) view" and step: "proxy_step be x l y" and ok: "proxy_ok view x"
  shows "proxy_ok view y \<and> set (messages view (fst x)) \<subseteq> set (messages view (fst y)) \<and>
    (\<forall>req. l = Answered_as (SaveResult req (Inr ())) \<longrightarrow> set (request_rows req) \<subseteq> set (messages view (fst y)))"
proof -
  have m: "insert_ok (be_mysql be) view" "select_ok (be_mysql be) view" using my by (simp_all add: mysql_ok_def)
  from step show ?thesis
  proof (cases rule: proxy_step.cases)
    case (called w ts c)
    have "stored_so_far (messages view w) (thread_of_call c)"
      by (cases c) (auto intro: stored_so_far_saving [of _ "[]"])
    with called ok show ?thesis by (simp add: proxy_ok_def)
  next
    case (progress t w w' t' ts1 ts2)
    with ok have "stored_so_far (messages view w) t" by (simp add: proxy_ok_def)
    note A = advance_stores [OF m this progress(4)]
    with ok progress(1-3) show ?thesis by (auto simp: proxy_ok_def table_step_def intro: stored_all_mono)
  next
    case (answered t w w' a ts1 ts2)
    with ok have "stored_so_far (messages view w) t" by (simp add: proxy_ok_def)
    note A = advance_stores [OF m this answered(4)]
    with ok answered(1-3) show ?thesis by (auto simp: proxy_ok_def table_step_def intro: stored_all_mono)
  qed
qed

lemma proxy_path_ok:
  assumes my: "mysql_ok (be_mysql be) view"
  shows "path (proxy_step be) x ls y \<Longrightarrow> proxy_ok view x \<Longrightarrow>
    proxy_ok view y \<and> set (messages view (fst x)) \<subseteq> set (messages view (fst y)) \<and>
    (\<forall>req. Answered_as (SaveResult req (Inr ())) \<in> set ls \<longrightarrow> set (request_rows req) \<subseteq> set (messages view (fst y)))"
proof (induction rule: path.induct)
  case (path_Cons x l x1 ls y)
  note S = proxy_step_ok [OF my path_Cons.hyps(1) path_Cons.prems]
  then have IH: "proxy_ok view y" "set (messages view (fst x1)) \<subseteq> set (messages view (fst y))"
    "\<forall>req. Answered_as (SaveResult req (Inr ())) \<in> set ls \<longrightarrow> set (request_rows req) \<subseteq> set (messages view (fst y))"
    using path_Cons.IH by simp_all
  have "set (request_rows req) \<subseteq> set (messages view (fst y))"
    if "Answered_as (SaveResult req (Inr ())) \<in> set (l # ls)" for req
    using that S IH(2,3) by (cases "l = Answered_as (SaveResult req (Inr ()))") auto
  with S IH show ?case by blast
qed simp

text \<open>
  And the rows that the table has gained belong each to one save: the rows of the saves that were
  acknowledged, and those that the saves under way have made, are different rows of it, and none
  was there before.
\<close>

fun made :: "proxy_thread \<Rightarrow> msg_row list" where
  "made (Inserting req ss) = concat (map snd (take (length (statements req) - length ss) (statements req)))"
| "made (SettingLast req) = request_rows req"
| "made _ = []"

fun asked_rows :: "proxy_thread \<Rightarrow> msg_row list" where
  "asked_rows (Inserting req ss) = request_rows req"
| "asked_rows (SettingLast req) = request_rows req"
| "asked_rows _ = []"

fun under_way :: "proxy_thread \<Rightarrow> bool" where
  "under_way (Inserting req ss) \<longleftrightarrow> (\<exists>before. statements req = before @ ss)"
| "under_way _ \<longleftrightarrow> True"

fun acknowledged :: "proxy_label \<Rightarrow> msg_row list" where
  "acknowledged (Answered_as (SaveResult req (Inr u))) = request_rows req"
| "acknowledged _ = []"

lemma made_saving:
  "statements req = before @ ss \<Longrightarrow> made (saving req ss) = concat (map snd before) \<and> under_way (saving req ss)"
  using request_statements [of req] by (auto simp: saving_def)

lemma asked_saving [simp]: "asked_rows (saving req ss) = request_rows req"
  by (simp add: saving_def)

lemma advance_owns:
  assumes ok: "insert_ok (be_mysql be) view" "select_ok (be_mysql be) view"
    and t: "under_way t" and a: "advance_proxy be t w = (w', out)"
  shows "\<exists>new. messages view w' = messages view w @ new \<and> set new \<subseteq> set (asked_rows t) \<and>
    (unique_rows (messages view w) \<longrightarrow> unique_rows (messages view w')) \<and>
    (\<forall>t'. out = Inr t' \<longrightarrow> under_way t' \<and> asked_rows t' = asked_rows t \<and> mset (made t') \<subseteq># mset (made t) + mset new) \<and>
    (\<forall>ans. out = Inl ans \<longrightarrow> mset (acknowledged (Answered_as ans)) \<subseteq># mset (made t) + mset new \<and>
      acknowledged (Answered_as ans) \<in> {[], asked_rows t})"
proof (cases t)
  case (GettingLast u)
  obtain c where c: "redis_CallMethod be (cmd_get (be_redis be) (last_send_key u)) w = (w', c)"
    using a GettingLast by (auto split: prod.splits sum.splits redis_reply.splits)
  from redis_CallMethod_tables [where view = view, OF this] a GettingLast show ?thesis
    by (auto split: prod.splits sum.splits redis_reply.splits)
next
  case (SelectingLast u)
  obtain q r where s: "sql_messages (be_mysql be) (dp_sql w db_message_connect_pool) (last_sent_where u) = (q, r)" by fastforce
  have "view q = tables_of view w"
    using ok(2) s unfolding select_ok_def tables_of_def by (elim conjE) blast
  with a SelectingLast s show ?thesis by (auto split: sum.splits)
next
  case (Inserting req ss)
  with t obtain before where b: "statements req = before @ ss" by auto
  show ?thesis
  proof (cases ss)
    case Nil
    with a Inserting b request_statements [of req] show ?thesis by auto
  next
    case (Cons s ss')
    obtain p rows where s: "s = (p, rows)" by fastforce
    have p: "p = db_message_connect_pool" using statement_pools [of p rows req] b Cons s by simp
    obtain e where e: "sql_exec be db_message_connect_pool rows w = (w', e)"
      and out: "out = (case e of Some x \<Rightarrow> Inl (SaveResult req (Inl (Failed EINVAL ''Fail to insert into messages.'')))
        | None \<Rightarrow> Inr (saving req ss'))"
      using a Inserting Cons s p by (auto split: prod.splits option.splits)
    have "(p, rows) \<in> set (statements req)" using b Cons s by simp
    then have "set (snd (p, rows)) \<subseteq> (\<Union>s \<in> set (statements req). set (snd s))" by blast
    then have asked: "set rows \<subseteq> set (asked_rows t)" unfolding statement_rows using Inserting by simp
    note S = sql_exec_spec [OF ok(1) e]
    then have u: "unique_rows (messages view w) \<longrightarrow> unique_rows (messages view w')"
      by (auto simp: unique_rows_append)
    show ?thesis
    proof (cases e)
      case None
      have "made (saving req ss') = made t @ rows \<and> under_way (saving req ss')"
        using made_saving [of req "before @ [s]" ss'] b Cons s Inserting by simp
      with S out None u asked Inserting show ?thesis by auto
    qed (use S out u asked in auto)
  qed
next
  case (SettingLast req)
  then obtain r where "SetUserLastSendData_impl be (last_of req) w = (w', r)" and out: "out = Inl (SaveResult req r)"
    using a by (auto split: prod.splits)
  from set_last_tables [where view = view, OF this(1)] SettingLast out show ?thesis by (cases r) auto
qed

definition rows_owned :: "('q \<Rightarrow> tables) \<Rightarrow> msg_row list \<Rightarrow> ('r, 'q) proxy_server \<Rightarrow> bool" where
  "rows_owned view rows x \<longleftrightarrow> list_all under_way (snd x) \<and>
     mset rows + mset (concat (map made (snd x))) \<subseteq># mset (messages view (fst x))"

lemma owner_change:
  fixes R :: "'a multiset"
  assumes "R + (A + (m + B)) \<subseteq># T" and "k + m' \<subseteq># m + n"
  shows "R + k + (A + (m' + B)) \<subseteq># T + n"
  unfolding subseteq_mset_def
proof
  fix a
  show "count (R + k + (A + (m' + B))) a \<le> count (T + n) a"
    using mset_subset_eq_count [OF assms(1), of a] mset_subset_eq_count [OF assms(2), of a] by simp
qed

lemma rows_owned_step:
  assumes my: "mysql_ok (be_mysql be) view" and step: "proxy_step be x l y" and x: "rows_owned view rows x"
  shows "rows_owned view (rows @ acknowledged l) y"
proof -
  have m: "insert_ok (be_mysql be) view" "select_ok (be_mysql be) view" using my by (simp_all add: mysql_ok_def)
  from step show ?thesis
  proof (cases rule: proxy_step.cases)
    case (called w ts c)
    have "made (thread_of_call c) = [] \<and> under_way (thread_of_call c)"
      using made_saving [of _ "[]"] by (cases c) auto
    with called x show ?thesis by (simp add: rows_owned_def)
  next
    case (progress t w w' t' ts1 ts2)
    with x have t: "under_way t" by (simp add: rows_owned_def)
    from advance_owns [OF m t progress(4)] obtain new where
      new: "messages view w' = messages view w @ new" "under_way t'" "mset (made t') \<subseteq># mset (made t) + mset new" by auto
    have "mset rows + {#} + (mset (concat (map made ts1)) + (mset (made t') + mset (concat (map made ts2))))
        \<subseteq># mset (messages view w) + mset new"
      by (rule owner_change [of _ _ "mset (made t)"]) (use x progress(1) new(3) in \<open>simp_all add: rows_owned_def\<close>)
    with x new(1,2) progress(1-3) show ?thesis by (simp add: rows_owned_def)
  next
    case (answered t w w' ans ts1 ts2)
    with x have t: "under_way t" by (simp add: rows_owned_def)
    from advance_owns [OF m t answered(4)] obtain new where
      new: "messages view w' = messages view w @ new" "mset (acknowledged (Answered_as ans)) \<subseteq># mset (made t) + mset new" by auto
    have "mset rows + mset (acknowledged (Answered_as ans)) +
        (mset (concat (map made ts1)) + ({#} + mset (concat (map made ts2)))) \<subseteq># mset (messages view w) + mset new"
      by (rule owner_change [of _ _ "mset (made t)"]) (use x answered(1) new(2) in \<open>simp_all add: rows_owned_def\<close>)
    with x new(1) answered(1-3) show ?thesis by (simp add: rows_owned_def)
  qed
qed

lemma rows_owned_path:
  assumes my: "mysql_ok (be_mysql be) view"
  shows "path (proxy_step be) x ls y \<Longrightarrow> rows_owned view rows x \<Longrightarrow>
    rows_owned view (rows @ concat (map acknowledged ls)) y"
proof (induction arbitrary: rows rule: path.induct)
  case (path_Cons x l x1 ls y)
  from path_Cons.IH [OF rows_owned_step [OF my path_Cons.hyps(1) path_Cons.prems]] show ?case by simp
qed simp

lemma keys_of_part: "mset xs \<subseteq># mset ys \<Longrightarrow> unique_rows ys \<Longrightarrow> unique_rows xs"
proof -
  assume "mset xs \<subseteq># mset ys" and u: "unique_rows ys"
  then obtain zs where "mset ys = mset (xs @ zs)" by (metis ex_mset mset_append subset_mset.less_eqE)
  then have "mset (map unique_key ys) = mset (map unique_key (xs @ zs))" by (simp only: mset_map)
  with u show ?thesis unfolding unique_rows_def by (metis distinct_append map_append mset_eq_imp_distinct_iff)
qed

text \<open>
  C12: however the handlers of the proxy interleave, statement by statement and command by command,
  with saves that fail half-way and saves of the same message at the same time: the rows of the
  saves that were acknowledged are all in the table, each with a unique key of its own that was not
  in the table before. So no message is acknowledged twice, and the table keeps its unique key.
\<close>

theorem interleaved_saves_store_once:
  assumes "mysql_ok (be_mysql be) view" "unique_rows (messages view w)"
    and "path (proxy_step be) (w, []) ls (w', ts)"
  shows "unique_rows (messages view w @ concat (map acknowledged ls)) \<and> unique_rows (messages view w') \<and>
    mset (messages view w @ concat (map acknowledged ls)) \<subseteq># mset (messages view w')"
proof -
  have "proxy_ok view (w, [])" using assms(2) by (simp add: proxy_ok_def)
  from proxy_path_ok [OF assms(1,3) this] have u: "unique_rows (messages view w')" by (simp add: proxy_ok_def)
  have "rows_owned view (messages view w) (w, [])" by (simp add: rows_owned_def)
  from rows_owned_path [OF assms(1,3) this]
  have "mset (messages view w @ concat (map acknowledged ls)) + mset (concat (map made ts)) \<subseteq># mset (messages view w')"
    by (simp add: rows_owned_def)
  then have "mset (messages view w @ concat (map acknowledged ls)) \<subseteq># mset (messages view w')"
    by (metis mset_subset_eq_add_left subset_mset.order_trans)
  with u keys_of_part [OF this u] show ?thesis by blast
qed

section \<open>What is answered about the last message\<close>

text \<open>A row that the user sent, or none.\<close>

definition names_row :: "msg_row list \<Rightarrow> user_id_t \<Rightarrow> UserLastSendData \<Rightarrow> bool" where
  "names_row rows u d \<longleftrightarrow> d = last_answer (0, 0, 0) \<or>
     (\<exists>x \<in> set rows. own_row u x \<and> d = last_answer (r_msg_id x, r_client_time x, r_msg_time x))"

lemma names_row_mono: "names_row rows u d \<Longrightarrow> set rows \<subseteq> set rows' \<Longrightarrow> names_row rows' u d"
  unfolding names_row_def by blast

lemma newest_names_row: "newest_sent rows u d \<Longrightarrow> names_row rows u d"
  unfolding newest_sent_def names_row_def by (auto split: if_splits)

lemma advance_redis:
  assumes k: "kept_by_proxy be P" and v: "P (dp_redis w)" and a: "advance_proxy be t w = (w', out)"
  shows "P (dp_redis w')"
proof (cases t)
  case (GettingLast u)
  obtain c where c: "redis_CallMethod be (cmd_get (be_redis be) (last_send_key u)) w = (w', c)"
    using a GettingLast by (auto split: prod.splits sum.splits redis_reply.splits)
  then obtain l where "rd_link (be_redis be) (dp_redis w) = (l, dp_redis w')" by (rule get_call)
  from kept_link [OF k this v] show ?thesis .
next
  case (SelectingLast u)
  with a v show ?thesis by (auto simp: set_sql_def split: prod.splits sum.splits)
next
  case (Inserting req ss)
  have "dp_redis w' = dp_redis w"
  proof (cases ss)
    case (Cons s ss')
    obtain p rows where "s = (p, rows)" by fastforce
    with a Inserting Cons show ?thesis by (auto split: prod.splits option.splits dest: sql_exec_redis)
  qed (use a Inserting in simp)
  with v show ?thesis by simp
next
  case (SettingLast req)
  then obtain r where "SetUserLastSendData_impl be (last_of req) w = (w', r)" using a by (auto split: prod.splits)
  from set_last_keeps_value [OF k v this] show ?thesis .
qed

lemma advance_answer:
  assumes ok: "mysql_ok (be_mysql be) view" "redis_ok (be_redis be)" "cjson_ok (be_cjson be)"
    and v: "\<forall>u. proxy_value be u (dp_redis w)" and a: "advance_proxy be t w = (w', Inl (LastData u (Inr d)))"
  shows "names_row (messages view w) u d"
proof (cases t)
  case (GettingLast v')
  then obtain c where c: "redis_CallMethod be (cmd_get (be_redis be) (last_send_key u)) w = (w', c)" and u: "v' = u"
    using a by (auto split: prod.splits sum.splits redis_reply.splits)
  then obtain l where l: "rd_link (be_redis be) (dp_redis w) = (l, dp_redis w')"
    and reply: "c = (case l of Answered \<Rightarrow> Inr (bulk (rd_get (be_redis be) (dp_redis w') (last_send_key u)))
      | Refused e \<Rightarrow> Inr (RError e) | Unreached a t \<Rightarrow> Inl (Failed a t) | AnswerLost a t \<Rightarrow> Inl (Failed a t))"
    by (elim get_call)
  from a c GettingLast u obtain x where x: "c = Inr (RString x)" "\<exists>y. sscanf_last x = Inr y \<and> d = last_answer y"
    by (auto split: sum.splits redis_reply.splits)
  with reply have "rd_get (be_redis be) (dp_redis w') (last_send_key u) = Some x"
    by (auto simp: bulk_def split: link.splits option.splits)
  with kept_link [OF proxy_value_kept [OF ok(2), of u] l] v obtain i c t where
    "x = cj_encode (be_cjson be) [to_string i, to_string c, to_string t]"
    unfolding proxy_value_def encoded_value_def by auto
  then have "sscanf_last x = Inr (0, 0, 0)" using encoded_reads_zero [OF ok(3)] by blast
  with x(2) show ?thesis by (simp add: names_row_def)
next
  case (SelectingLast v')
  then obtain q rs where s: "sql_messages (be_mysql be) (dp_sql w db_message_connect_pool) (last_sent_where u) = (q, Inr rs)"
    and d: "d = last_answer (last_from_rows rs)"
    using a by (auto split: prod.splits sum.splits)
  from newest_names_row [OF selected_newest(2) [OF ok(1) s]] d show ?thesis by (simp add: tables_of_def)
next
  case (Inserting req ss)
  with a show ?thesis by (cases ss) (auto split: prod.splits option.splits)
next
  case (SettingLast req)
  with a show ?thesis by (auto split: prod.splits)
qed

lemma interleaved_answers:
  assumes ok: "mysql_ok (be_mysql be) view" "redis_ok (be_redis be)" "cjson_ok (be_cjson be)"
  shows "path (proxy_step be) x ls y \<Longrightarrow> proxy_ok view x \<Longrightarrow> \<forall>u. proxy_value be u (dp_redis (fst x)) \<Longrightarrow>
    Answered_as (LastData u (Inr d)) \<in> set ls \<Longrightarrow> names_row (messages view (fst y)) u d"
proof (induction rule: path.induct)
  case (path_Cons x l x1 ls y)
  note S = proxy_step_ok [OF ok(1) path_Cons.hyps(1) path_Cons.prems(1)]
  have later: "set (messages view (fst x)) \<subseteq> set (messages view (fst y))"
    using S proxy_path_ok [OF ok(1) path_Cons.hyps(2)] by blast
  have "(\<forall>u. proxy_value be u (dp_redis (fst x1))) \<and>
      (l = Answered_as (LastData u (Inr d)) \<longrightarrow> names_row (messages view (fst x)) u d)"
    using path_Cons.hyps(1)
  proof (cases rule: proxy_step.cases)
    case (called w ts c)
    with path_Cons.prems(2) show ?thesis by simp
  next
    case (progress t w w' t' ts1 ts2)
    with path_Cons.prems(2) advance_redis [OF proxy_value_kept [OF ok(2)] _ progress(4)] show ?thesis by auto
  next
    case (answered t w w' a ts1 ts2)
    with path_Cons.prems(2) advance_redis [OF proxy_value_kept [OF ok(2)] _ answered(4)] have
      "\<forall>u. proxy_value be u (dp_redis (fst x1))" by auto
    with answered path_Cons.prems(2) advance_answer [OF ok, of w t w' u d] show ?thesis by auto
  qed
  with path_Cons.IH S path_Cons.prems(3) later show ?case by (auto dest: names_row_mono)
qed simp

text \<open>
  C5: however the handlers of the proxy interleave, and whatever keys and commands redis loses, a
  look-up of the last message of a user is answered with zeros, with an error, or with the id and
  times of a row of the table that the user sent: a message that is being stored meanwhile is never
  reported before its row is there.
\<close>

theorem interleaved_lookups_name_stored_rows:
  assumes "mysql_ok (be_mysql be) view" "redis_ok (be_redis be)" "cjson_ok (be_cjson be)"
    and "unique_rows (messages view w)" "\<forall>u. proxy_value be u (dp_redis w)"
    and "path (proxy_step be) (w, []) ls (w', ts)" "Answered_as (LastData u (Inr d)) \<in> set ls"
  shows "d = last_answer (0, 0, 0) \<or> (\<exists>x \<in> set (messages view w'). r_user_id x = u \<and> r_sender x = u \<and>
    d = last_answer (r_msg_id x, r_client_time x, r_msg_time x))"
proof -
  have "proxy_ok view (w, [])" using assms(4) by (simp add: proxy_ok_def)
  from interleaved_answers [OF assms(1-3,6) this _ assms(7)] assms(5) show ?thesis
    by (simp add: names_row_def)
qed

section \<open>A run\<close>

text \<open>
  Two saves of the same message and a look-up: the look-up finds no value in redis and selects
  after the first save has inserted its rows, which it has not reported yet; the second save fails.
\<close>

fun proxy_sched :: "('r, 'q) backends \<Rightarrow> nat list \<Rightarrow> ('r, 'q) proxy_server \<Rightarrow> proxy_label list \<times> ('r, 'q) proxy_server" where
  "proxy_sched be [] x = ([], x)"
| "proxy_sched be (i # is) (w, ts) =
     (if i < length ts
      then (case advance_proxy be (ts ! i) w of
          (w', Inr t') \<Rightarrow>
            (case proxy_sched be is (w', take i ts @ t' # drop (Suc i) ts) of (ls, y) \<Rightarrow> (Progress # ls, y))
        | (w', Inl a) \<Rightarrow>
            (case proxy_sched be is (w', take i ts @ drop (Suc i) ts) of (ls, y) \<Rightarrow> (Answered_as a # ls, y)))
      else proxy_sched be is (w, ts))"

lemma proxy_sched_path: "proxy_sched be is x = (ls, y) \<Longrightarrow> path (proxy_step be) x ls y"
proof (induction be "is" x arbitrary: ls y rule: proxy_sched.induct)
  case (2 be i "is" w ts)
  show ?case
  proof (cases "i < length ts")
    case True
    obtain w' out where a: "advance_proxy be (ts ! i) w = (w', out)" by fastforce
    note ts = id_take_nth_drop [OF True]
    show ?thesis
    proof (cases out)
      case (Inl r)
      with "2.prems" "2.IH"(1) [OF True a [symmetric] Inl] True a obtain ls' where "ls = Answered_as r # ls'"
        and "path (proxy_step be) (w', take i ts @ drop (Suc i) ts) ls' y" by (auto split: prod.splits)
      with proxy_step.answered [OF a [unfolded Inl], of "take i ts" "drop (Suc i) ts"] ts show ?thesis
        by (simp add: path_Cons)
    next
      case (Inr t')
      with "2.prems" "2.IH"(2) [OF True a [symmetric] Inr] True a obtain ls' where "ls = Progress # ls'"
        and "path (proxy_step be) (w', take i ts @ t' # drop (Suc i) ts) ls' y" by (auto split: prod.splits)
      with proxy_step.progress [OF a [unfolded Inr], of "take i ts" "drop (Suc i) ts"] ts show ?thesis
        by (simp add: path_Cons)
    qed
  next
    case False
    with 2 show ?thesis by simp
  qed
qed (simp add: path_Nil)

definition busy_threads :: "proxy_thread list" where
  "busy_threads = map thread_of_call [CallSave (SavePrivate hello), CallSave (SavePrivate hello), CallGetLast 1]"

definition busy :: "proxy_label list \<times> (mem_redis_state, mem_sql) proxy_server" where
  "busy = proxy_sched mem_backends [2, 0, 1, 1, 0] (proxy0, busy_threads)"

abbreviation busy_calls :: "proxy_label list" where
  "busy_calls \<equiv> [Called (CallSave (SavePrivate hello)), Called (CallSave (SavePrivate hello)), Called (CallGetLast 1)]"

lemma busy_path: "path (proxy_step mem_backends) (proxy0, [])
    (busy_calls @ fst busy) (fst (snd busy), snd (snd busy))"
proof -
  let ?w = "proxy0"
  have "path (proxy_step mem_backends) (?w, []) busy_calls (?w, busy_threads)"
    using called [of mem_backends ?w "[]" "CallSave (SavePrivate hello)"]
      called [of mem_backends ?w "[thread_of_call (CallSave (SavePrivate hello))]" "CallSave (SavePrivate hello)"]
      called [of mem_backends ?w "map thread_of_call [CallSave (SavePrivate hello), CallSave (SavePrivate hello)]" "CallGetLast 1"]
    by (auto simp: busy_threads_def intro!: path_Cons path_Nil)
  moreover have "path (proxy_step mem_backends) (?w, busy_threads) (fst busy) (snd busy)"
    by (rule proxy_sched_path) (simp only: busy_def prod.collapse)
  ultimately show ?thesis unfolding prod.collapse by (rule path_append)
qed

lemma busy_run: "fst busy = [Progress, Progress,
    Answered_as (SaveResult (SavePrivate hello) (Inl (Failed EINVAL ''Fail to insert into messages.''))),
    Answered_as (LastData 1 (Inr (last_answer (10, 99, 100)))), Answered_as (SaveResult (SavePrivate hello) (Inr ()))]"
  by code_simp

theorem interleaved_saves_store_once_witness:
  "concat (map acknowledged (busy_calls @ fst busy)) = [sender_row hello, receiver_row hello] \<and>
   unique_rows (messages fst (fst (snd busy))) \<and>
   mset [sender_row hello, receiver_row hello] \<subseteq># mset (messages fst (fst (snd busy)))"
proof -
  have none: "messages fst proxy0 = []" by (simp add: tables_of_def mem_proxy_def empty_tables_def)
  have "concat (map acknowledged (busy_calls @ fst busy)) = [sender_row hello, receiver_row hello]"
    by (simp add: busy_run)
  with interleaved_saves_store_once [OF mem_ok(1) _ busy_path] show ?thesis
    unfolding none by (simp only: append_Nil) (simp add: unique_rows_def)
qed

theorem interleaved_lookups_name_stored_rows_witness:
  "\<exists>x \<in> set (messages fst (fst (snd busy))). r_sender x = 1 \<and> r_msg_id x = 10 \<and> r_client_time x = 99"
proof -
  have i: "unique_rows (messages fst proxy0)"
    "\<forall>u. proxy_value mem_backends u (dp_redis proxy0)"
    by (simp_all add: tables_of_def mem_proxy_def empty_tables_def unique_rows_def proxy_value_def)
  have r: "redis_ok (be_redis mem_backends)" by (simp add: mem_redis_ok)
  from interleaved_lookups_name_stored_rows [OF mem_ok(1) r mem_ok(2) i busy_path, of 1 "last_answer (10, 99, 100)"]
  show ?thesis by (auto simp: busy_run last_answer_def)
qed

end
