(* ===== verification/System_Statements.thy ===== *)
theory System_Statements
  imports DbProxy_Threads System_Threads
begin

text \<open>
  The threads of the logic server over the handlers of the proxy, statement by statement. A call to
  the proxy is a handler of its own that other handlers interleave with. The caller can stop
  waiting for it, and then the handler goes on without it; brpc can send a request a second time,
  and then two handlers run for one call.
\<close>

section \<open>Calls and what a thread does with their answers\<close>

text \<open>The request that a thread sends to the proxy next, when what it does next is to send one.\<close>

fun call_of :: "int \<Rightarrow> thread \<Rightarrow> proxy_call option" where
  "call_of now (Checking nm) = Some (CallGetLast (nm_user_id nm))"
| "call_of now (Saving nm q ids) =
     (case nm_msg_type nm of
        PRIVATE \<Rightarrow> (case (msg_ids ids 0, msg_ids ids 1) of
            (Inr sender_ids, Inr receiver_ids) \<Rightarrow> Some (CallSave (SavePrivate
              (new_private_msg nm (to_i32 now) (mi_start_msg_id sender_ids) (mi_start_msg_id receiver_ids))))
          | _ \<Rightarrow> None)
      | GROUP \<Rightarrow> Some (CallSave (SaveGroup (new_group_msg nm (to_i32 now) ids))))"
| "call_of now _ = None"

definition saved_reply :: "NewMsg \<Rightarrow> int \<Rightarrow> MsgIds list \<Rightarrow> unit result \<Rightarrow> MsgReply result" where
  "saved_reply nm msg_time ids r =
     (case nm_msg_type nm of
        PRIVATE \<Rightarrow> (case r of Inl e \<Rightarrow> Inl e
          | Inr _ \<Rightarrow> Inr \<lparr>mr_msg_id = mi_start_msg_id (ids ! 0), mr_last_msg_id = mi_start_msg_id (ids ! 0),
              mr_msg_time = msg_time\<rparr>)
      | GROUP \<Rightarrow> (let msg_id = sender_id_of (nm_user_id nm) ids in
          case r of Inl (Fault f) \<Rightarrow> Inl (Fault f)
          | Inl (Failed _ _) \<Rightarrow> Inl (Failed 0 [])
          | Inr _ \<Rightarrow> if msg_id = 0 then Inl (Fault CheckFailed)
              else Inr \<lparr>mr_msg_id = msg_id, mr_last_msg_id = msg_id, mr_msg_time = msg_time\<rparr>))"

fun resume :: "int \<Rightarrow> thread \<Rightarrow> proxy_answer \<Rightarrow> send_result + thread" where
  "resume now (Checking nm) (LastData u r) =
     (case r of
        Inl e \<Rightarrow> Inl (Inl e)
      | Inr d \<Rightarrow>
          if ul_client_time d = nm_client_time nm
          then Inl (Inr (\<lparr>mr_msg_id = ul_msg_id d, mr_last_msg_id = 0, mr_msg_time = ul_msg_time d\<rparr>, None))
          else Inr (Listing nm))"
| "resume now (Saving nm q ids) (SaveResult req r) =
     (case saved_reply nm (to_i32 now) ids r of
        Inl e \<Rightarrow> Inl (Inl e)
      | Inr reply \<Rightarrow> Inl (Inr (reply, Some \<lparr>pa_id_request = q, pa_id_reply = ids,
            pa_new_msg = nm\<lparr>nm_msg_time := to_i32 now\<rparr>, pa_sender = nm_user_id nm\<rparr>)))"
| "resume now t a = Inr t"

text \<open>Sending the request and resuming with its answer is what the thread does in one step.\<close>

fun make_call :: "'w stubs \<Rightarrow> proxy_call \<Rightarrow> 'w \<Rightarrow> 'w \<times> proxy_answer" where
  "make_call st (CallGetLast u) w = (case st_GetUserLastSendData st u w of (w1, r) \<Rightarrow> (w1, LastData u r))"
| "make_call st (CallSave (SavePrivate m)) w =
     (case st_SavePrivateMsg st m w of (w1, r) \<Rightarrow> (w1, SaveResult (SavePrivate m) r))"
| "make_call st (CallSave (SaveGroup m)) w =
     (case st_SaveGroupMsg st m w of (w1, r) \<Rightarrow> (w1, SaveResult (SaveGroup m) r))"

lemma advance_is_call:
  assumes "call_of now t = Some c"
  shows "advance st now t w = (case make_call st c w of (w1, a) \<Rightarrow> (w1, resume now t a))"
proof (cases t)
  case (Checking nm)
  with assms show ?thesis by (auto split: prod.split sum.split)
next
  case (Saving nm q ids)
  show ?thesis
  proof (cases "nm_msg_type nm")
    case PRIVATE
    obtain sid rid where ids: "msg_ids ids 0 = Inr sid" "msg_ids ids 1 = Inr rid"
      using assms Saving PRIVATE by (auto split: sum.splits)
    then have "ids ! 0 = sid" by (simp add: msg_ids_def split: if_splits)
    with ids Saving PRIVATE assms show ?thesis
      by (auto simp: save_message_of_def save_private_def saved_reply_def and_then_case split: prod.split sum.split)
  next
    case GROUP
    with Saving assms show ?thesis
      by (auto simp: save_message_of_def save_group_def saved_reply_def Let_def split: prod.split sum.split err.split)
  qed
qed (use assms in simp_all)

text \<open>
  With a network that loses nothing the call is the handler of the proxy, run from its first
  statement to its answer.
\<close>

definition proxy_steps :: "proxy_call \<Rightarrow> nat" where
  "proxy_steps c = (case c of CallGetLast u \<Rightarrow> 2 | CallSave req \<Rightarrow> Suc (length (statements req)))"

lemma call_alone:
  assumes "wd_net w = []"
  shows "make_call (deployed be ops N) c w =
    (case run_proxy (proxy_steps c) be (thread_of_call c) (wd_db w) of
       (d, Inl a) \<Rightarrow> (w\<lparr>wd_db := d\<rparr>, a) | (d, Inr p) \<Rightarrow> undefined)"
proof (cases c)
  case (CallGetLast u)
  obtain d r where "GetUserLastSendData be u (wd_db w) = (d, r)" by fastforce
  with CallGetLast assms proxy_thread_alone_is_the_handler [of be u "wd_db w"] show ?thesis
    by (simp add: deployed_def to_db_def on_network_def proxy_steps_def)
next
  case (CallSave req)
  obtain d r where "save_message be (wd_db w) req = (d, r)" by fastforce
  with CallSave assms proxy_thread_alone_is_the_handler [of be _ "wd_db w" req] show ?thesis
    by (cases req) (simp_all add: deployed_def to_db_def on_network_def proxy_steps_def)
qed

section \<open>The steps\<close>

text \<open>A thread runs in the logic server, or waits for a handler of the proxy with its clock read.\<close>

datatype fthread = Here thread | There int thread proxy_thread

type_synonym ('d, 'r, 'q) statement_system = "('d, 'r, 'q) world \<times> fthread list \<times> proxy_thread list"

fun no_answer :: "proxy_call \<Rightarrow> int \<Rightarrow> string \<Rightarrow> proxy_answer" where
  "no_answer (CallGetLast u) code txt = LastData u (Inl (Failed code txt))"
| "no_answer (CallSave req) code txt = SaveResult req (Inl (Failed code txt))"

text \<open>
  \<open>gives_up\<close> is a call that times out or whose connection breaks, its handler left behind (a
  request that is never received has a handler that never moves); \<open>again\<close> and \<open>again_new\<close> are brpc
  sending the request a second time, with the answer of the old or of the new handler to come;
  \<open>stray\<close> is a request for ids that the generator gets once more. The steps that are not calls to
  the proxy go through the stubs, with the fates of their calls in \<open>wd_net\<close>.
\<close>

inductive statement_step ::
  "('r, 'q) backends \<Rightarrow> 'd leveldb \<Rightarrow> int \<Rightarrow> ('d, 'r, 'q) statement_system \<Rightarrow> send_label \<Rightarrow>
   ('d, 'r, 'q) statement_system \<Rightarrow> bool" for be ops N where
  arrives: "statement_step be ops N (w, ts, ps) (Arrive nm) (w, ts @ [Here (Checking nm)], ps)"
| goes_on: "call_of now t = None \<Longrightarrow> advance (deployed be ops N) now t w = (w', Inr t') \<Longrightarrow>
    statement_step be ops N (w, ts1 @ Here t # ts2, ps) Steps (w', ts1 @ Here t' # ts2, ps)"
| ends: "call_of now t = None \<Longrightarrow> advance (deployed be ops N) now t w = (w', Inl r) \<Longrightarrow>
    statement_step be ops N (w, ts1 @ Here t # ts2, ps) (Answers (thread_msg t) r) (w', ts1 @ ts2, ps)"
| calls: "call_of now t = Some c \<Longrightarrow>
    statement_step be ops N (w, ts1 @ Here t # ts2, ps) Steps (w, ts1 @ There now t (thread_of_call c) # ts2, ps)"
| works: "advance_proxy be p (wd_db w) = (d, Inr p') \<Longrightarrow>
    statement_step be ops N (w, ts1 @ There now t p # ts2, ps) Steps (w\<lparr>wd_db := d\<rparr>, ts1 @ There now t p' # ts2, ps)"
| returns: "advance_proxy be p (wd_db w) = (d, Inl a) \<Longrightarrow> resume now t a = Inr t' \<Longrightarrow>
    statement_step be ops N (w, ts1 @ There now t p # ts2, ps) Steps (w\<lparr>wd_db := d\<rparr>, ts1 @ Here t' # ts2, ps)"
| replies: "advance_proxy be p (wd_db w) = (d, Inl a) \<Longrightarrow> resume now t a = Inl r \<Longrightarrow>
    statement_step be ops N (w, ts1 @ There now t p # ts2, ps) (Answers (thread_msg t) r) (w\<lparr>wd_db := d\<rparr>, ts1 @ ts2, ps)"
| gives_up: "call_of now t = Some c \<Longrightarrow> resume now t (no_answer c code txt) = Inl r \<Longrightarrow>
    statement_step be ops N (w, ts1 @ There now t p # ts2, ps) (Answers (thread_msg t) r) (w, ts1 @ ts2, ps @ [p])"
| again: "call_of now t = Some c \<Longrightarrow>
    statement_step be ops N (w, ts1 @ There now t p # ts2, ps) Steps (w, ts1 @ There now t p # ts2, ps @ [thread_of_call c])"
| again_new: "call_of now t = Some c \<Longrightarrow>
    statement_step be ops N (w, ts1 @ There now t p # ts2, ps) Steps (w, ts1 @ There now t (thread_of_call c) # ts2, ps @ [p])"
| stray: "Here (Numbering nm q) \<in> set ts \<Longrightarrow> IdGenService ops N (wd_idgen w) q = (g, res) \<Longrightarrow>
    statement_step be ops N (w, ts, ps) Steps (w\<lparr>wd_idgen := g\<rparr>, ts, ps)"
| left_works: "advance_proxy be p (wd_db w) = (d, Inr p') \<Longrightarrow>
    statement_step be ops N (w, ts, ps1 @ p # ps2) Steps (w\<lparr>wd_db := d\<rparr>, ts, ps1 @ p' # ps2)"
| left_ends: "advance_proxy be p (wd_db w) = (d, Inl a) \<Longrightarrow>
    statement_step be ops N (w, ts, ps1 @ p # ps2) Steps (w\<lparr>wd_db := d\<rparr>, ts, ps1 @ ps2)"

section \<open>The rows that may come into the table\<close>

fun call_rows :: "proxy_call \<Rightarrow> msg_row list" where
  "call_rows (CallGetLast u) = []"
| "call_rows (CallSave req) = request_rows req"

lemma thread_of_call_rows [simp]:
  "asked_rows (thread_of_call c) = call_rows c" "made (thread_of_call c) = []" "under_way (thread_of_call c)"
  using made_saving [of _ "[]"] by (cases c; auto)+

lemma call_rows_held:
  assumes "call_of now t = Some c" "thread_ok t"
  shows "map row_id (call_rows c) = held t"
    and "t = Saving nm q ids \<Longrightarrow> sender_key nm \<in> unique_key ` set (call_rows c)"
proof -
  have "map row_id (call_rows c) = held t \<and> (\<forall>nm q ids. t = Saving nm q ids \<longrightarrow> sender_key nm \<in> unique_key ` set (call_rows c))"
  proof (cases t)
    case (Saving nm q ids)
    with assms(2) obtain sid rest where ids: "ids = sid # rest" "mi_user_id sid = nm_user_id nm"
      and priv: "nm_msg_type nm = PRIVATE \<longrightarrow> (\<exists>rid. rest = [rid] \<and> mi_user_id rid = nm_peer_id nm)"
      using ids_of_request [of nm q ids] by auto
    show ?thesis
    proof (cases "nm_msg_type nm")
      case PRIVATE
      with priv obtain rid where rid: "rest = [rid]" "mi_user_id rid = nm_peer_id nm" by blast
      then have c: "c = CallSave (SavePrivate (new_private_msg nm (to_i32 now) (mi_start_msg_id sid) (mi_start_msg_id rid)))"
        using assms(1) Saving PRIVATE ids by (simp add: msg_ids_def)
      show ?thesis unfolding c using ids rid Saving
        by (simp add: sender_row_def receiver_row_def new_private_msg_def unique_key_def)
    next
      case GROUP
      then have c: "c = CallSave (SaveGroup (new_group_msg nm (to_i32 now) ids))" using assms(1) Saving by simp
      show ?thesis unfolding c using ids Saving
        by (simp add: new_group_msg_def group_row_def unique_key_def comp_def)
    qed
  qed (use assms in auto)
  then show "map row_id (call_rows c) = held t"
    and "t = Saving nm q ids \<Longrightarrow> sender_key nm \<in> unique_key ` set (call_rows c)" by blast+
qed

fun proxy_of :: "fthread \<Rightarrow> proxy_thread list" where
  "proxy_of (Here t) = []"
| "proxy_of (There now t p) = [p]"

fun in_hand :: "fthread \<Rightarrow> (int \<times> int) list" where
  "in_hand (Here t) = held t"
| "in_hand (There now t p) = []"

fun serves :: "proxy_call \<Rightarrow> proxy_thread \<Rightarrow> bool" where
  "serves (CallGetLast u) (GettingLast v) \<longleftrightarrow> u = v"
| "serves (CallGetLast u) (SelectingLast v) \<longleftrightarrow> u = v"
| "serves (CallSave req) (Inserting req' ss) \<longleftrightarrow> req = req'"
| "serves (CallSave req) (SettingLast req') \<longleftrightarrow> req = req'"
| "serves _ _ \<longleftrightarrow> False"

lemma serves_rows: "serves c p \<Longrightarrow> asked_rows p = call_rows c"
  by (cases "(c, p)" rule: serves.cases) auto

lemma serves_call [simp]: "serves c (thread_of_call c)"
  by (cases c) (auto simp: saving_def)

definition answer_to :: "proxy_call \<Rightarrow> proxy_answer \<Rightarrow> bool" where
  "answer_to c a \<longleftrightarrow> (case c of CallGetLast u \<Rightarrow> \<exists>r. a = LastData u r | CallSave req \<Rightarrow> \<exists>r. a = SaveResult req r)"

lemma advance_serves:
  assumes "serves c p" "advance_proxy be p w = (w', out)"
  shows "case out of Inl a \<Rightarrow> answer_to c a | Inr p' \<Rightarrow> serves c p'"
  using assms by (cases "(be, p, w)" rule: advance_proxy.cases; cases c)
    (auto simp: answer_to_def saving_def Let_def split: prod.splits sum.splits redis_reply.splits option.splits)

lemma no_answer_to [simp]: "answer_to c (no_answer c code txt)"
  by (cases c) (simp_all add: answer_to_def)

fun fthread_ok :: "fthread \<Rightarrow> bool" where
  "fthread_ok (Here t) \<longleftrightarrow> thread_ok t"
| "fthread_ok (There now t p) \<longleftrightarrow> thread_ok t \<and> (\<exists>c. call_of now t = Some c \<and> serves c p)"

text \<open>The handlers at work, whether somebody waits for them or not, and the rows they are about.\<close>

abbreviation handlers :: "fthread list \<Rightarrow> proxy_thread list \<Rightarrow> proxy_thread list" where
  "handlers ts ps \<equiv> concat (map proxy_of ts) @ ps"

definition potential_rows ::
  "('q \<Rightarrow> tables) \<Rightarrow> ('d, 'r, 'q) world \<Rightarrow> proxy_thread list \<Rightarrow> msg_row set" where
  "potential_rows view w ps = set (wd_messages view w) \<union> (\<Union>p \<in> set ps. set (asked_rows p))"

text \<open>
  The ids in the hands of threads are different from each other and from those of the rows that
  are in the table or may come into it, no two of these rows have the same, and the generator is
  past all of them.
\<close>

definition ids_apart :: "(int \<Rightarrow> int) \<Rightarrow> (int \<times> int) list \<Rightarrow> msg_row set \<Rightarrow> bool" where
  "ids_apart lid H R \<longleftrightarrow> distinct H \<and> inj_on row_id R \<and> set H \<inter> row_id ` R = {} \<and>
     (\<forall>(u, i) \<in> set H \<union> row_id ` R. i \<le> lid u)"

lemma ids_apart_mono:
  assumes "ids_apart lid H R" "distinct H'" "set H' \<subseteq> set H" "R' \<subseteq> R" "\<And>u. lid u \<le> lid' u"
  shows "ids_apart lid' H' R'"
proof -
  have "i \<le> lid' u" if "(u, i) \<in> set H' \<union> row_id ` R'" for u i
  proof -
    have "(u, i) \<in> set H \<union> row_id ` R" using that assms(3,4) by blast
    with assms(1) have "i \<le> lid u" unfolding ids_apart_def by blast
    with assms(5) [of u] show ?thesis by simp
  qed
  moreover have "set H' \<inter> row_id ` R' = {}" using assms(1,3,4) unfolding ids_apart_def by blast
  moreover have "inj_on row_id R'" using assms(1,4) unfolding ids_apart_def by (blast intro: inj_on_subset)
  ultimately show ?thesis using assms(2) unfolding ids_apart_def by blast
qed

lemma ids_apart_fresh:
  assumes "ids_apart lid (A @ B) R" "\<And>u. lid u \<le> lid' u" "distinct new"
    and "\<forall>(u, i) \<in> set new. lid u < i \<and> i \<le> lid' u"
  shows "ids_apart lid' (A @ new @ B) R"
proof -
  have old: "i \<le> lid u" if "(u, i) \<in> set (A @ B) \<union> row_id ` R" for u i
    using assms(1) that unfolding ids_apart_def by blast
  have "x \<notin> set (A @ B) \<union> row_id ` R" if "x \<in> set new" for x
  proof
    assume "x \<in> set (A @ B) \<union> row_id ` R"
    with old [of "fst x" "snd x"] assms(4) that show False by fastforce
  qed
  moreover have "i \<le> lid' u" if "(u, i) \<in> set (A @ new @ B) \<union> row_id ` R" for u i
  proof (cases "(u, i) \<in> set new")
    case True with assms(4) show ?thesis by auto
  next
    case False
    with that have "i \<le> lid u" by (intro old) auto
    with assms(2) [of u] show ?thesis by simp
  qed
  ultimately show ?thesis using assms(1,3) unfolding ids_apart_def by auto
qed

text \<open>Ids in hand become those of rows on their way.\<close>

lemma ids_apart_rows:
  assumes "ids_apart lid (A @ map row_id rows @ B) R"
  shows "ids_apart lid (A @ B) (R \<union> set rows)"
proof -
  have "inj_on row_id (set rows)" using assms by (simp add: ids_apart_def distinct_map)
  with assms have "inj_on row_id (R \<union> set rows)"
    unfolding ids_apart_def inj_on_Un by (auto simp del: distinct_append)
  with assms show ?thesis unfolding ids_apart_def by auto
qed

section \<open>What every step keeps\<close>

definition statement_ok ::
  "('q \<Rightarrow> tables) \<Rightarrow> 'd leveldb \<Rightarrow> int \<Rightarrow> ('d \<Rightarrow> string \<Rightarrow> string option) \<Rightarrow> ('d, 'r, 'q) statement_system \<Rightarrow> bool" where
  "statement_ok view ops N contents x \<longleftrightarrow> (case x of (w, ts, ps) \<Rightarrow>
     generator_ok ops N contents w \<and> unique_rows (wd_messages view w) \<and>
     list_all fthread_ok ts \<and> list_all under_way (handlers ts ps) \<and>
     ids_apart (next_id contents w) (concat (map in_hand ts)) (potential_rows view w (handlers ts ps)))"

lemma potential_rows_same:
  assumes "wd_messages view w' = wd_messages view w" "\<Union> (set ` asked_rows ` set ps') \<subseteq> \<Union> (set ` asked_rows ` set ps)"
  shows "potential_rows view w' ps' \<subseteq> potential_rows view w ps"
  using assms by (auto simp: potential_rows_def)

lemma handler_moves:
  assumes my: "mysql_ok (be_mysql be) view" and u: "under_way p" and a: "advance_proxy be p (wd_db w) = (d, out)"
    and out: "set ps' \<subseteq> set ps \<union> (case out of Inl ans \<Rightarrow> {} | Inr p' \<Rightarrow> {p'})" "p \<in> set ps"
  shows "potential_rows view (w\<lparr>wd_db := d\<rparr>) ps' \<subseteq> potential_rows view w ps"
    and "unique_rows (wd_messages view w) \<Longrightarrow> unique_rows (wd_messages view (w\<lparr>wd_db := d\<rparr>))"
    and "out = Inr p' \<Longrightarrow> under_way p' \<and> asked_rows p' = asked_rows p"
proof -
  have m: "insert_ok (be_mysql be) view" "select_ok (be_mysql be) view" using my by (simp_all add: mysql_ok_def)
  from advance_owns [OF m u a] obtain new where
    new: "messages view d = wd_messages view w @ new" "set new \<subseteq> set (asked_rows p)"
      "unique_rows (wd_messages view w) \<longrightarrow> unique_rows (messages view d)"
      "\<forall>t'. out = Inr t' \<longrightarrow> under_way t' \<and> asked_rows t' = asked_rows p" by blast
  show "unique_rows (wd_messages view w) \<Longrightarrow> unique_rows (wd_messages view (w\<lparr>wd_db := d\<rparr>))" using new(3) by simp
  show "out = Inr p' \<Longrightarrow> under_way p' \<and> asked_rows p' = asked_rows p" using new(4) by simp
  have "set (asked_rows p1) \<subseteq> potential_rows view w ps" if "p1 \<in> set ps'" for p1
  proof (cases "p1 \<in> set ps")
    case True then show ?thesis by (auto simp: potential_rows_def)
  next
    case False
    with that out(1) have "out = Inr p1" by (auto split: sum.splits)
    with new(4) out(2) show ?thesis by (auto simp: potential_rows_def)
  qed
  with new(1,2) out(2) show "potential_rows view (w\<lparr>wd_db := d\<rparr>) ps' \<subseteq> potential_rows view w ps"
    by (auto simp: potential_rows_def)
qed

text \<open>What a thread does with the answer to its call: it goes on to the list of receivers, or answers.\<close>

lemma resume_Inr:
  assumes "call_of now t = Some c" "answer_to c a" "resume now t a = Inr t'"
  shows "t' = Listing (thread_msg t)"
  using assms by (cases t; cases a) (auto simp: answer_to_def split: sum.splits if_splits MsgType.splits)

lemma resume_accepted:
  assumes "call_of now t = Some c" "answer_to c a" "resume now t a = Inl r" "is_accepted r"
  shows "acknowledged (Answered_as a) = call_rows c \<and> (\<exists>nm q ids. t = Saving nm q ids)"
  using assms
  by (cases t; cases a) (auto simp: answer_to_def is_accepted_def saved_reply_def Let_def
      split: sum.splits if_splits MsgType.splits err.splits)

lemma statement_ok_keeps:
  assumes "statement_ok view ops N contents (w, ts, ps)"
    and "generator_ok ops N contents w'" "unique_rows (wd_messages view w')"
    and "list_all fthread_ok ts'" "list_all under_way (handlers ts' ps')"
    and "distinct (concat (map in_hand ts'))" "set (concat (map in_hand ts')) \<subseteq> set (concat (map in_hand ts))"
    and "potential_rows view w' (handlers ts' ps') \<subseteq> potential_rows view w (handlers ts ps)"
    and "\<And>u. next_id contents w u \<le> next_id contents w' u"
  shows "statement_ok view ops N contents (w', ts', ps')"
proof -
  have "ids_apart (next_id contents w) (concat (map in_hand ts)) (potential_rows view w (handlers ts ps))"
    using assms(1) by (simp add: statement_ok_def)
  from ids_apart_mono [OF this assms(6-9)] assms(2-5) show ?thesis by (simp add: statement_ok_def)
qed

lemma statement_ok_in_hand: "statement_ok view ops N contents (w, ts, ps) \<Longrightarrow> distinct (concat (map in_hand ts))"
  by (simp add: statement_ok_def ids_apart_def)

text \<open>A step of the proxy, for a thread that waits or for nobody.\<close>

lemma statement_ok_handler:
  assumes my: "mysql_ok (be_mysql be) view" and ok: "statement_ok view ops N contents (w, ts, ps)"
    and p: "p \<in> set (handlers ts ps)" and a: "advance_proxy be p (wd_db w) = (d, out)"
    and ts': "list_all fthread_ok ts'" "distinct (concat (map in_hand ts'))"
      "set (concat (map in_hand ts')) \<subseteq> set (concat (map in_hand ts))"
    and out: "set (handlers ts' ps') \<subseteq> set (handlers ts ps) \<union> (case out of Inl ans \<Rightarrow> {} | Inr p' \<Rightarrow> {p'})"
  shows "statement_ok view ops N contents (w\<lparr>wd_db := d\<rparr>, ts', ps')"
proof (rule statement_ok_keeps [OF ok])
  have u: "under_way p" "list_all under_way (handlers ts ps)" "unique_rows (wd_messages view w)"
    using ok p by (auto simp: statement_ok_def list_all_iff)
  note moves = handler_moves [OF my u(1) a out p]
  show "generator_ok ops N contents (w\<lparr>wd_db := d\<rparr>)" using ok by (simp add: statement_ok_def generator_ok_def)
  show "unique_rows (wd_messages view (w\<lparr>wd_db := d\<rparr>))" by (rule moves(2) [OF u(3)])
  show "potential_rows view (w\<lparr>wd_db := d\<rparr>) (handlers ts' ps') \<subseteq> potential_rows view w (handlers ts ps)" by (rule moves(1))
  have "under_way p1" if "p1 \<in> set (handlers ts' ps')" for p1
  proof (cases "p1 \<in> set (handlers ts ps)")
    case True with u(2) show ?thesis by (simp only: list_all_iff)
  next
    case False
    with that out have "out = Inr p1" by (auto split: sum.splits)
    with moves(3) show ?thesis by blast
  qed
  then show "list_all under_way (handlers ts' ps')" by (simp only: list_all_iff) blast
qed (use ts' in simp_all)

lemma no_call_held: "call_of now t = None \<Longrightarrow> thread_ok t \<Longrightarrow> held t = []"
proof (cases t)
  case (Saving nm q ids)
  assume "call_of now t = None" "thread_ok t"
  with Saving obtain sid rest where ids: "ids = sid # rest" "mi_user_id sid = nm_user_id nm"
    and priv: "nm_msg_type nm = PRIVATE \<longrightarrow> (\<exists>rid. rest = [rid] \<and> mi_user_id rid = nm_peer_id nm)"
    using ids_of_request [of nm q ids] by auto
  with \<open>call_of now t = None\<close> Saving show ?thesis by (cases "nm_msg_type nm") (auto simp: msg_ids_def)
qed simp_all

lemma local_end:
  assumes my: "mysql_ok (be_mysql be) view" and g: "generator_ok ops N contents w"
    and t: "call_of now t = None" "thread_ok t" and a: "advance (deployed be ops N) now t w = (w', Inl r)"
  shows "generator_ok ops N contents w' \<and> (\<forall>u. next_id contents w u \<le> next_id contents w' u) \<and>
    wd_messages view w' = wd_messages view w \<and> \<not> is_accepted r"
proof -
  have "mysql_ok (be_mysql be) view \<and> generator_ok ops N contents w" using my g by simp
  from threads.advance_answers [where view = view and be = be and contents = contents and ops = ops and N = N, OF this t(2) a]
    no_call_held [OF t]
  show ?thesis by (auto simp: threads.answer_keeps_def)
qed

lemma statement_step_ok:
  assumes my: "mysql_ok (be_mysql be) view" and step: "statement_step be ops N x l y"
    and ok: "statement_ok view ops N contents x"
  shows "statement_ok view ops N contents y"
  using step
proof (cases rule: statement_step.cases)
  case (arrives w ts ps nm)
  note ok' = ok [unfolded arrives]
  show ?thesis unfolding arrives
    by (rule statement_ok_keeps [OF ok']) (use ok' in \<open>auto simp: statement_ok_def ids_apart_def\<close>)
next
  case (goes_on now t w w' t' ts1 ts2 ps)
  note ok' = ok [unfolded goes_on]
  then have good: "mysql_ok (be_mysql be) view \<and> generator_ok ops N contents w" and t: "thread_ok t"
    using my by (simp_all add: statement_ok_def)
  note M = threads.advance_moves [where view = view and be = be and contents = contents and ops = ops and N = N,
      OF good t goes_on(5)]
  have "ids_apart (next_id contents w') (concat (map in_hand ts1) @ held t' @ concat (map in_hand ts2))
      (potential_rows view w (handlers (ts1 @ Here t # ts2) ps))"
    by (rule ids_apart_fresh [OF _ M(3,6,7)]) (use ok' M(5) in \<open>simp add: statement_ok_def\<close>)
  then have "ids_apart (next_id contents w') (concat (map in_hand ts1) @ held t' @ concat (map in_hand ts2))
      (potential_rows view w' (handlers (ts1 @ Here t' # ts2) ps))"
    using M(2) by (simp add: potential_rows_def)
  then show ?thesis unfolding goes_on using ok' M(1,2,4) by (simp add: statement_ok_def)
next
  case (ends now t w w' r ts1 ts2 ps)
  note ok' = ok [unfolded ends]
  then have g: "generator_ok ops N contents w" and t: "thread_ok t" by (simp_all add: statement_ok_def)
  note E = local_end [OF my g ends(4) t ends(5)]
  show ?thesis unfolding ends
    by (rule statement_ok_keeps [OF ok'])
      (use ok' E statement_ok_in_hand [OF ok'] in \<open>auto simp: statement_ok_def potential_rows_def\<close>)
next
  case (calls now t c w ts1 ts2 ps)
  note ok' = ok [unfolded calls]
  then have t: "thread_ok t" by (simp add: statement_ok_def)
  have "ids_apart (next_id contents w) (concat (map in_hand ts1) @ concat (map in_hand ts2))
      (potential_rows view w (handlers (ts1 @ Here t # ts2) ps) \<union> set (call_rows c))"
    by (rule ids_apart_rows) (use ok' call_rows_held(1) [OF calls(4) t] in \<open>simp add: statement_ok_def\<close>)
  moreover have "potential_rows view w (handlers (ts1 @ There now t (thread_of_call c) # ts2) ps) =
      potential_rows view w (handlers (ts1 @ Here t # ts2) ps) \<union> set (call_rows c)"
    by (auto simp: potential_rows_def)
  ultimately show ?thesis unfolding calls using ok' calls(4) t serves_call [of c]
    by (auto simp: statement_ok_def)
next
  case (works p w d p' ts1 now t ts2 ps)
  note ok' = ok [unfolded works]
  then obtain c where t: "thread_ok t" "call_of now t = Some c" "serves c p" by (auto simp: statement_ok_def)
  have "serves c p'" using advance_serves [OF t(3) works(4)] by simp
  with t have "fthread_ok (There now t p')" by auto
  then show ?thesis unfolding works
    by (intro statement_ok_handler [OF my ok' _ works(4)])
      (use ok' statement_ok_in_hand [OF ok'] in \<open>auto simp: statement_ok_def\<close>)
next
  case (returns p w d a now t t' ts1 ts2 ps)
  note ok' = ok [unfolded returns]
  then obtain c where t: "thread_ok t" "call_of now t = Some c" "serves c p" by (auto simp: statement_ok_def)
  have "answer_to c a" using advance_serves [OF t(3) returns(4)] by simp
  from resume_Inr [OF t(2) this returns(5)] have t': "t' = Listing (thread_msg t)" .
  show ?thesis unfolding returns t'
    by (intro statement_ok_handler [OF my ok' _ returns(4)])
      (use ok' statement_ok_in_hand [OF ok'] in \<open>auto simp: statement_ok_def\<close>)
next
  case (replies p w d a now t r ts1 ts2 ps)
  note ok' = ok [unfolded replies]
  show ?thesis unfolding replies
    by (intro statement_ok_handler [OF my ok' _ replies(4)])
      (use ok' statement_ok_in_hand [OF ok'] in \<open>auto simp: statement_ok_def\<close>)
next
  case (gives_up now t c code what r w ts1 p ts2 ps)
  note ok' = ok [unfolded gives_up]
  show ?thesis unfolding gives_up
    by (rule statement_ok_keeps [OF ok'])
      (use ok' statement_ok_in_hand [OF ok'] in \<open>auto simp: statement_ok_def potential_rows_def\<close>)
next
  case (again now t c w ts1 p ts2 ps)
  note ok' = ok [unfolded again]
  then obtain c' where "call_of now t = Some c'" "serves c' p" by (auto simp: statement_ok_def)
  with again(4) have "asked_rows p = call_rows c" by (simp add: serves_rows)
  then show ?thesis unfolding again
    by (intro statement_ok_keeps [OF ok'])
      (use ok' statement_ok_in_hand [OF ok'] in \<open>auto simp: statement_ok_def potential_rows_def\<close>)
next
  case (again_new now t c w ts1 p ts2 ps)
  note ok' = ok [unfolded again_new]
  then obtain c' where "thread_ok t" "call_of now t = Some c'" "serves c' p" by (auto simp: statement_ok_def)
  with again_new(4) have "asked_rows p = call_rows c" "fthread_ok (There now t (thread_of_call c))"
    by (simp_all add: serves_rows)
  then show ?thesis unfolding again_new
    by (intro statement_ok_keeps [OF ok'])
      (use ok' statement_ok_in_hand [OF ok'] in \<open>auto simp: statement_ok_def potential_rows_def\<close>)
next
  case (stray nm q ts w g res ps)
  note ok' = ok [unfolded stray]
  have "fthread_ok (Here (Numbering nm q))" using ok' stray(4) unfolding statement_ok_def list_all_iff by blast
  then have one: "\<forall>x \<in> set q. 1 \<le> un_need_msgid_num x" using request_for_one [of nm q] by simp
  have i: "idgen_inv ops contents (wd_idgen w)" "1 \<le> N" using ok' by (simp_all add: statement_ok_def generator_ok_def)
  from service_fresh [OF i one stray(5)]
  have "generator_ok ops N contents (w\<lparr>wd_idgen := g\<rparr>)" "\<And>u. next_id contents w u \<le> next_id contents (w\<lparr>wd_idgen := g\<rparr>) u"
    using i(2) by (auto simp: generator_ok_def)
  then show ?thesis unfolding stray
    by (intro statement_ok_keeps [OF ok'])
      (use ok' statement_ok_in_hand [OF ok'] in \<open>auto simp: statement_ok_def potential_rows_def\<close>)
next
  case (left_works p w d p' ts ps1 ps2)
  note ok' = ok [unfolded left_works]
  show ?thesis unfolding left_works
    by (intro statement_ok_handler [OF my ok' _ left_works(4)])
      (use ok' statement_ok_in_hand [OF ok'] in \<open>auto simp: statement_ok_def\<close>)
next
  case (left_ends p w d a ts ps1 ps2)
  note ok' = ok [unfolded left_ends]
  show ?thesis unfolding left_ends
    by (intro statement_ok_handler [OF my ok' _ left_ends(4)])
      (use ok' statement_ok_in_hand [OF ok'] in \<open>auto simp: statement_ok_def\<close>)
qed

section \<open>Whose rows are in the table\<close>

definition owns :: "('q \<Rightarrow> tables) \<Rightarrow> msg_row list \<Rightarrow> ('d, 'r, 'q) world \<Rightarrow> proxy_thread list \<Rightarrow> bool" where
  "owns view rows w ps \<longleftrightarrow> mset rows + mset (concat (map made ps)) \<subseteq># mset (wd_messages view w)"

lemma owns_cong:
  "owns view rows w ps \<Longrightarrow> wd_messages view w' = wd_messages view w \<Longrightarrow>
   mset (concat (map made ps')) = mset (concat (map made ps)) \<Longrightarrow> owns view rows w' ps'"
  by (simp add: owns_def)

lemma owns_moves:
  assumes my: "mysql_ok (be_mysql be) view" and u: "under_way p" and a: "advance_proxy be p (wd_db w) = (d, out)"
    and o: "owns view rows w (A @ p # B)"
  shows "out = Inr p' \<Longrightarrow> owns view rows (w\<lparr>wd_db := d\<rparr>) (A @ p' # B)"
    and "out = Inl ans \<Longrightarrow> owns view (rows @ acknowledged (Answered_as ans)) (w\<lparr>wd_db := d\<rparr>) (A @ B)"
proof -
  have m: "insert_ok (be_mysql be) view" "select_ok (be_mysql be) view" using my by (simp_all add: mysql_ok_def)
  from advance_owns [OF m u a] obtain new where new: "messages view d = wd_messages view w @ new"
    "\<forall>t'. out = Inr t' \<longrightarrow> mset (made t') \<subseteq># mset (made p) + mset new"
    "\<forall>ans. out = Inl ans \<longrightarrow> mset (acknowledged (Answered_as ans)) \<subseteq># mset (made p) + mset new" by blast
  have o': "mset rows + (mset (concat (map made A)) + (mset (made p) + mset (concat (map made B)))) \<subseteq># mset (wd_messages view w)"
    using o by (simp add: owns_def)
  show "owns view rows (w\<lparr>wd_db := d\<rparr>) (A @ p' # B)" if "out = Inr p'"
    using owner_change [OF o', of "{#}" "mset (made p')" "mset new"] new(1,2) that by (simp add: owns_def)
  show "owns view (rows @ acknowledged (Answered_as ans)) (w\<lparr>wd_db := d\<rparr>) (A @ B)" if "out = Inl ans"
    using owner_change [OF o', of "mset (acknowledged (Answered_as ans))" "{#}" "mset new"] new(1,3) that
    by (simp add: owns_def)
qed

lemma resume_no_answer: "call_of now t = Some c \<Longrightarrow> resume now t (no_answer c code what) = Inl r \<Longrightarrow> \<not> is_accepted r"
  by (cases t) (auto simp: is_accepted_def saved_reply_def Let_def split: MsgType.splits sum.splits)

section \<open>Whom the requests are for\<close>

text \<open>Every thread has asked for the ids of all receivers of its message.\<close>

fun at_work :: "fthread \<Rightarrow> thread" where
  "at_work (Here t) = t"
| "at_work (There now t p) = t"

lemma sql_exec_any_members:
  assumes "mysql_ok (be_mysql be) view" "sql_exec be p rows w = (w', e)"
  shows "group_table view w' = group_table view w"
proof (cases p)
  case db_message_connect_pool
  with assms sql_exec_members [of be view rows w w' e] show ?thesis by (simp add: mysql_ok_def)
next
  case db_group_members_connect_pool
  with assms(2) show ?thesis by (auto simp: sql_exec_def set_sql_def tables_of_def split: prod.splits)
qed

lemma advance_proxy_members:
  assumes my: "mysql_ok (be_mysql be) view" and a: "advance_proxy be p w = (w', out)"
  shows "group_table view w' = group_table view w"
proof (cases "(be, p, w)" rule: advance_proxy.cases)
  case (1 be' u w0)
  then obtain w1 c where c: "redis_CallMethod be (cmd_get (be_redis be) (last_send_key u)) w = (w1, c)" by fastforce
  with 1 a have "w' = w1" by (auto split: sum.splits redis_reply.splits)
  with redis_CallMethod_tables [OF c] show ?thesis by simp
next
  case (2 be' u w0)
  have q: "\<forall>q P q' r. sql_messages (be_mysql be) q P = (q', r) \<longrightarrow> view q' = view q"
    using my unfolding mysql_ok_def select_ok_def by blast
  obtain q r where s: "sql_messages (be_mysql be) (dp_sql w db_message_connect_pool) (last_sent_where u) = (q, r)" by fastforce
  with q have "view q = tables_of view w" unfolding tables_of_def by blast
  moreover have "w' = set_sql db_message_connect_pool q w" using 2 a s by (auto simp: Let_def split: sum.splits)
  ultimately show ?thesis by simp
next
  case (4 be' req p' rows ss w0)
  then obtain w1 e where e: "sql_exec be p' rows w = (w1, e)" by fastforce
  with 4 a have "w' = w1" by (auto split: option.splits)
  with sql_exec_any_members [OF my e] show ?thesis by simp
next
  case (5 be' req w0)
  then obtain w1 r where e: "SetUserLastSendData_impl be (last_of req) w = (w1, r)" by fastforce
  with 5 a have "w' = w1" by simp
  with set_last_tables [OF e] show ?thesis by simp
qed (use a in simp)

definition asks_for_all :: "('q \<Rightarrow> tables) \<Rightarrow> (group_id_t \<Rightarrow> user_id_t set) \<Rightarrow> ('d, 'r, 'q) statement_system \<Rightarrow> bool" where
  "asks_for_all view G x \<longleftrightarrow> (case x of (w, ts, ps) \<Rightarrow>
     wd_members view w = G \<and> list_all (for_all G) (map at_work ts))"

lemma proxy_move_members:
  "mysql_ok (be_mysql be) view \<Longrightarrow> advance_proxy be p (wd_db w) = (d, out) \<Longrightarrow>
   wd_members view (w\<lparr>wd_db := d\<rparr>) = wd_members view w"
  using advance_proxy_members [of be view p "wd_db w" d out] by (simp add: wd_members_def fun_eq_iff)

lemma resume_for_all: "for_all G t \<Longrightarrow> resume now t a = Inr t' \<Longrightarrow> for_all G t'"
  by (induction now t a rule: resume.induct) (auto split: sum.splits if_splits)

lemma statement_step_asks:
  assumes my: "mysql_ok (be_mysql be) view" and step: "statement_step be ops N x l y" and x: "asks_for_all view G x"
  shows "asks_for_all view G y"
  using step
proof (cases rule: statement_step.cases)
  case (goes_on now t w w' t' ts1 ts2 ps)
  with x have t: "for_all (wd_members view w) t" "G = wd_members view w" by (simp_all add: asks_for_all_def)
  have "for_all G t'"
    using deployed.advance_for_all [where view = view and w = w, OF my _ goes_on(5)] t by simp
  with x goes_on advance_members [OF my goes_on(5)] show ?thesis by (simp add: asks_for_all_def)
next
  case (ends now t w w' r ts1 ts2 ps)
  with x advance_members [OF my ends(5)] show ?thesis by (simp add: asks_for_all_def)
next
  case (returns p w d a now t t' ts1 ts2 ps)
  with x resume_for_all [of G t now a t'] proxy_move_members [OF my returns(4)] show ?thesis by (simp add: asks_for_all_def)
next
  case (stray nm q ts w g res ps)
  with x show ?thesis by (simp add: asks_for_all_def wd_members_def fun_eq_iff)
qed (use x proxy_move_members [OF my] in \<open>auto simp: asks_for_all_def\<close>)

text \<open>
  What an answer promises: a row of the message for each of its receivers, under the id that the
  generator gave, the sender's under the id of the answer.
\<close>

definition saved_for ::
  "(group_id_t \<Rightarrow> user_id_t set) \<Rightarrow> NewMsg \<times> MsgReply \<times> SendtoPeersArgs \<Rightarrow> msg_row list \<Rightarrow> bool" where
  "saved_for G x rs \<longleftrightarrow> (case x of (nm, reply, args) \<Rightarrow>
     (\<exists>t. row_made nm t ` set (pa_id_reply args) \<subseteq> set rs) \<and>
     mi_user_id ` set (pa_id_reply args) = receivers G nm \<and>
     (nm_user_id nm, mr_msg_id reply) \<in> set (ids_in (pa_id_reply args)))"

definition post_of :: "send_label \<Rightarrow> (NewMsg \<times> MsgReply \<times> SendtoPeersArgs) option" where
  "post_of l = (case l of Answers nm (Inr (reply, Some args)) \<Rightarrow> Some (nm, reply, args) | _ \<Rightarrow> None)"

lemma accepted_key_post: "accepted_key l = map_option (\<lambda>(nm, x). sender_key nm) (post_of l)"
  by (auto simp: accepted_key_def post_of_def is_accepted_def split: send_label.split sum.split option.split)

lemma accepted_keys_posts: "List.map_filter accepted_key ls = map (\<lambda>(nm, x). sender_key nm) (List.map_filter post_of ls)"
  by (induction ls) (auto simp: map_filter_simps accepted_key_post split: option.split)

lemma saved_for_key: "saved_for G (nm, x) rs \<Longrightarrow> sender_key nm \<in> unique_key ` set rs"
proof -
  assume s: "saved_for G (nm, x) rs"
  then obtain t e where "row_made nm t e \<in> set rs" "mi_user_id e = nm_user_id nm"
    by (cases x) (fastforce simp: saved_for_def receivers_def)
  moreover from this have "unique_key (row_made nm t e) = sender_key nm" by (simp add: row_made_def unique_key_def)
  ultimately show ?thesis by (metis imageI)
qed

lemma saved_for_mono: "saved_for G x rs \<Longrightarrow> set rs \<subseteq> set rs' \<Longrightarrow> saved_for G x rs'"
  unfolding saved_for_def by fast

lemma call_rows_made:
  assumes "call_of now (Saving nm q ids) = Some c" "thread_ok (Saving nm q ids)"
  shows "call_rows c = map (row_made nm (to_i32 now)) ids"
proof -
  from assms(2) obtain sid rest where ids: "ids = sid # rest" "mi_user_id sid = nm_user_id nm"
    and priv: "nm_msg_type nm = PRIVATE \<longrightarrow> (\<exists>rid. rest = [rid] \<and> mi_user_id rid = nm_peer_id nm)"
    using ids_of_request [of nm q ids] by auto
  show ?thesis
  proof (cases "nm_msg_type nm")
    case PRIVATE
    with priv obtain rid where rid: "rest = [rid]" "mi_user_id rid = nm_peer_id nm" by blast
    with assms(1) PRIVATE ids private_rows_made [OF PRIVATE ids(2) rid(2), of "to_i32 now"] show ?thesis
      by (auto simp: msg_ids_def)
  next
    case GROUP
    have "take (length ids) (ngm_user_and_msgids (new_group_msg nm (to_i32 now) ids)) =
        ngm_user_and_msgids (new_group_msg nm (to_i32 now) ids)" by (simp add: new_group_msg_def)
    with assms(1) GROUP group_rows_made [OF GROUP, of "to_i32 now" ids "length ids"] show ?thesis by auto
  qed
qed

lemma resume_saved:
  assumes c: "call_of now t = Some c" and ok: "thread_ok t" and a: "answer_to c a"
    and r: "resume now t a = Inl (Inr (reply, Some args))"
  shows "for_all G t \<Longrightarrow> saved_for G (thread_msg t, reply, args) (acknowledged (Answered_as a))"
proof -
  from resume_accepted [OF c a r] obtain nm q ids where t: "t = Saving nm q ids"
    and rows: "acknowledged (Answered_as a) = call_rows c" by (auto simp: is_accepted_def)
  from ok t have "request_for nm q" "map mi_user_id ids = map un_user_id q" by simp_all
  then obtain sid rest where ids: "ids = sid # rest" "mi_user_id sid = nm_user_id nm"
    by (rule ids_of_request)
  from a r t obtain req res where res: "a = SaveResult req res"
    "saved_reply nm (to_i32 now) ids res = Inr reply" "pa_id_reply args = ids"
    by (cases a; cases c) (auto simp: answer_to_def split: sum.splits)
  have "(nm_user_id nm, mr_msg_id reply) \<in> set (ids_in ids)"
  proof (cases "nm_msg_type nm")
    case PRIVATE
    with res(2) ids show ?thesis by (auto simp: saved_reply_def split: sum.splits)
  next
    case GROUP
    with res(2) have "mr_msg_id reply = sender_id_of (nm_user_id nm) ids"
      by (auto simp: saved_reply_def Let_def split: sum.splits err.splits if_splits)
    with sender_id_in [of rest "nm_user_id nm" "mi_start_msg_id sid"] ids show ?thesis
      by (force simp: sender_id_of_def)
  qed
  moreover have "row_made nm (to_i32 now) ` set ids = set (acknowledged (Answered_as a))"
    using call_rows_made [OF c [unfolded t] ok [unfolded t]] rows by simp
  ultimately show "for_all G t \<Longrightarrow> saved_for G (thread_msg t, reply, args) (acknowledged (Answered_as a))"
    unfolding saved_for_def t by (auto simp: res(3))
qed

lemma statement_step_owns:
  assumes my: "mysql_ok (be_mysql be) view" and step: "statement_step be ops N (w, ts, ps) l (w', ts', ps')"
    and ok: "statement_ok view ops N contents (w, ts, ps)" and all: "list_all (for_all G) (map at_work ts)"
    and o: "owns view rows w (handlers ts ps)"
  shows "\<exists>acc. owns view (rows @ acc) w' (handlers ts' ps') \<and> (\<forall>x. post_of l = Some x \<longrightarrow> saved_for G x acc)"
proof -
  have u: "under_way p" if "p \<in> set (handlers ts ps)" for p
    using ok that by (auto simp: statement_ok_def list_all_iff)
  have nobody: ?thesis if "owns view rows w' (handlers ts' ps')" "post_of l = None"
    using that by (intro exI [of _ "[]"]) simp
  from step show ?thesis
  proof (cases rule: statement_step.cases)
    case (arrives nm)
    with o show ?thesis by (intro nobody) (simp_all add: post_of_def)
  next
    case (goes_on now t t' ts1 ts2)
    with ok my have good: "mysql_ok (be_mysql be) view \<and> generator_ok ops N contents w" and t: "thread_ok t"
      by (simp_all add: statement_ok_def)
    note M = threads.advance_moves [where view = view and be = be and contents = contents and ops = ops and N = N,
        OF good t goes_on(6)]
    show ?thesis using o goes_on M(2) by (intro nobody) (auto simp: post_of_def intro: owns_cong)
  next
    case (ends now t r ts1 ts2)
    with ok have g: "generator_ok ops N contents w" and t: "thread_ok t" by (simp_all add: statement_ok_def)
    note E = local_end [OF my g ends(5) t ends(6)]
    have "post_of l = None" using E ends(2) by (auto simp: post_of_def is_accepted_def split: sum.splits option.splits)
    then show ?thesis using o ends E by (intro nobody) (auto intro: owns_cong)
  next
    case (calls now t c ts1 ts2)
    show ?thesis using o calls by (intro nobody) (auto simp: post_of_def intro: owns_cong)
  next
    case (works p d p' ts1 now t ts2)
    with o u show ?thesis
      by (intro nobody) (use owns_moves(1) [OF my _ works(6), of rows "concat (map proxy_of ts1)" "concat (map proxy_of ts2) @ ps" p']
        in \<open>simp_all add: post_of_def\<close>)
  next
    case (returns p d a now t t' ts1 ts2)
    with owns_moves(2) [OF my _ returns(6), of rows "concat (map proxy_of ts1)" "concat (map proxy_of ts2) @ ps" a] o u
    show ?thesis by (intro exI [of _ "acknowledged (Answered_as a)"]) (simp add: post_of_def)
  next
    case (replies p d a now t r ts1 ts2)
    with ok obtain c where t: "thread_ok t" "call_of now t = Some c" "serves c p" by (auto simp: statement_ok_def)
    have c: "answer_to c a" using advance_serves [OF t(3) replies(6)] by simp
    have "saved_for G x (acknowledged (Answered_as a))" if "post_of l = Some x" for x
    proof -
      obtain reply args where x: "x = (thread_msg t, reply, args)" "r = Inr (reply, Some args)"
        using \<open>post_of l = Some x\<close> replies(2) by (auto simp: post_of_def split: sum.splits option.splits)
      have "for_all G t" using all replies by (simp del: for_all.simps)
      with resume_saved [OF t(2,1) c replies(7) [unfolded x(2)]] x(1) show ?thesis by simp
    qed
    with replies owns_moves(2) [OF my _ replies(6), of rows "concat (map proxy_of ts1)" "concat (map proxy_of ts2) @ ps" a] o u
    show ?thesis by (intro exI [of _ "acknowledged (Answered_as a)"]) simp
  next
    case (gives_up now t c code what r ts1 p ts2)
    have "post_of l = None" using resume_no_answer [OF gives_up(6,7)] gives_up(2)
      by (auto simp: post_of_def is_accepted_def split: sum.splits option.splits)
    with gives_up o show ?thesis by (intro nobody) (auto simp: ac_simps intro: owns_cong)
  next
    case (again now t c ts1 p ts2)
    with o show ?thesis by (intro nobody) (auto simp: post_of_def intro: owns_cong)
  next
    case (again_new now t c ts1 p ts2)
    with o show ?thesis by (intro nobody) (auto simp: post_of_def ac_simps intro: owns_cong)
  next
    case (stray nm q g res)
    with o show ?thesis by (intro nobody) (auto simp: post_of_def intro: owns_cong)
  next
    case (left_works p d p' ps1 ps2)
    with o u show ?thesis
      by (intro nobody) (use owns_moves(1) [OF my _ left_works(6), of rows "concat (map proxy_of ts) @ ps1" ps2 p']
        in \<open>simp_all add: post_of_def\<close>)
  next
    case (left_ends p d a ps1 ps2)
    with owns_moves(2) [OF my _ left_ends(6), of rows "concat (map proxy_of ts) @ ps1" ps2 a] o u
    show ?thesis by (intro exI [of _ "acknowledged (Answered_as a)"]) (simp add: post_of_def)
  qed
qed

section \<open>The properties\<close>

lemma statement_path_ok:
  "path (statement_step be ops N) x ls y \<Longrightarrow> mysql_ok (be_mysql be) view \<Longrightarrow> statement_ok view ops N contents x \<Longrightarrow>
   statement_ok view ops N contents y"
  by (erule path_keeps) (auto intro: statement_step_ok)

lemma owns_less: "owns view (rows @ acc) w ps \<Longrightarrow> owns view rows w ps"
  unfolding owns_def by (erule subset_mset.order_trans [rotated]) simp

lemma statement_path_asks:
  "path (statement_step be ops N) x ls y \<Longrightarrow> mysql_ok (be_mysql be) view \<Longrightarrow> asks_for_all view G x \<Longrightarrow> asks_for_all view G y"
  by (erule path_keeps) (auto intro: statement_step_asks)

lemma statement_path_owns:
  assumes my: "mysql_ok (be_mysql be) view"
  shows "path (statement_step be ops N) x ls y \<Longrightarrow> statement_ok view ops N contents x \<Longrightarrow> asks_for_all view G x \<Longrightarrow>
    owns view rows (fst x) (handlers (fst (snd x)) (snd (snd x))) \<Longrightarrow>
    \<exists>acc. owns view (rows @ concat acc) (fst y) (handlers (fst (snd y)) (snd (snd y))) \<and>
      list_all2 (saved_for G) (List.map_filter post_of ls) acc"
proof (induction arbitrary: rows rule: path.induct)
  case (path_Cons x l x1 ls y)
  obtain w ts ps w1 ts1 ps1 where x: "x = (w, ts, ps)" "x1 = (w1, ts1, ps1)" by (cases x; cases x1) auto
  have o: "owns view rows w (handlers ts ps)" using path_Cons.prems(3) x by simp
  have all: "list_all (for_all G) (map at_work ts)" using path_Cons.prems(2) x by (simp add: asks_for_all_def)
  from statement_step_owns [OF my path_Cons.hyps(1) [unfolded x] path_Cons.prems(1) [unfolded x(1)] all o] obtain acc where
    acc: "owns view (rows @ acc) w1 (handlers ts1 ps1)" "\<forall>x. post_of l = Some x \<longrightarrow> saved_for G x acc"
    by blast
  note ok1 = statement_step_ok [OF my path_Cons.hyps(1) path_Cons.prems(1)]
    statement_step_asks [OF my path_Cons.hyps(1) path_Cons.prems(2)]
  show ?case
  proof (cases "post_of l")
    case None
    from path_Cons.IH [OF ok1, of rows] owns_less [OF acc(1)] None x show ?thesis by (simp add: map_filter_simps)
  next
    case (Some k)
    from path_Cons.IH [OF ok1, of "rows @ acc"] acc(1) x obtain acc' where
      "owns view ((rows @ acc) @ concat acc') (fst y) (handlers (fst (snd y)) (snd (snd y)))"
      "list_all2 (saved_for G) (List.map_filter post_of ls) acc'" by auto
    with acc(2) Some show ?thesis by (intro exI [of _ "acc # acc'"]) (simp add: map_filter_simps)
  qed
qed (auto simp: map_filter_simps intro!: exI [of _ "[]"])

lemma picked_keys:
  "list_all2 (\<lambda>k rs. k \<in> f ` set rs) ks acc \<Longrightarrow> distinct (map f (concat acc)) \<Longrightarrow>
   distinct ks \<and> set ks \<subseteq> f ` set (concat acc)"
proof (induction ks acc rule: list_all2_induct)
  case (Cons k ks rs acc)
  from Cons.prems Cons.IH have ks: "distinct ks \<and> set ks \<subseteq> f ` set (concat acc)" by simp
  moreover from Cons.prems have "f ` set rs \<inter> f ` set (concat acc) = {}" by simp
  moreover have "f ` set (concat (rs # acc)) = f ` set rs \<union> f ` set (concat acc)" by (simp add: image_Un)
  ultimately show ?case using Cons.hyps(1) by (metis IntI Un_iff distinct.simps(2) empty_iff insert_subset list.simps(15) order_trans subsetD sup.cobounded2)
qed simp

lemma statement_start:
  assumes "idgen_inv ops contents (wd_idgen w)" "1 \<le> N"
    and "unique_rows (wd_messages view w)" "distinct (map row_id (wd_messages view w))"
    and "list_all (\<lambda>r. r_msg_id r \<le> next_id contents w (r_user_id r)) (wd_messages view w)"
  shows "statement_ok view ops N contents (w, [], [])" and "owns view (wd_messages view w) w []"
proof -
  have "inj_on row_id (set (wd_messages view w))" using assms(4) by (simp add: distinct_map)
  with assms show "statement_ok view ops N contents (w, [], [])"
    by (auto simp: statement_ok_def generator_ok_def ids_apart_def potential_rows_def list_all_iff)
  show "owns view (wd_messages view w) w []" by (simp add: owns_def)
qed

text \<open>
  C9: however the threads of the logic server and the handlers of the proxy interleave, statement by
  statement, with calls that are given up while their handler goes on, and with requests to the
  proxy and to the generator that brpc sends more than once: no two rows of the table give a user
  the same message id, and no two have the same unique key.
\<close>

theorem interleaved_statements_keep_ids_distinct:
  assumes "mysql_ok (be_mysql be) view" "idgen_inv ops contents (wd_idgen w)" "1 \<le> N"
    and "unique_rows (wd_messages view w)" "distinct (map row_id (wd_messages view w))"
    and "list_all (\<lambda>r. r_msg_id r \<le> next_id contents w (r_user_id r)) (wd_messages view w)"
    and "path (statement_step be ops N) (w, [], []) ls (w', ts, ps)"
  shows "distinct (map row_id (wd_messages view w')) \<and> unique_rows (wd_messages view w')"
proof -
  from statement_path_ok [OF assms(7,1) statement_start(1) [OF assms(2-6)]]
  have u: "unique_rows (wd_messages view w')" and i: "inj_on row_id (set (wd_messages view w'))"
    by (auto simp: statement_ok_def ids_apart_def potential_rows_def intro: inj_on_subset)
  from u have "distinct (wd_messages view w')" by (simp add: unique_rows_def distinct_map)
  with u i show ?thesis by (simp add: distinct_map)
qed

text \<open>
  C4: a message is accepted as new at most once, over all these interleavings, with its
  retransmissions, with handlers that were left behind and with requests that were sent twice. And
  then each of its receivers (the sender and the peer, or the sender and the members of the group)
  has a row of it in the table that was not there before, under the id that the generator gave for
  that user, the sender's under the id of the answer.
\<close>

theorem interleaved_statements_accept_once:
  assumes "mysql_ok (be_mysql be) view" "idgen_inv ops contents (wd_idgen w)" "1 \<le> N"
    and "unique_rows (wd_messages view w)" "distinct (map row_id (wd_messages view w))"
    and "list_all (\<lambda>r. r_msg_id r \<le> next_id contents w (r_user_id r)) (wd_messages view w)"
    and "path (statement_step be ops N) (w, [], []) ls (w', ts, ps)"
  shows "distinct (List.map_filter accepted_key ls) \<and>
    set (List.map_filter accepted_key ls) \<subseteq>
      unique_key ` set (wd_messages view w') - unique_key ` set (wd_messages view w) \<and>
    (\<forall>nm reply args. Answers nm (Inr (reply, Some args)) \<in> set ls \<longrightarrow>
       mi_user_id ` set (pa_id_reply args) = receivers (wd_members view w) nm \<and>
       (nm_user_id nm, mr_msg_id reply) \<in> set (ids_in (pa_id_reply args)) \<and>
       (\<exists>t. row_made nm t ` set (pa_id_reply args) \<subseteq> set (wd_messages view w') - set (wd_messages view w)))"
proof -
  let ?old = "wd_messages view w" and ?new = "wd_messages view w'" and ?posts = "List.map_filter post_of ls"
  note start = statement_start [OF assms(2-6)]
  from statement_path_ok [OF assms(7,1) start(1)] have u: "unique_rows ?new"
    by (simp add: statement_ok_def)
  have "asks_for_all view (wd_members view w) (w, [], [])" by (simp add: asks_for_all_def)
  from statement_path_owns [OF assms(1,7) start(1) this, of ?old] start(2) obtain acc where
    "owns view (?old @ concat acc) w' (handlers ts ps)"
    and posts: "list_all2 (saved_for (wd_members view w)) ?posts acc" by auto
  then have part: "mset (?old @ concat acc) \<subseteq># mset ?new"
    unfolding owns_def by (metis mset_subset_eq_add_left subset_mset.order_trans)
  from keys_of_part [OF part u] have d: "distinct (map unique_key (concat acc))"
    and free: "unique_key ` set (concat acc) \<inter> unique_key ` set ?old = {}"
    by (auto simp: unique_rows_def)
  have sub: "set (concat acc) \<subseteq> set ?new" using set_mset_mono [OF part] by auto
  have "list_all2 (\<lambda>k rs. k \<in> unique_key ` set rs) (List.map_filter accepted_key ls) acc"
    unfolding accepted_keys_posts list_all2_map1
    by (rule list_all2_mono [OF posts]) (auto dest: saved_for_key)
  from picked_keys [OF this d] free sub have "distinct (List.map_filter accepted_key ls) \<and>
      set (List.map_filter accepted_key ls) \<subseteq> unique_key ` set ?new - unique_key ` set ?old" by blast
  moreover have "saved_for (wd_members view w) (nm, reply, args) (concat acc)"
    if "Answers nm (Inr (reply, Some args)) \<in> set ls" for nm reply args
  proof -
    have "(nm, reply, args) \<in> set ?posts"
      using that by (force simp: map_filter_def post_of_def)
    then obtain i where "i < length ?posts" "?posts ! i = (nm, reply, args)" by (auto simp: in_set_conv_nth)
    with posts have "i < length acc" "saved_for (wd_members view w) (nm, reply, args) (acc ! i)"
      by (auto simp: list_all2_conv_all_nth)
    then obtain rs where rs: "rs \<in> set acc" and "saved_for (wd_members view w) (nm, reply, args) rs" by (metis nth_mem)
    moreover have "set rs \<subseteq> set (concat acc)" using rs by auto
    ultimately show ?thesis by (metis saved_for_mono)
  qed
  moreover have "set (concat acc) \<subseteq> set ?new - set ?old" using sub free by blast
  ultimately show ?thesis unfolding saved_for_def prod.case by (meson order_trans)
qed

section \<open>A run\<close>

text \<open>
  What happens next: a message arrives, the thread with a number or its handler moves, its request
  is sent again, it gives up, or a handler that nobody waits for moves.
\<close>

datatype move = Get NewMsg | Move nat int | Repeat nat | Leave nat | Behind nat

definition put :: "nat \<Rightarrow> 'a list \<Rightarrow> 'a list \<Rightarrow> 'a list" where
  "put i new xs = take i xs @ new @ drop (Suc i) xs"

fun try_move ::
  "('r, 'q) backends \<Rightarrow> 'd leveldb \<Rightarrow> int \<Rightarrow> move \<Rightarrow> ('d, 'r, 'q) statement_system \<Rightarrow>
   (send_label \<times> ('d, 'r, 'q) statement_system) option" where
  "try_move be ops N (Get nm) (w, ts, ps) = Some (Arrive nm, (w, ts @ [Here (Checking nm)], ps))"
| "try_move be ops N (Move i now) (w, ts, ps) =
     (if length ts \<le> i then None
      else case ts ! i of
        Here t \<Rightarrow> (case call_of now t of
            Some c \<Rightarrow> Some (Steps, (w, put i [There now t (thread_of_call c)] ts, ps))
          | None \<Rightarrow> (case advance (deployed be ops N) now t w of
              (w', Inr t') \<Rightarrow> Some (Steps, (w', put i [Here t'] ts, ps))
            | (w', Inl r) \<Rightarrow> Some (Answers (thread_msg t) r, (w', put i [] ts, ps))))
      | There then_now t p \<Rightarrow> (case advance_proxy be p (wd_db w) of
            (d, Inr p') \<Rightarrow> Some (Steps, (w\<lparr>wd_db := d\<rparr>, put i [There then_now t p'] ts, ps))
          | (d, Inl a) \<Rightarrow> (case resume then_now t a of
              Inr t' \<Rightarrow> Some (Steps, (w\<lparr>wd_db := d\<rparr>, put i [Here t'] ts, ps))
            | Inl r \<Rightarrow> Some (Answers (thread_msg t) r, (w\<lparr>wd_db := d\<rparr>, put i [] ts, ps)))))"
| "try_move be ops N (Repeat i) (w, ts, ps) =
     (if length ts \<le> i then None
      else case ts ! i of
        Here t \<Rightarrow> None
      | There now t p \<Rightarrow> (case call_of now t of
            None \<Rightarrow> None
          | Some c \<Rightarrow> Some (Steps, (w, put i [There now t p] ts, ps @ [thread_of_call c]))))"
| "try_move be ops N (Leave i) (w, ts, ps) =
     (if length ts \<le> i then None
      else case ts ! i of
        Here t \<Rightarrow> None
      | There now t p \<Rightarrow> (case call_of now t of
            None \<Rightarrow> None
          | Some c \<Rightarrow> (case resume now t (no_answer c 1008 ''timed out'') of
              Inr t' \<Rightarrow> None
            | Inl r \<Rightarrow> Some (Answers (thread_msg t) r, (w, put i [] ts, ps @ [p])))))"
| "try_move be ops N (Behind i) (w, ts, ps) =
     (if length ps \<le> i then None
      else case advance_proxy be (ps ! i) (wd_db w) of
        (d, Inr p') \<Rightarrow> Some (Steps, (w\<lparr>wd_db := d\<rparr>, ts, put i [p'] ps))
      | (d, Inl a) \<Rightarrow> Some (Steps, (w\<lparr>wd_db := d\<rparr>, ts, put i [] ps)))"

lemma at_place: "\<not> length xs \<le> i \<Longrightarrow> xs = take i xs @ xs ! i # drop (Suc i) xs"
  by (rule id_take_nth_drop) simp

lemma try_move_step: "try_move be ops N m x = Some (l, y) \<Longrightarrow> statement_step be ops N x l y"
proof (induction be ops N m x rule: try_move.induct)
  case (1 be ops N nm w ts ps)
  then show ?case by (auto intro: arrives)
next
  case (2 be ops N i now w ts ps)
  then have i: "\<not> length ts \<le> i" by (simp split: if_splits)
  let ?A = "take i ts" and ?B = "drop (Suc i) ts"
  show ?case
  proof (cases "ts ! i")
    case (Here t)
    then have ts: "ts = ?A @ Here t # ?B" using at_place [OF i] by simp
    show ?thesis
    proof (cases "call_of now t")
      case None
      from 2 i Here None goes_on [OF None, of be ops N w _ _ ?A ?B ps] ends [OF None, of be ops N w _ _ ?A ?B ps] ts
      show ?thesis by (auto simp: put_def split: prod.splits sum.splits)
    next
      case (Some c)
      from 2 i Here Some calls [OF Some, of be ops N w ?A ?B ps] ts show ?thesis by (auto simp: put_def)
    qed
  next
    case (There n t p)
    then have ts: "ts = ?A @ There n t p # ?B" using at_place [OF i] by simp
    from 2 i There works [of be p w _ _ ops N ?A n t ?B ps] returns [of be p w _ _ n t _ ops N ?A ?B ps]
      replies [of be p w _ _ n t _ ops N ?A ?B ps] ts
    show ?thesis by (auto simp: put_def split: prod.splits sum.splits)
  qed
next
  case (3 be ops N i w ts ps)
  then have i: "\<not> length ts \<le> i" by (simp split: if_splits)
  let ?A = "take i ts" and ?B = "drop (Suc i) ts"
  show ?case
  proof (cases "ts ! i")
    case (There n t p)
    then have ts: "ts = ?A @ There n t p # ?B" using at_place [OF i] by simp
    from 3 i There again [of n t _ be ops N w ?A p ?B ps] ts show ?thesis by (auto simp: put_def split: option.splits)
  qed (use 3 i in simp)
next
  case (4 be ops N i w ts ps)
  then have i: "\<not> length ts \<le> i" by (simp split: if_splits)
  let ?A = "take i ts" and ?B = "drop (Suc i) ts"
  show ?case
  proof (cases "ts ! i")
    case (There n t p)
    then have ts: "ts = ?A @ There n t p # ?B" using at_place [OF i] by simp
    from 4 i There gives_up [of n t _ 1008 "''timed out''" _ be ops N w ?A p ?B ps] ts
    show ?thesis by (auto simp: put_def split: option.splits sum.splits)
  qed (use 4 i in simp)
next
  case (5 be ops N i w ts ps)
  then have i: "\<not> length ps \<le> i" by (simp split: if_splits)
  from 5 i left_works [of be "ps ! i" w _ _ ops N ts "take i ps" "drop (Suc i) ps"]
    left_ends [of be "ps ! i" w _ _ ops N ts "take i ps" "drop (Suc i) ps"] at_place [OF i]
  show ?case by (auto simp: put_def split: prod.splits sum.splits)
qed

fun play ::
  "('r, 'q) backends \<Rightarrow> 'd leveldb \<Rightarrow> int \<Rightarrow> move list \<Rightarrow> ('d, 'r, 'q) statement_system \<Rightarrow>
   send_label list \<times> ('d, 'r, 'q) statement_system" where
  "play be ops N [] x = ([], x)"
| "play be ops N (m # ms) x = (case try_move be ops N m x of
      None \<Rightarrow> play be ops N ms x
    | Some (l, y) \<Rightarrow> (case play be ops N ms y of (ls, z) \<Rightarrow> (l # ls, z)))"

lemma play_path: "play be ops N ms x = (ls, z) \<Longrightarrow> path (statement_step be ops N) x ls z"
proof (induction ms arbitrary: x ls z)
  case (Cons m ms)
  show ?case
  proof (cases "try_move be ops N m x")
    case None with Cons show ?thesis by simp
  next
    case (Some ly)
    obtain l y where ly: "ly = (l, y)" by (cases ly)
    obtain ls' where "play be ops N ms y = (ls', z)" "ls = l # ls'"
      using Cons.prems Some ly by (auto split: prod.splits)
    with Cons.IH try_move_step Some ly show ?thesis by (blast intro: path_Cons)
  qed
qed (simp add: path_Nil)

text \<open>
  A message and its retransmission pass the duplicate check together. The save of the first is sent
  twice, and the copy fails; the caller of the second save gives up, and its handler fails alone.
\<close>

abbreviation busy_moves :: "move list" where
  "busy_moves \<equiv> [Get hi_to_2, Get hi_to_2, Move 0 100, Move 0 100, Move 0 100, Move 1 100, Move 1 100, Move 1 100,
     Move 0 100, Move 0 100, Move 1 100, Move 1 100, Move 0 100, Repeat 0, Move 0 100, Behind 0, Move 1 100, Leave 1,
     Move 0 100, Behind 0]"

definition played :: "send_label list \<times> mem_world \<times> fthread list \<times> proxy_thread list" where
  "played = play mem_backends map_db 4 busy_moves (mem_world empty_tables (\<lambda>_. None), [], [])"

lemma played_path: "path (statement_step mem_backends map_db 4) (mem_world empty_tables (\<lambda>_. None), [], [])
    (fst played) (fst (snd played), fst (snd (snd played)), snd (snd (snd played)))"
  by (rule play_path [of _ _ _ busy_moves]) (simp add: played_def)

lemma played_run: "case played of (ls, w, ts, ps) \<Rightarrow> ts = [] \<and> ps = [] \<and> length ls = 20 \<and>
    List.map_filter accepted_key ls = [sender_key hi_to_2] \<and> length (wd_messages fst w) = 2"
  by code_simp

theorem interleaved_statements_keep_ids_distinct_witness:
  "length (wd_messages fst (fst (snd played))) = 2 \<and> distinct (map row_id (wd_messages fst (fst (snd played))))"
proof -
  have "unique_rows []" by (simp add: unique_rows_def)
  with interleaved_statements_keep_ids_distinct [OF mem_ok(1) mem_world_start(1) _ _ _ _ played_path] played_run
  show ?thesis by (simp add: empty_tables_def case_prod_beta)
qed

theorem interleaved_statements_accept_once_witness:
  "List.map_filter accepted_key (fst played) = [sender_key hi_to_2] \<and>
   sender_key hi_to_2 \<in> unique_key ` set (wd_messages fst (fst (snd played)))"
proof -
  have "unique_rows []" by (simp add: unique_rows_def)
  with interleaved_statements_accept_once [OF mem_ok(1) mem_world_start(1) _ _ _ _ played_path] played_run
  show ?thesis by (simp add: empty_tables_def case_prod_beta)
qed

end
