(* ===== verification/IdGen_Clients.thy ===== *)
theory IdGen_Clients
  imports IdGen_Service Startup
begin

text \<open>
  The two programs that exercise the id generator (\<^verbatim>\<open>server/idgen/idgen_client.cc\<close>,
  \<^verbatim>\<open>idgen_client2.cc\<close>): they ask it for ids once a second until they are stopped, and log the
  first entry of each answer. The rounds before that, and the values of \<^verbatim>\<open>std::rand()\<close>, are
  parameters.
\<close>

section \<open>The programs\<close>

record idgen_client_flags =
  fl_each_request_msgid_num :: int
  fl_change_logid :: int
  fl_unchange_user_id :: int
  fl_user_id :: int

text \<open>The request of a round: a random user and a fixed one, or one user.\<close>

definition idgen_client_request :: "idgen_client_flags \<Rightarrow> int \<Rightarrow> UserAndIdNum list" where
  "idgen_client_request fl rand =
     [\<lparr>un_user_id = rand mod 10 + 1, un_need_msgid_num = fl_each_request_msgid_num fl\<rparr>,
      \<lparr>un_user_id = fl_unchange_user_id fl, un_need_msgid_num = fl_each_request_msgid_num fl\<rparr>]"

definition idgen_client2_request :: "idgen_client_flags \<Rightarrow> UserAndIdNum list" where
  "idgen_client2_request fl =
     [\<lparr>un_user_id = fl_user_id fl, un_need_msgid_num = fl_each_request_msgid_num fl\<rparr>]"

text \<open>\<^verbatim>\<open>cntl.set_log_id(log_id++)\<close>, or without the increment: the counter after the round.\<close>

definition next_log_id :: "idgen_client_flags \<Rightarrow> int \<Rightarrow> fault + int" where
  "next_log_id fl log_id = (if fl_change_logid fl \<noteq> 0 then i32 (log_id + 1) else Inr log_id)"

text \<open>The loop over the rounds: each ends with a warning or with \<^verbatim>\<open>reply.msg_ids(0)\<close>.\<close>

fun idgen_client_loop ::
  "('s \<Rightarrow> UserAndIdNum list \<Rightarrow> 's \<times> MsgIds list result) \<Rightarrow> idgen_client_flags \<Rightarrow> UserAndIdNum list list \<Rightarrow>
   int \<Rightarrow> 's \<Rightarrow> fault + MsgIds list \<times> 's" where
  "idgen_client_loop call fl [] log_id s = Inr ([], s)"
| "idgen_client_loop call fl (request # requests) log_id s =
     fbind (next_log_id fl log_id) (\<lambda>log_id1.
       (case call s request of
          (s1, Inl e) \<Rightarrow> idgen_client_loop call fl requests log_id1 s1
        | (s1, Inr reply) \<Rightarrow>
            fbind (msg_ids reply 0) (\<lambda>first.
            fbind (idgen_client_loop call fl requests log_id1 s1) (\<lambda>(rest, s2).
            Inr (first # rest, s2)))))"

definition idgen_client_main ::
  "('s \<Rightarrow> UserAndIdNum list \<Rightarrow> 's \<times> MsgIds list result) \<Rightarrow> idgen_client_flags \<Rightarrow> int list \<Rightarrow> 's \<Rightarrow> fault + MsgIds list \<times> 's" where
  "idgen_client_main call fl rands s = idgen_client_loop call fl (map (idgen_client_request fl) rands) 0 s"

definition idgen_client2_main ::
  "('s \<Rightarrow> UserAndIdNum list \<Rightarrow> 's \<times> MsgIds list result) \<Rightarrow> idgen_client_flags \<Rightarrow> nat \<Rightarrow> 's \<Rightarrow> fault + MsgIds list \<times> 's" where
  "idgen_client2_main call fl rounds s = idgen_client_loop call fl (replicate rounds (idgen_client2_request fl)) 0 s"

text \<open>The service over a network.\<close>

definition call_idgen ::
  "'d leveldb \<Rightarrow> int \<Rightarrow> 'd idgen \<times> fate list \<Rightarrow> UserAndIdNum list \<Rightarrow> ('d idgen \<times> fate list) \<times> MsgIds list result" where
  "call_idgen ops N s request =
     (case snd s of
        [] \<Rightarrow> (case IdGenService ops N (fst s) request of (g, r) \<Rightarrow> ((g, []), r))
      | f # fs \<Rightarrow> (case rpc f (\<lambda>g. IdGenService ops N g request) (fst s) of (g, r) \<Rightarrow> ((g, fs), r)))"

section \<open>Their channel\<close>

record idgen_channel_flags =
  ic_protocol :: string
  ic_connection_type :: string
  ic_server :: string
  ic_load_balancer :: string
  ic_timeout_ms :: int
  ic_max_retry :: int

definition idgen_channel :: "idgen_channel_flags \<Rightarrow> channel" where
  "idgen_channel cf = \<lparr>ch_addr = ic_server cf, ch_load_balancer = Some (ic_load_balancer cf),
     ch_options = Some \<lparr>co_protocol = ic_protocol cf, co_connection_type = ic_connection_type cf,
       co_timeout_ms = ic_timeout_ms cf, co_max_retry = ic_max_retry cf\<rparr>\<rparr>"

text \<open>
  A program from its start to its end, over what it does once it has its channel: it exits with -1
  without one, and with 0 when it is asked to quit. \<open>call\<close> is the service over a channel.
\<close>

definition through_channel ::
  "brpc \<Rightarrow> idgen_channel_flags \<Rightarrow> (channel \<Rightarrow> 's \<Rightarrow> UserAndIdNum list \<Rightarrow> 's \<times> MsgIds list result) \<Rightarrow>
   (('s \<Rightarrow> UserAndIdNum list \<Rightarrow> 's \<times> MsgIds list result) \<Rightarrow> fault + MsgIds list \<times> 's) \<Rightarrow>
   int process \<times> (MsgIds list \<times> 's) option" where
  "through_channel br cf call rounds =
     (if \<not> br_Init br (idgen_channel cf) then (Exit (-1), None)
      else (case rounds (call (idgen_channel cf)) of
        Inl f \<Rightarrow> (Abort f, None)
      | Inr r \<Rightarrow> (Exit 0, Some r)))"

definition idgen_client_process ::
  "brpc \<Rightarrow> idgen_channel_flags \<Rightarrow> (channel \<Rightarrow> 's \<Rightarrow> UserAndIdNum list \<Rightarrow> 's \<times> MsgIds list result) \<Rightarrow>
   idgen_client_flags \<Rightarrow> int list \<Rightarrow> 's \<Rightarrow> int process \<times> (MsgIds list \<times> 's) option" where
  "idgen_client_process br cf call fl rands s =
     through_channel br cf call (\<lambda>call. idgen_client_main call fl rands s)"

definition idgen_client2_process ::
  "brpc \<Rightarrow> idgen_channel_flags \<Rightarrow> (channel \<Rightarrow> 's \<Rightarrow> UserAndIdNum list \<Rightarrow> 's \<times> MsgIds list result) \<Rightarrow>
   idgen_client_flags \<Rightarrow> nat \<Rightarrow> 's \<Rightarrow> int process \<times> (MsgIds list \<times> 's) option" where
  "idgen_client2_process br cf call fl rounds s =
     through_channel br cf call (\<lambda>call. idgen_client2_main call fl rounds s)"

text \<open>The flags as they are defined; the first program has no flag for a user, which it does not read.\<close>

definition idgen_channel_defaults :: idgen_channel_flags where
  "idgen_channel_defaults = \<lparr>ic_protocol = ''baidu_std'', ic_connection_type = [], ic_server = ''0.0.0.0:8000'',
     ic_load_balancer = [], ic_timeout_ms = 100, ic_max_retry = 3\<rparr>"

definition idgen_client_defaults :: idgen_client_flags where
  "idgen_client_defaults = \<lparr>fl_each_request_msgid_num = 10, fl_change_logid = 0, fl_unchange_user_id = 10,
     fl_user_id = 0\<rparr>"

definition idgen_client2_defaults :: idgen_client_flags where
  "idgen_client2_defaults = \<lparr>fl_each_request_msgid_num = 1, fl_change_logid = 0, fl_unchange_user_id = 10,
     fl_user_id = 1234\<rparr>"

section \<open>What they see\<close>

lemma service_single:
  assumes inv: "idgen_inv ops contents s" "1 \<le> N" and n: "1 \<le> n"
    and g: "IdGenService ops N s [\<lparr>un_user_id = u, un_need_msgid_num = n\<rparr>] = (s', Inr reply)"
  shows "\<exists>i. reply = [\<lparr>mi_user_id = u, mi_start_msg_id = i, mi_msg_id_num = n\<rparr>] \<and>
    next_base contents s u < i \<and> next_base contents s' u = i + n - 1"
proof -
  obtain s1 r1 where s1: "IdGenerate ops N s u n = (s1, r1)" by fastforce
  with g obtain i where i: "id_issued r1 = Some i" "s' = s1"
    "reply = [\<lparr>mi_user_id = u, mi_start_msg_id = i, mi_msg_id_num = n\<rparr>]"
    by (auto split: sum.splits if_splits prod.splits)
  have "idgen_inv ops contents s \<and> 1 \<le> N" using inv by simp
  from idb.gen_issue [OF this n s1 i(1)] i show ?thesis by simp
qed

lemma call_cases:
  assumes "call_idgen ops N s request = (s', r)"
  obtains (run) r' where "IdGenService ops N (fst s) request = (fst s', r')" "r = r' \<or> isl r"
  | (lost) "fst s' = fst s" "isl r"
proof -
  obtain g r' where g: "IdGenService ops N (fst s) request = (g, r')" by fastforce
  show ?thesis
  proof (cases "snd s")
    case Nil
    with assms g show ?thesis by (intro run [of r']) (auto simp: call_idgen_def)
  next
    case (Cons f fs)
    show ?thesis
    proof (cases f)
      case (RequestLost c t)
      with assms Cons show ?thesis by (intro lost) (auto simp: call_idgen_def)
    next
      case (ReplyLost c t)
      with assms Cons g have "fst s' = g" "isl r" by (auto simp: call_idgen_def)
      with g run [of r'] show ?thesis by blast
    qed (use assms Cons g in \<open>intro run [of r'], auto simp: call_idgen_def\<close>)
  qed
qed

definition apart :: "int \<Rightarrow> MsgIds list \<Rightarrow> bool" where
  "apart n log \<longleftrightarrow> sorted_wrt (\<lambda>a b. mi_start_msg_id a + n \<le> mi_start_msg_id b) log"

lemma client2_loop:
  assumes N: "1 \<le> N" and n: "1 \<le> fl_each_request_msgid_num fl" and c: "fl_change_logid fl = 0"
  shows "idgen_inv ops contents (fst s) \<Longrightarrow>
    \<exists>log s'. idgen_client_loop (call_idgen ops N) fl (replicate rounds (idgen_client2_request fl)) log_id s = Inr (log, s') \<and>
      apart (fl_each_request_msgid_num fl) log \<and>
      (\<forall>m \<in> set log. mi_user_id m = fl_user_id fl \<and> next_base contents (fst s) (fl_user_id fl) < mi_start_msg_id m)"
proof (induction rounds arbitrary: s)
  case (Suc rounds)
  let ?n = "fl_each_request_msgid_num fl" and ?u = "fl_user_id fl" and ?q = "idgen_client2_request fl"
  obtain s1 r where s1: "call_idgen ops N s ?q = (s1, r)" by fastforce
  have step: "idgen_inv ops contents (fst s1) \<and> next_base contents (fst s) ?u \<le> next_base contents (fst s1) ?u \<and>
    (\<forall>reply. r = Inr reply \<longrightarrow> (\<exists>i. reply = [\<lparr>mi_user_id = ?u, mi_start_msg_id = i, mi_msg_id_num = ?n\<rparr>] \<and>
      next_base contents (fst s) ?u < i \<and> next_base contents (fst s1) ?u = i + ?n - 1))"
    using s1
  proof (cases rule: call_cases)
    case (run r')
    have q: "\<forall>x \<in> set ?q. 1 \<le> un_need_msgid_num x" using n by (simp add: idgen_client2_request_def)
    from service_fresh [OF Suc.prems N q run(1)] service_single [OF Suc.prems N n, of ?u "fst s1"] run
    show ?thesis by (cases r) (auto simp: idgen_client2_request_def)
  qed (use Suc.prems in auto)
  then have i1: "idgen_inv ops contents (fst s1)" by blast
  from Suc.IH [OF i1] obtain log s' where
    rest: "idgen_client_loop (call_idgen ops N) fl (replicate rounds ?q) log_id s1 = Inr (log, s')"
    and log: "apart ?n log" "\<forall>m \<in> set log. mi_user_id m = ?u \<and> next_base contents (fst s1) ?u < mi_start_msg_id m"
    by blast
  show ?case
  proof (cases r)
    case (Inl e)
    with s1 rest c have "idgen_client_loop (call_idgen ops N) fl (replicate (Suc rounds) ?q) log_id s = Inr (log, s')"
      by (simp add: next_log_id_def)
    with log step show ?thesis by (intro exI [of _ log] exI [of _ s']) fastforce
  next
    case (Inr reply)
    with step obtain i where i: "reply = [\<lparr>mi_user_id = ?u, mi_start_msg_id = i, mi_msg_id_num = ?n\<rparr>]"
      "next_base contents (fst s) ?u < i" "next_base contents (fst s1) ?u = i + ?n - 1" by blast
    let ?m = "\<lparr>mi_user_id = ?u, mi_start_msg_id = i, mi_msg_id_num = ?n\<rparr>"
    from s1 rest c Inr i(1) have
      "idgen_client_loop (call_idgen ops N) fl (replicate (Suc rounds) ?q) log_id s = Inr (?m # log, s')"
      by (simp add: next_log_id_def msg_ids_def)
    moreover have "apart ?n (?m # log)" using log i(3) by (fastforce simp: apart_def)
    moreover have "\<forall>m \<in> set (?m # log). mi_user_id m = ?u \<and> next_base contents (fst s) ?u < mi_start_msg_id m"
      using log(2) i(2,3) n by fastforce
    ultimately show ?thesis by blast
  qed
qed (simp add: apart_def)

text \<open>
  Whatever the network and leveldb do, the second test client runs through all of its
  rounds without a fault, reads no entry that is not there, and the blocks of ids it logs are for
  its user, above what the generator had handed out before, and never overlap.
\<close>

lemma test_client_logs_disjoint_blocks:
  assumes "idgen_inv ops contents g" "1 \<le> N" "1 \<le> fl_each_request_msgid_num fl" "fl_change_logid fl = 0"
  shows "\<exists>log s'. idgen_client2_main (call_idgen ops N) fl rounds (g, net) = Inr (log, s') \<and>
    sorted_wrt (\<lambda>a b. mi_start_msg_id a + fl_each_request_msgid_num fl \<le> mi_start_msg_id b) log \<and>
    list_all (\<lambda>m. mi_user_id m = fl_user_id fl \<and> next_base contents g (fl_user_id fl) < mi_start_msg_id m) log"
  using client2_loop [OF assms(2-4), of ops contents "(g, net)" rounds 0] assms(1)
  by (simp add: idgen_client2_main_def apart_def list_all_iff)

text \<open>
  The first client asks for two users in a round, and an answer has an entry for each: it faults
  only when the counter of its log ids overflows.
\<close>

lemma client_loop_faults:
  assumes N: "1 \<le> N" and n: "1 \<le> fl_each_request_msgid_num fl"
  shows "idgen_inv ops contents (fst s) \<Longrightarrow>
    idgen_client_loop (call_idgen ops N) fl (map (idgen_client_request fl) rands) log_id s = Inl f \<Longrightarrow>
    f = Overflow \<and> fl_change_logid fl \<noteq> 0"
proof (induction rands arbitrary: s log_id f)
  case (Cons x rands)
  let ?q = "idgen_client_request fl x"
  obtain s1 r where s1: "call_idgen ops N s ?q = (s1, r)" by fastforce
  have q: "\<forall>x \<in> set ?q. 1 \<le> un_need_msgid_num x" using n by (simp add: idgen_client_request_def)
  have step: "idgen_inv ops contents (fst s1) \<and> (\<forall>reply. r = Inr reply \<longrightarrow> 0 < length reply)"
    using s1
  proof (cases rule: call_cases)
    case (run r')
    from service_fresh [OF Cons.prems(1) N q run(1)] run(2) show ?thesis
      by (cases r) (auto simp: idgen_client_request_def)
  qed (use Cons.prems(1) in auto)
  then have i1: "idgen_inv ops contents (fst s1)" by blast
  show ?case
  proof (cases "next_log_id fl log_id")
    case (Inl f')
    with Cons.prems(2) show ?thesis by (auto simp: next_log_id_def i32_def split: if_splits)
  next
    case (Inr l)
    show ?thesis
    proof (cases "idgen_client_loop (call_idgen ops N) fl (map (idgen_client_request fl) rands) l s1")
      case (Inl f')
      then have "f' = Overflow \<and> fl_change_logid fl \<noteq> 0" by (rule Cons.IH [OF i1])
      moreover have "f = f'"
        using Cons.prems(2) s1 Inr Inl step
        by (cases r) (auto simp: msg_ids_def split: if_splits)
      ultimately show ?thesis by simp
    next
      case rest: (Inr x)
      with Cons.prems(2) s1 Inr step have False
        by (cases r; cases x) (auto simp: msg_ids_def split: if_splits)
      then show ?thesis ..
    qed
  qed
qed simp

lemma test_client_faults:
  assumes "idgen_inv ops contents g" "1 \<le> N" "1 \<le> fl_each_request_msgid_num fl"
    and "idgen_client_main (call_idgen ops N) fl rands (g, net) = Inl f"
  shows "f = Overflow \<and> fl_change_logid fl \<noteq> 0"
  using client_loop_faults [OF assms(2,3), of ops contents "(g, net)" rands 0 f] assms(1,4)
  by (simp add: idgen_client_main_def)

text \<open>So with the flags as they are neither program is ever aborted.\<close>

lemma default_clients_end_well:
  assumes "idgen_inv ops contents g" "1 \<le> N" "br_Init br (idgen_channel cf)"
  shows "fst (idgen_client_process br cf (\<lambda>ch. call_idgen ops N) idgen_client_defaults rands (g, net)) = Exit 0"
    and "fst (idgen_client2_process br cf (\<lambda>ch. call_idgen ops N) idgen_client2_defaults rounds (g, net)) = Exit 0"
proof -
  show "fst (idgen_client_process br cf (\<lambda>ch. call_idgen ops N) idgen_client_defaults rands (g, net)) = Exit 0"
    using test_client_faults [OF assms(1,2), of idgen_client_defaults rands net] assms(3)
    by (auto simp: idgen_client_process_def through_channel_def idgen_client_defaults_def split: sum.split)
  show "fst (idgen_client2_process br cf (\<lambda>ch. call_idgen ops N) idgen_client2_defaults rounds (g, net)) = Exit 0"
    using test_client_logs_disjoint_blocks [OF assms(1,2), of idgen_client2_defaults rounds net] assms(3)
    by (auto simp: idgen_client2_process_def through_channel_def idgen_client2_defaults_def)
qed

section \<open>Witnesses\<close>

abbreviation some_flags :: idgen_client_flags where
  "some_flags \<equiv> \<lparr>fl_each_request_msgid_num = 3, fl_change_logid = 0, fl_unchange_user_id = 10, fl_user_id = 5\<rparr>"

lemma test_client_logs_disjoint_blocks_witness:
  "\<exists>log s'. idgen_client2_main (call_idgen map_db 4) some_flags 3
      (fresh_idgen (\<lambda>_. None), [Delivered, RequestLost 1 ''lost'']) = Inr (log, s') \<and>
    sorted_wrt (\<lambda>a b. mi_start_msg_id a + 3 \<le> mi_start_msg_id b) log"
  using test_client_logs_disjoint_blocks [OF fresh_map_db_inv, of 4 some_flags 3 "[Delivered, RequestLost 1 ''lost'']"]
  by auto

end
