(* ===== verification/DbProxy_Test.thy ===== *)
theory DbProxy_Test
  imports Startup
begin

text \<open>
  The test program of the database proxy (\<^verbatim>\<open>server/dbproxy/test.cc\<close>): two of the statements of
  the proxy on fixed arguments. \<open>test1\<close> is what its \<^verbatim>\<open>main\<close> runs, without parsing the command
  line, so with the flags as they are defined.
\<close>

section \<open>The program\<close>

definition test_range :: MsgIdRange where
  "test_range = \<lparr>ra_user_id = 123, ra_start_msg_id = 0, ra_end_msg_id = 100000\<rparr>"

text \<open>
  The pool is opened outside of the \<^verbatim>\<open>try\<close>. The result has the messages that are logged: none
  where the statement fails.
\<close>

definition test1 ::
  "('r, 'q) backends \<Rightarrow> (string \<Rightarrow> string \<Rightarrow> nat \<Rightarrow> string option) \<Rightarrow> dbproxy_flags \<Rightarrow> 'q \<Rightarrow> fault + Msg list \<times> 'q" where
  "test1 be so fl q =
     fbind (open_sessions (so (df_db_name fl) (df_db_connect_info fl)) [0..<10]) (\<lambda>_.
       (case sql_messages (be_mysql be) q (\<lambda>tbl. msgs_where test_range) of
          (q', Inl e) \<Rightarrow> Inr ([], q')
        | (q', Inr rs) \<Rightarrow> Inr (map (row_msg (ra_user_id test_range)) rs, q')))"

text \<open>
  \<open>test2\<close> has no \<^verbatim>\<open>try\<close>: what the statement throws ends the process. Its result is what is logged:
  \<^verbatim>\<open>msg_id\<close>, \<^verbatim>\<open>client_time\<close>, \<^verbatim>\<open>msg_time\<close>, zeros without a row.
\<close>

definition test2 ::
  "('r, 'q) backends \<Rightarrow> (string \<Rightarrow> string \<Rightarrow> nat \<Rightarrow> string option) \<Rightarrow> dbproxy_flags \<Rightarrow> 'q \<Rightarrow>
   fault + (int \<times> int \<times> int) \<times> 'q" where
  "test2 be so fl q =
     fbind (open_sessions (so (df_db_name fl) (df_db_connect_info fl)) [0..<10]) (\<lambda>_.
       (case sql_messages (be_mysql be) q (last_sent_where 123) of
          (q', Inl e) \<Rightarrow> Inl (Uncaught e)
        | (q', Inr rs) \<Rightarrow> Inr (last_from_rows rs, q')))"

text \<open>\<^verbatim>\<open>main\<close> returns 0 whatever \<open>test1\<close> saw.\<close>

definition test_main ::
  "('r, 'q) backends \<Rightarrow> (string \<Rightarrow> string \<Rightarrow> nat \<Rightarrow> string option) \<Rightarrow> dbproxy_flags \<Rightarrow> 'q \<Rightarrow> unit process" where
  "test_main be so fl q = (case test1 be so fl q of Inl f \<Rightarrow> Abort f | Inr r \<Rightarrow> Exit 0)"

section \<open>It tests the statements of the proxy\<close>

text \<open>
  Where the connections open, \<open>test1\<close> logs exactly the messages that the handler \<open>GetMsgs\<close> answers
  for that range, and none where the handler answers an error.
\<close>

lemma test1_agrees:
  assumes "open_sessions (so (df_db_name fl) (df_db_connect_info fl)) [0..<10] = Inr ()"
    and "GetMsgs be test_range w = (w', r)"
  shows "test1 be so fl (dp_sql w db_message_connect_pool) =
    Inr (case r of Inl e \<Rightarrow> [] | Inr msgs \<Rightarrow> msgs, dp_sql w' db_message_connect_pool)"
  using assms
  by (auto simp: test1_def GetMsgs_def Let_def ChooseDatabase_def set_sql_def split: prod.splits sum.splits)

text \<open>
  \<open>test2\<close> logs exactly what \<open>GetUserLastSendData\<close> answers for user 123 when redis has no value.
\<close>

lemma test2_agrees:
  assumes "open_sessions (so (df_db_name fl) (df_db_connect_info fl)) [0..<10] = Inr ()"
    and "redis_CallMethod be (cmd_get (be_redis be) (last_send_key 123)) w = (w1, Inr RNil)"
    and "GetUserLastSendData be 123 w = (w', Inr d)"
  shows "\<exists>l. test2 be so fl (dp_sql w1 db_message_connect_pool) = Inr (l, dp_sql w' db_message_connect_pool) \<and>
    d = last_answer l"
  using assms
  by (auto simp: test2_def GetUserLastSendData_def Let_def ChooseDatabase_def set_sql_def simp del: split_paired_Ex
      split: prod.splits sum.splits)

text \<open>A connection that does not open ends either test with what soci reports.\<close>

lemma test_connection_aborts:
  assumes "open_sessions (so (df_db_name fl) (df_db_connect_info fl)) [0..<10] = Inl (Uncaught what)"
  shows "test_main be so fl q = Abort (Uncaught what)" "test2 be so fl q = Inl (Uncaught what)"
  using assms by (simp_all add: test_main_def test1_def test2_def)

end
