(* ===== verification/ConsistentHash.thy ===== *)
theory ConsistentHash
  imports Prelude "HOL-Library.Word"
begin

text \<open>
  The hash ring of \<^verbatim>\<open>util/consistent_hash.h\<close>. \<^verbatim>\<open>std::map<uint32_t, vnode_t>\<close> is the list of
  its pairs in the order of the keys; the arithmetic on keys is the 32-bit one of the code.
  brpc's checksum is the parameter \<open>crc32c\<close>.
\<close>

record vnode_t =
  node_id :: int
  vnode_id :: int

type_synonym ring = "(32 word \<times> vnode_t) list"

text \<open>The eight bytes of a \<^verbatim>\<open>vnode_t\<close>, two little-endian 32-bit integers.\<close>

definition le_bytes4 :: "int \<Rightarrow> nat list" where
  "le_bytes4 i = map (\<lambda>k. nat (i div 256 ^ k mod 256)) [0..<4]"

definition vnode_hash :: "(nat list \<Rightarrow> 32 word) \<Rightarrow> vnode_t \<Rightarrow> 32 word" where
  "vnode_hash crc32c v = crc32c (le_bytes4 (node_id v) @ le_bytes4 (vnode_id v))"

section \<open>The operations\<close>

definition ring_size :: "ring \<Rightarrow> nat" where
  "ring_size nodes = length nodes"

definition ring_empty :: "ring \<Rightarrow> bool" where
  "ring_empty nodes \<longleftrightarrow> nodes = []"

text \<open>\<^verbatim>\<open>emplace\<close> leaves an entry of the key alone; the flag says whether it inserted.\<close>

fun emplace :: "32 word \<Rightarrow> vnode_t \<Rightarrow> ring \<Rightarrow> ring \<times> bool" where
  "emplace k v [] = ([(k, v)], True)"
| "emplace k v ((k', v') # r) =
     (if k < k' then ((k, v) # (k', v') # r, True)
      else if k = k' then ((k', v') # r, False)
      else (case emplace k v r of (r', b) \<Rightarrow> ((k', v') # r', b)))"

definition ring_insert :: "(nat list \<Rightarrow> 32 word) \<Rightarrow> vnode_t \<Rightarrow> ring \<Rightarrow> ring \<times> bool" where
  "ring_insert crc32c node nodes = emplace (vnode_hash crc32c node) node nodes"

text \<open>\<^verbatim>\<open>erase\<close> by position (an iterator) and by node; the latter answers how many it erased.\<close>

definition erase_at :: "nat \<Rightarrow> ring \<Rightarrow> fault + ring" where
  "erase_at i nodes = (if i < length nodes then Inr (take i nodes @ drop (Suc i) nodes) else Inl OutOfBounds)"

definition ring_erase :: "(nat list \<Rightarrow> 32 word) \<Rightarrow> vnode_t \<Rightarrow> ring \<Rightarrow> ring \<times> nat" where
  "ring_erase crc32c node nodes =
     (let r = filter (\<lambda>(k, v). k \<noteq> vnode_hash crc32c node) nodes in (r, length nodes - length r))"

definition lower_bound :: "32 word \<Rightarrow> ring \<Rightarrow> ring" where
  "lower_bound h nodes = dropWhile (\<lambda>(k, v). k < h) nodes"

text \<open>
  \<open>ndebug\<close> is whether assertions are compiled out. Reading through \<^verbatim>\<open>begin()\<close> of an empty map
  is undefined.
\<close>

definition ring_find :: "bool \<Rightarrow> 32 word \<Rightarrow> ring \<Rightarrow> fault + int" where
  "ring_find ndebug h nodes =
     (if \<not> ndebug \<and> \<not> ring_empty nodes then Inl AssertFailed
      else (case lower_bound h nodes of
          (k, v) # _ \<Rightarrow> Inr (node_id v)
        | [] \<Rightarrow> (case nodes of (k, v) # _ \<Rightarrow> Inr (node_id v) | [] \<Rightarrow> Inl OutOfBounds)))"

text \<open>
  \<^verbatim>\<open>Describe\<close> adds up the arcs of each node in an array with an element for each id up to the
  largest. \<open>None\<close> is the output \<^verbatim>\<open>null\<close>.
\<close>

definition add_at :: "int list \<Rightarrow> int \<Rightarrow> int \<Rightarrow> fault + int list" where
  "add_at sums i n =
     (if 0 \<le> i \<and> nat i < length sums then Inr (sums[nat i := sums ! nat i + n]) else Inl OutOfBounds)"

fun walk :: "32 word \<Rightarrow> ring \<Rightarrow> int list \<Rightarrow> fault + int list" where
  "walk priv [] sums = Inr sums"
| "walk priv ((cur, v) # r) sums = fbind (add_at sums (node_id v) (uint (cur - priv))) (walk cur r)"

definition max_node_id :: "ring \<Rightarrow> int" where
  "max_node_id nodes = fold (\<lambda>(k, v) m. max m (node_id v)) nodes (- 1)"

definition Describe :: "ring \<Rightarrow> fault + int list option" where
  "Describe nodes =
     (if max_node_id nodes = - 1 then Inr None
      else (case nodes of
          [] \<Rightarrow> Inr None
        | (first, v) # r \<Rightarrow>
            fbind (i32 (max_node_id nodes + 1)) (\<lambda>n.
            fbind (add_at (replicate (nat n) 0) (node_id v)
                (uint (0xFFFFFFFF - fst (last nodes) + first))) (\<lambda>sums.
            fbind (walk first r sums) (\<lambda>sums. Inr (Some sums))))))"

section \<open>The ring is kept in order\<close>

definition ring_ok :: "ring \<Rightarrow> bool" where
  "ring_ok nodes \<longleftrightarrow> sorted_wrt (<) (map fst nodes)"

lemma ring_ok_simps [simp]:
  "ring_ok []" "ring_ok ((k, v) # r) \<longleftrightarrow> (\<forall>x \<in> set r. k < fst x) \<and> ring_ok r"
  by (auto simp: ring_ok_def)

lemma emplace_set:
  "ring_ok r \<Longrightarrow> set (fst (emplace k v r)) = (if k \<in> fst ` set r then set r else insert (k, v) (set r))"
proof (induction k v r rule: emplace.induct)
  case (2 k v k' v' r)
  have not_in: "k \<le> k' \<Longrightarrow> k \<notin> fst ` set r" using "2.prems" by force
  show ?case
  proof (cases "k < k'")
    case True
    with not_in show ?thesis by auto
  next
    case False
    show ?thesis
    proof (cases "k = k'")
      case True
      then show ?thesis by simp
    next
      case ne: False
      obtain r' c where e: "emplace k v r = (r', c)" by fastforce
      from 2 False ne e have "set r' = (if k \<in> fst ` set r then set r else insert (k, v) (set r))" by simp
      with False ne e show ?thesis by (cases "k \<in> fst ` set r") auto
    qed
  qed
qed simp

lemma emplace_ok: "ring_ok r \<Longrightarrow> ring_ok (fst (emplace k v r))"
proof (induction k v r rule: emplace.induct)
  case (2 k v k' v' r)
  then show ?case
    using emplace_set [of r k v] by (auto split: prod.split if_splits)
qed simp

lemma filter_ok: "ring_ok r \<Longrightarrow> ring_ok (filter P r)"
  by (auto simp: ring_ok_def sorted_wrt_map sorted_wrt_filter)

lemma ring_ok_unique: "ring_ok r \<Longrightarrow> (k, v) \<in> set r \<Longrightarrow> (k, v') \<in> set r \<Longrightarrow> v = v'"
  by (induction r) fastforce+

section \<open>The clockwise distance\<close>

text \<open>
  \<open>k - h\<close> in 32-bit arithmetic is how far \<open>k\<close> lies clockwise of \<open>h\<close>. The owner of a hash is
  the entry with the least distance.
\<close>

lemma dist_unat: "unat (k - h) = (if h \<le> k then unat k - unat h else unat k + 2 ^ 32 - unat h)"
  for k h :: "32 word"
  by (simp add: unat_sub_if' word_le_nat_alt)

lemma dist_le:
  fixes k k' h :: "32 word"
  shows "h \<le> k \<Longrightarrow> k \<le> k' \<Longrightarrow> k - h \<le> k' - h" and "h \<le> k \<Longrightarrow> k' < h \<Longrightarrow> k - h \<le> k' - h"
    and "k \<le> k' \<Longrightarrow> k' < h \<Longrightarrow> k - h \<le> k' - h"
  using unsigned_less [of k, where 'a = nat] unsigned_less [of h, where 'a = nat]
  by (auto simp: word_le_nat_alt dist_unat word_less_nat_alt)

definition owner :: "32 word \<Rightarrow> (32 word \<times> vnode_t) set \<Rightarrow> 32 word \<times> vnode_t \<Rightarrow> bool" where
  "owner h S x \<longleftrightarrow> x \<in> S \<and> (\<forall>y \<in> S. fst x - h \<le> fst y - h)"

lemma owner_unique:
  assumes "ring_ok r" "owner h (set r) x" "owner h (set r) y"
  shows "x = y"
proof -
  have "fst x - h \<le> fst y - h" "fst y - h \<le> fst x - h" using assms(2,3) unfolding owner_def by blast+
  then have "fst x - h = fst y - h" by (rule order.antisym)
  then have "fst x = fst y" by simp
  with ring_ok_unique [OF assms(1)] assms(2,3) show ?thesis
    by (cases x; cases y) (auto simp: owner_def)
qed

lemma lower_bound_owner:
  assumes "ring_ok r" "lower_bound h r = x # xs"
  shows "owner h (set r) x"
  using assms
proof (induction r)
  case (Cons a r)
  obtain k v where a: "a = (k, v)" by fastforce
  show ?case
  proof (cases "k < h")
    case True
    with Cons a have o: "owner h (set r) x" by (auto simp: lower_bound_def)
    moreover have "\<not> fst x < h"
      using Cons.prems(2) unfolding lower_bound_def by (metis hd_dropWhile list.sel(1) list.distinct(1) split_beta)
    ultimately show ?thesis using True a dist_le(2) [of h "fst x" k] by (auto simp: owner_def not_less)
  next
    case False
    with Cons.prems(2) a have "x = (k, v)" by (auto simp: lower_bound_def)
    moreover have "k - h \<le> fst y - h" if "y \<in> set r" for y
      using False Cons.prems(1) a that by (intro dist_le(1)) (auto simp: less_imp_le)
    ultimately show ?thesis using a by (auto simp: owner_def)
  qed
qed (simp add: lower_bound_def)

lemma wrapped_owner:
  assumes "ring_ok (x # r)" "lower_bound h (x # r) = []"
  shows "owner h (set (x # r)) x"
proof -
  have "\<forall>y \<in> set (x # r). fst y < h"
    using assms(2) by (auto simp: lower_bound_def dropWhile_eq_Nil_conv split: prod.splits if_splits)
  moreover have "\<forall>y \<in> set (x # r). fst x \<le> fst y"
    using assms(1) by (cases x) (auto intro: less_imp_le)
  ultimately show ?thesis by (auto simp: owner_def intro: dist_le(3))
qed

lemma find_owner:
  assumes "ring_ok r" "r \<noteq> []"
  obtains x where "owner h (set r) x" "ring_find True h r = Inr (node_id (snd x))"
proof (cases "lower_bound h r")
  case Nil
  obtain x r' where r: "r = x # r'" using assms(2) by (cases r) auto
  with Nil assms(1) wrapped_owner [of x r' h] show ?thesis
    by (intro that [of x]) (auto simp: ring_find_def split: prod.split)
next
  case (Cons x xs)
  with lower_bound_owner [OF assms(1) Cons] show ?thesis
    by (intro that [of x]) (auto simp: ring_find_def split: prod.split)
qed

lemma find_iff_owner:
  assumes "ring_ok r" "owner h (set r) x"
  shows "ring_find True h r = Inr (node_id (snd x))"
proof -
  have "r \<noteq> []" using assms(2) by (auto simp: owner_def)
  from find_owner [OF assms(1) this, of h] obtain y where
    "owner h (set r) y" "ring_find True h r = Inr (node_id (snd y))" by blast
  with owner_unique [OF assms] show ?thesis by blast
qed

end
