(* ===== verification/ConsistentHash_Claims.thy ===== *)
theory ConsistentHash_Claims
  imports ConsistentHash
begin

text \<open>
  The properties of the hash ring: which node a hash belongs to, that a change of the ring
  moves only the hashes it has to, and the arithmetic of \<^verbatim>\<open>Describe\<close>.
\<close>

section \<open>Looking up\<close>

text \<open>
  With assertions compiled out, \<^verbatim>\<open>find\<close> on a ring that is not empty answers the node of
  the entry whose key lies nearest clockwise of the hash, the wrap past the largest 32-bit
  value included.
\<close>

lemma find_is_nearest_clockwise:
  assumes "ring_ok nodes" "nodes \<noteq> []"
  shows "\<exists>k v. (k, v) \<in> set nodes \<and> ring_find True h nodes = Inr (node_id v) \<and>
    list_all (\<lambda>(k', v'). k - h \<le> k' - h) nodes"
proof -
  from find_owner [OF assms, of h] obtain x where
    "owner h (set nodes) x" "ring_find True h nodes = Inr (node_id (snd x))" .
  then show ?thesis
    by (intro exI [of _ "fst x"] exI [of _ "snd x"]) (auto simp: owner_def list_all_iff)
qed

text \<open>
  Inserting a node moves hashes only to that node: every hash keeps its node or gets
  the new one.
\<close>

lemma insert_moves_only_to_new_node:
  assumes "ring_ok nodes" "nodes \<noteq> []"
  shows "ring_find True h (fst (ring_insert crc32c node nodes)) \<in> {ring_find True h nodes, Inr (node_id node)}"
proof -
  let ?k = "vnode_hash crc32c node" and ?r = "fst (ring_insert crc32c node nodes)"
  have r: "ring_ok ?r" using emplace_ok [OF assms(1)] by (simp add: ring_insert_def)
  have s: "set ?r = (if ?k \<in> fst ` set nodes then set nodes else insert (?k, node) (set nodes))"
    using emplace_set [OF assms(1)] by (simp add: ring_insert_def)
  then have "?r \<noteq> []" using assms(2) by (auto split: if_splits)
  from find_owner [OF r this, of h] obtain x where x: "owner h (set ?r) x"
    "ring_find True h ?r = Inr (node_id (snd x))" .
  show ?thesis
  proof (cases "x \<in> set nodes")
    case True
    then have "owner h (set nodes) x" using x(1) s by (auto simp: owner_def split: if_splits)
    from find_iff_owner [OF assms(1) this] x(2) show ?thesis by simp
  next
    case False
    with x s have "x = (?k, node)" by (auto simp: owner_def split: if_splits)
    with x(2) show ?thesis by simp
  qed
qed

text \<open>
  Erasing a node moves no hash that did not belong to it.
\<close>

lemma erase_keeps_other_owners:
  assumes "ring_ok nodes" and "(vnode_hash crc32c node, node) \<in> set nodes" and "nodes \<noteq> []"
    and "ring_find True h nodes \<noteq> Inr (node_id node)"
  shows "ring_find True h (fst (ring_erase crc32c node nodes)) = ring_find True h nodes"
proof -
  let ?r = "fst (ring_erase crc32c node nodes)"
  from find_owner [OF assms(1,3), of h] obtain x where x: "owner h (set nodes) x"
    "ring_find True h nodes = Inr (node_id (snd x))" .
  have "fst x \<noteq> vnode_hash crc32c node"
  proof
    assume "fst x = vnode_hash crc32c node"
    with ring_ok_unique [OF assms(1,2), of "snd x"] x(1) have "snd x = node"
      by (cases x) (auto simp: owner_def)
    with x(2) assms(4) show False by simp
  qed
  with x(1) have "owner h (set ?r) x" by (auto simp: owner_def ring_erase_def Let_def)
  moreover have "ring_ok ?r" using filter_ok [OF assms(1)] by (simp add: ring_erase_def Let_def)
  ultimately show ?thesis using find_iff_owner x(2) by metis
qed

text \<open>
  With assertions compiled in, \<^verbatim>\<open>find\<close> never answers: its assertion is that the ring is
  empty, so a ring with a node aborts and an empty one is read out of bounds.
\<close>

lemma find_never_answers_with_assertions:
  "isl (ring_find False h nodes)"
  by (auto simp: ring_find_def ring_empty_def lower_bound_def)

section \<open>The ring as a map\<close>

text \<open>
  A user of the ring calls its operations one after the other and reads their answers; an
  operation that faults ends the process.
\<close>

datatype ring_op = Insert vnode_t | Erase vnode_t | Find "32 word" | Size | Empty

datatype ring_answer = Flag bool | Count nat | Node int

fun ring_do :: "bool \<Rightarrow> (nat list \<Rightarrow> 32 word) \<Rightarrow> ring_op \<Rightarrow> ring \<Rightarrow> fault + (ring_answer \<times> ring)" where
  "ring_do ndebug crc32c (Insert v) nodes = (case ring_insert crc32c v nodes of (r, b) \<Rightarrow> Inr (Flag b, r))"
| "ring_do ndebug crc32c (Erase v) nodes = (case ring_erase crc32c v nodes of (r, n) \<Rightarrow> Inr (Count n, r))"
| "ring_do ndebug crc32c (Find h) nodes = (case ring_find ndebug h nodes of Inl f \<Rightarrow> Inl f | Inr n \<Rightarrow> Inr (Node n, nodes))"
| "ring_do ndebug crc32c Size nodes = Inr (Count (ring_size nodes), nodes)"
| "ring_do ndebug crc32c Empty nodes = Inr (Flag (ring_empty nodes), nodes)"

fun ring_run ::
  "bool \<Rightarrow> (nat list \<Rightarrow> 32 word) \<Rightarrow> ring_op list \<Rightarrow> ring \<Rightarrow> ring_answer list \<times> (fault + ring)" where
  "ring_run ndebug crc32c [] nodes = ([], Inr nodes)"
| "ring_run ndebug crc32c (a # ops) nodes =
     (case ring_do ndebug crc32c a nodes of
        Inl f \<Rightarrow> ([], Inl f)
      | Inr (x, r) \<Rightarrow> (case ring_run ndebug crc32c ops r of (xs, e) \<Rightarrow> (x # xs, e)))"

text \<open>
  What a ring promises: it is a finite map from keys to nodes, in which an insertion does not
  replace and says whether it inserted, an erasure says how many nodes it removed, and a look-up
  answers a node whose key is nearest clockwise. In a build with assertions every look-up on a map
  that is not empty ends the process; a look-up on an empty one reads out of bounds.
\<close>

definition nearest :: "32 word \<Rightarrow> (32 word \<rightharpoonup> vnode_t) \<Rightarrow> int \<Rightarrow> bool" where
  "nearest h m n \<longleftrightarrow> (\<exists>k v. m k = Some v \<and> n = node_id v \<and> (\<forall>k' \<in> dom m. k - h \<le> k' - h))"

fun map_does ::
  "bool \<Rightarrow> (nat list \<Rightarrow> 32 word) \<Rightarrow> ring_op \<Rightarrow> (32 word \<rightharpoonup> vnode_t) \<Rightarrow>
   fault + (ring_answer \<times> (32 word \<rightharpoonup> vnode_t)) \<Rightarrow> bool" where
  "map_does ndebug crc32c (Insert v) m res \<longleftrightarrow> (let k = vnode_hash crc32c v in
     res = Inr (if m k = None then (Flag True, m(k \<mapsto> v)) else (Flag False, m)))"
| "map_does ndebug crc32c (Erase v) m res \<longleftrightarrow> (let k = vnode_hash crc32c v in
     res = Inr (Count (if m k = None then 0 else 1), m(k := None)))"
| "map_does ndebug crc32c (Find h) m res \<longleftrightarrow>
     (if m = Map.empty then res = Inl OutOfBounds
      else if ndebug then \<exists>n. nearest h m n \<and> res = Inr (Node n, m)
      else res = Inl AssertFailed)"
| "map_does ndebug crc32c Size m res \<longleftrightarrow> res = Inr (Count (card (dom m)), m)"
| "map_does ndebug crc32c Empty m res \<longleftrightarrow> res = Inr (Flag (m = Map.empty), m)"

fun map_runs ::
  "bool \<Rightarrow> (nat list \<Rightarrow> 32 word) \<Rightarrow> ring_op list \<Rightarrow> (32 word \<rightharpoonup> vnode_t) \<Rightarrow>
   ring_answer list \<Rightarrow> fault + (32 word \<rightharpoonup> vnode_t) \<Rightarrow> bool" where
  "map_runs ndebug crc32c [] m xs e \<longleftrightarrow> xs = [] \<and> e = Inr m"
| "map_runs ndebug crc32c (a # ops) m xs e \<longleftrightarrow>
     (\<exists>f. map_does ndebug crc32c a m (Inl f) \<and> xs = [] \<and> e = Inl f) \<or>
     (\<exists>x m' ys. map_does ndebug crc32c a m (Inr (x, m')) \<and> xs = x # ys \<and> map_runs ndebug crc32c ops m' ys e)"

lemma map_of_emplace:
  "ring_ok r \<Longrightarrow> map_of (fst (emplace k v r)) = (if map_of r k = None then (map_of r)(k \<mapsto> v) else map_of r) \<and>
   (snd (emplace k v r) \<longleftrightarrow> map_of r k = None)"
proof (induction k v r rule: emplace.induct)
  case (2 k v k' v' r)
  have "k < k' \<Longrightarrow> map_of r k = None" using "2.prems" by (force simp: map_of_eq_None_iff)
  with 2 show ?case by (auto simp: fun_eq_iff split: prod.split if_splits)
qed (simp add: fun_eq_iff)

lemma map_of_filter_key: "map_of (filter (\<lambda>(k, v). k \<noteq> a) r) = (map_of r)(a := None)"
  by (induction r) (auto simp: fun_eq_iff)

lemma length_filter_key:
  "ring_ok r \<Longrightarrow> length r - length (filter (\<lambda>(k, v). k \<noteq> a) r) = (if map_of r a = None then 0 else 1)"
proof (induction r)
  case (Cons x r)
  obtain k v where x: "x = (k, v)" by fastforce
  have "k = a \<Longrightarrow> filter (\<lambda>(k, v). k \<noteq> a) r = r"
    using Cons.prems x by (intro filter_True) (auto simp: case_prod_beta)
  moreover have "length (filter (\<lambda>(k, v). k \<noteq> a) r) \<le> length r" by simp
  ultimately show ?case using Cons x by (auto simp: Suc_diff_le split: if_splits)
qed simp

lemma card_ring: "ring_ok r \<Longrightarrow> card (dom (map_of r)) = length r"
proof -
  assume "ring_ok r"
  then have "distinct (map fst r)" unfolding ring_ok_def by (rule strict_sorted_iff [THEN iffD1, THEN conjunct2])
  then show ?thesis by (metis distinct_card dom_map_of_conv_image_fst length_map list.set_map)
qed

lemma ring_do_ok: "ring_ok r \<Longrightarrow> ring_do ndebug crc32c a r = Inr (x, r') \<Longrightarrow> ring_ok r'"
  by (cases a)
    (auto simp: ring_insert_def ring_erase_def Let_def filter_ok case_prod_beta emplace_ok split: sum.splits)

lemma ring_ok_map_of: "ring_ok r \<Longrightarrow> map_of r k = Some v \<longleftrightarrow> (k, v) \<in> set r"
  using ring_ok_unique [of r k] by (metis map_of_SomeD map_of_eq_None_iff fst_conv image_eqI not_Some_eq)

lemma nearest_owner:
  assumes "ring_ok r"
  shows "nearest h (map_of r) n \<longleftrightarrow> (\<exists>x. owner h (set r) x \<and> n = node_id (snd x))"
proof -
  have "owner h (set r) (k, v) \<longleftrightarrow> map_of r k = Some v \<and> (\<forall>k' \<in> dom (map_of r). k - h \<le> k' - h)" for k v
    by (auto simp: owner_def ring_ok_map_of [OF assms] dom_map_of_conv_image_fst)
  then show ?thesis by (auto simp: nearest_def)
qed

lemma find_nearest:
  assumes "ring_ok r" "r \<noteq> []"
  shows "nearest h (map_of r) n \<longleftrightarrow> ring_find True h r = Inr n"
proof -
  from find_owner [OF assms, of h] obtain x where
    x: "owner h (set r) x" "ring_find True h r = Inr (node_id (snd x))" .
  have "y = x" if "owner h (set r) y" for y using owner_unique [OF assms(1) that x(1)] .
  with x have "(\<exists>y. owner h (set r) y \<and> n = node_id (snd y)) \<longleftrightarrow> node_id (snd x) = n" by blast
  with x(2) show ?thesis unfolding nearest_owner [OF assms(1)] by simp
qed

text \<open>One operation of the ring is the operation of the map, answer and fault included.\<close>

lemma ring_do_map:
  assumes "ring_ok r"
  shows "map_does ndebug crc32c a (map_of r) res \<longleftrightarrow>
    res = map_sum id (map_prod id map_of) (ring_do ndebug crc32c a r)"
proof (cases a)
  case (Find h)
  show ?thesis
  proof (cases "r = []")
    case True
    with Find show ?thesis by (simp add: ring_find_def ring_empty_def lower_bound_def)
  next
    case False
    then have "map_of r \<noteq> Map.empty" by (cases r) (auto simp: fun_eq_iff)
    moreover obtain n where "ring_find True h r = Inr n" using find_owner [OF assms False] by blast
    ultimately show ?thesis
      using Find find_nearest [OF assms False] False by (cases ndebug) (auto simp: ring_find_def ring_empty_def)
  qed
next
  case (Insert v)
  obtain r' b where "emplace (vnode_hash crc32c v) v r = (r', b)" by fastforce
  with Insert map_of_emplace [OF assms, of "vnode_hash crc32c v" v] show ?thesis
    by (cases "map_of r (vnode_hash crc32c v)") (simp_all add: ring_insert_def Let_def)
next
  case (Erase v)
  with length_filter_key [OF assms] show ?thesis
    by (simp add: ring_erase_def Let_def map_of_filter_key)
next
  case Size
  with card_ring [OF assms] show ?thesis by (simp add: ring_size_def)
next
  case Empty
  have "map_of r = Map.empty \<longleftrightarrow> r = []" by (cases r) (auto simp: fun_eq_iff)
  with Empty show ?thesis by (simp add: ring_empty_def)
qed

lemma ring_run_map:
  "ring_ok r \<Longrightarrow> map_runs ndebug crc32c ops (map_of r) xs e \<longleftrightarrow>
     xs = fst (ring_run ndebug crc32c ops r) \<and> e = map_sum id map_of (snd (ring_run ndebug crc32c ops r))"
proof (induction ops arbitrary: r xs)
  case (Cons a ops)
  show ?case
  proof (cases "ring_do ndebug crc32c a r")
    case (Inl f)
    then show ?thesis by (auto simp: ring_do_map [OF Cons.prems])
  next
    case (Inr b)
    obtain x r' where b: "b = (x, r')" by fastforce
    from ring_do_ok [OF Cons.prems Inr [unfolded b]] have "ring_ok r'" .
    note IH = Cons.IH [OF this]
    obtain ys e' where "ring_run ndebug crc32c ops r' = (ys, e')" by fastforce
    with IH Inr b show ?thesis by (auto simp: ring_do_map [OF Cons.prems])
  qed
qed auto

lemma ring_run_ok: "ring_ok r \<Longrightarrow> snd (ring_run ndebug crc32c ops r) = Inr r' \<Longrightarrow> ring_ok r'"
  by (induction ops arbitrary: r) (auto dest: ring_do_ok split: sum.splits prod.splits)

text \<open>
  C19: whatever operations are called on a new ring, in whatever order and however the hashes
  collide, the answers and the end of the run are exactly those that the map allows: an insertion of a
  key that is there is refused, an erasure counts what it removes, and in a build without assertions
  a look-up answers the node that is nearest clockwise. In a build with assertions the first look-up on a
  ring that is not empty ends the process (the assertion of \<^verbatim>\<open>find\<close> is inverted), and in either
  build the first look-up on an empty ring reads out of bounds.
\<close>

theorem ring_refines_map:
  "map_runs ndebug crc32c ops Map.empty xs e \<longleftrightarrow>
   xs = fst (ring_run ndebug crc32c ops []) \<and> e = map_sum id map_of (snd (ring_run ndebug crc32c ops []))"
  using ring_run_map [of "[]" ndebug crc32c ops xs e] by simp

section \<open>Describe\<close>

lemma sum_list_add_at: "k < length s \<Longrightarrow> sum_list (s[k := s ! k + n]) = sum_list s + (n::int)"
  by (induction s arbitrary: k) (auto split: nat.split)

lemma add_at_sum: "add_at s i n = Inr s' \<Longrightarrow> sum_list s' = sum_list s + n \<and> length s' = length s"
  by (auto simp: add_at_def sum_list_add_at split: if_splits)

lemma uint_diff_le: "p \<le> c \<Longrightarrow> uint (c - p) = uint c - uint p" for c p :: "32 word"
  by (simp add: uint_sub_if' word_le_def)

lemma walk_sum:
  "\<lbrakk> ring_ok ((priv, v) # r); walk priv r s = Inr s' \<rbrakk> \<Longrightarrow>
   sum_list s' = sum_list s + (uint (fst (last ((priv, v) # r))) - uint priv)"
proof (induction r arbitrary: priv v s)
  case (Cons a r)
  obtain cur u where a: "a = (cur, u)" by fastforce
  from Cons.prems(2) a obtain s1 where s1: "add_at s (node_id u) (uint (cur - priv)) = Inr s1"
    and w: "walk cur r s1 = Inr s'" by (auto simp: fbind_Inr)
  have "priv \<le> cur" and ok: "ring_ok ((cur, u) # r)" using Cons.prems(1) a by (auto simp: less_imp_le)
  with Cons.IH [OF ok w] add_at_sum [OF s1] uint_diff_le show ?case by (simp add: a)
qed simp

lemma max_fold:
  "m \<le> fold (\<lambda>(k, v) m. max m (node_id v)) r m \<and>
   (\<forall>x \<in> set r. node_id (snd x) \<le> fold (\<lambda>(k, v) m. max m (node_id v)) r m)"
proof (induction r arbitrary: m)
  case (Cons a r)
  obtain k v where "a = (k, v)" by fastforce
  with Cons.IH [of "max m (node_id v)"] show ?case by auto
qed simp

lemma max_node_id_ge: "x \<in> set r \<Longrightarrow> node_id (snd x) \<le> max_node_id r"
  using max_fold by (auto simp: max_node_id_def)

lemma walk_total:
  "\<forall>x \<in> set r. 0 \<le> node_id (snd x) \<and> node_id (snd x) < int (length s) \<Longrightarrow> \<exists>s'. walk priv r s = Inr s'"
proof (induction r arbitrary: priv s)
  case (Cons a r)
  obtain cur u where a: "a = (cur, u)" by fastforce
  then have "add_at s (node_id u) (uint (cur - priv)) =
      Inr (s[nat (node_id u) := s ! nat (node_id u) + uint (cur - priv)])"
    using Cons.prems by (auto simp: add_at_def)
  with Cons.IH [of "s[nat (node_id u) := s ! nat (node_id u) + uint (cur - priv)]" cur] Cons.prems a
  show ?case by simp
qed simp

lemma max_node_id_in: "nodes \<noteq> [] \<Longrightarrow> \<forall>x \<in> set nodes. 0 \<le> node_id (snd x) \<Longrightarrow> \<exists>x \<in> set nodes. max_node_id nodes = node_id (snd x)"
proof -
  have "fold (\<lambda>(k, v) m. max m (node_id v)) r m = m \<or> (\<exists>x \<in> set r. fold (\<lambda>(k, v) m. max m (node_id v)) r m = node_id (snd x))"
    for r :: ring and m
  proof (induction r arbitrary: m)
    case (Cons a r)
    obtain k v where "a = (k, v)" by fastforce
    with Cons.IH [of "max m (node_id v)"] show ?case by (auto simp: max_def split: if_splits)
  qed simp
  note c = this [of nodes "- 1"]
  assume "nodes \<noteq> []" and ge: "\<forall>x \<in> set nodes. 0 \<le> node_id (snd x)"
  then obtain x where "x \<in> set nodes" by (cases nodes) auto
  with ge max_node_id_ge [of x nodes] have "0 \<le> max_node_id nodes" by fastforce
  with c show ?thesis by (auto simp: max_node_id_def)
qed

text \<open>
  C31: whatever has been inserted into a new ring, when the ids of its nodes are not negative and
  below the largest \<^verbatim>\<open>int\<close>, \<^verbatim>\<open>Describe\<close> stays inside its array, and the arcs it reports add up
  to \<open>2 ^ 32 - 1\<close>: one less than the ring has points, because the arc over zero is computed one short.
\<close>

theorem described_arcs_are_one_short:
  assumes "ring_run ndebug crc32c ops [] = (xs, Inr nodes)" "nodes \<noteq> []"
    and ids: "\<forall>x \<in> set nodes. 0 \<le> node_id (snd x) \<and> node_id (snd x) < 2 ^ 31 - 1"
  shows "\<exists>sums. Describe nodes = Inr (Some sums) \<and> sum_list sums = 2 ^ 32 - 1"
proof -
  have ok: "ring_ok nodes" using ring_run_ok [of "[]" ndebug crc32c ops] assms(1) by simp
  have pos: "\<forall>x \<in> set nodes. 0 \<le> node_id (snd x)" using ids by blast
  obtain first v r where n: "nodes = (first, v) # r" using assms(2) by (cases nodes) auto
  let ?m = "max_node_id nodes" and ?last = "fst (last nodes)"
  have m: "node_id v \<le> ?m" using max_node_id_ge [of "(first, v)" nodes] n by simp
  with pos n have m0: "0 \<le> ?m" by auto
  have i: "i32 (?m + 1) = Inr (?m + 1)"
    using max_node_id_in [OF assms(2) pos] ids m0 by (auto simp: i32_def in_i32_def)
  let ?n = "uint (0xFFFFFFFF - ?last + first)" and ?s = "replicate (nat (?m + 1)) (0::int)"
  obtain s1 where s1: "add_at ?s (node_id v) ?n = Inr s1"
    using pos n m by (auto simp: add_at_def)
  note sum1 = add_at_sum [OF s1]
  have "\<forall>x \<in> set r. 0 \<le> node_id (snd x) \<and> node_id (snd x) < int (length s1)"
    using pos n max_node_id_ge [of _ nodes] sum1 m0 by fastforce
  from walk_total [OF this] obtain s2 where s2: "walk first r s1 = Inr s2" by blast
  have "first \<le> ?last" using ok n by (auto simp: less_imp_le)
  then have "?n = 2 ^ 32 - 1 - uint ?last + uint first"
  proof -
    assume le: "first \<le> ?last"
    have eq: "0xFFFFFFFF - ?last + first = 0xFFFFFFFF - (?last - first)" by simp
    have le2: "?last - first \<le> 0xFFFFFFFF" using unsigned_less [of "?last - first", where 'a = int] by (simp add: word_le_def)
    show ?thesis unfolding eq using uint_diff_le [OF le2] uint_diff_le [OF le] by simp
  qed
  moreover have "sum_list s2 = sum_list s1 + (uint ?last - uint first)"
    using walk_sum [of first v r s1 s2] s2 ok n by simp
  ultimately have "sum_list s2 = 2 ^ 32 - 1" using sum1 by (simp add: sum_list_replicate)
  moreover have "Describe nodes = Inr (Some s2)"
  proof -
    have "Describe nodes = fbind (i32 (?m + 1)) (\<lambda>c. fbind (add_at (replicate (nat c) 0) (node_id v) ?n)
        (\<lambda>sums. fbind (walk first r sums) (\<lambda>sums. Inr (Some sums))))"
      using m0 by (simp add: Describe_def n)
    then show ?thesis by (simp only: i fbind_simps s1 s2)
  qed
  ultimately show ?thesis by blast
qed

section \<open>Witnesses\<close>

abbreviation nodes3 :: ring where
  "nodes3 \<equiv> [(10, \<lparr>node_id = 0, vnode_id = 0\<rparr>), (20, \<lparr>node_id = 1, vnode_id = 0\<rparr>), (30, \<lparr>node_id = 0, vnode_id = 1\<rparr>)]"

abbreviation sum_hash :: "nat list \<Rightarrow> 32 word" where
  "sum_hash bs \<equiv> of_nat (5 + 15 * sum_list bs)"

lemma find_is_nearest_clockwise_witness:
  "\<exists>k v. (k, v) \<in> set nodes3 \<and> Inr 0 = (Inr (node_id v) :: fault + int) \<and> list_all (\<lambda>(k', v'). k - 31 \<le> k' - 31) nodes3"
  using find_is_nearest_clockwise [of nodes3 31] by (simp add: ring_find_def lower_bound_def)

lemma insert_moves_only_to_new_node_witness:
  "ring_find True 4 (fst (ring_insert sum_hash \<lparr>node_id = 2, vnode_id = 1\<rparr> nodes3)) \<in> {Inr 0, Inr 2}"
  using insert_moves_only_to_new_node [of nodes3 4 sum_hash "\<lparr>node_id = 2, vnode_id = 1\<rparr>"]
  by (simp add: ring_find_def lower_bound_def)

lemma erase_keeps_other_owners_witness:
  "ring_find True 25 (fst (ring_erase sum_hash \<lparr>node_id = 1, vnode_id = 0\<rparr> nodes3)) = Inr 0"
proof -
  have "(vnode_hash sum_hash \<lparr>node_id = 1, vnode_id = 0\<rparr>, \<lparr>node_id = 1, vnode_id = 0\<rparr>) \<in> set nodes3"
    by (simp add: vnode_hash_def le_bytes4_def eval_nat_numeral)
  from erase_keeps_other_owners [OF _ this, of 25] show ?thesis
    by (simp add: ring_find_def lower_bound_def)
qed

theorem described_arcs_are_one_short_witness:
  "\<exists>sums. Describe [(5, \<lparr>node_id = 0, vnode_id = 0\<rparr>), (20, \<lparr>node_id = 1, vnode_id = 0\<rparr>)] = Inr (Some sums) \<and>
     sum_list sums = 2 ^ 32 - 1"
proof -
  have "ring_run False sum_hash [Insert \<lparr>node_id = 1, vnode_id = 0\<rparr>, Insert \<lparr>node_id = 0, vnode_id = 0\<rparr>] [] =
      ([Flag True, Flag True], Inr [(5, \<lparr>node_id = 0, vnode_id = 0\<rparr>), (20, \<lparr>node_id = 1, vnode_id = 0\<rparr>)])"
    by code_simp
  from described_arcs_are_one_short [OF this] show ?thesis by simp
qed

end
