(* ===== verification/Client_Heartbeat.thy ===== *)
theory Client_Heartbeat
  imports Client
begin

text \<open>
  The heartbeat timer of the client, with its two threads interleaved: the main thread turns
  the timer off before it sends a message and on after the answer, the handler of the timer
  turns it on again when it is done. The threads do not know of each other, so a deletion may
  come when the handler has already started. The chains of heartbeats are counted.
\<close>

text \<open>
  A configuration: the shared object, how many handlers are running, and whether the main
  thread is in the loop that sends a message.
\<close>

type_synonym 'tm hb_config = "'tm heartbeat \<times> nat \<times> bool"

datatype hb_label = HbFire nat | HbHandled int | SendBegins int | SendAnswered msg_id_t int

inductive hb_step ::
  "'tm timer_ops \<Rightarrow> ('tm \<Rightarrow> nat \<Rightarrow> timer_view) \<Rightarrow> 'w access_api \<Rightarrow> user_id_t \<Rightarrow> int \<Rightarrow> 'tm hb_config \<Rightarrow> hb_label \<Rightarrow> 'tm hb_config \<Rightarrow> bool"
  for ops view api user_id internal_s where
  hb_fire: "view (hb_timers s) i = Pending a \<Longrightarrow> view tm = (view (hb_timers s))(i := Gone) \<Longrightarrow>
    hb_step ops view api user_id internal_s (s, n, b) (HbFire i) (s\<lparr>hb_timers := tm\<rparr>, Suc n, b)"
| hb_handled: "HeartBeatTimeOutHeadler ops api internal_s user_id now_us s w = Inr (s', w') \<Longrightarrow>
    hb_step ops view api user_id internal_s (s, Suc n, b) (HbHandled now_us) (s', n, b)"
| hb_begins: "hb_del ops s = (r, s') \<Longrightarrow>
    hb_step ops view api user_id internal_s (s, n, False) (SendBegins r) (s', n, True)"
| hb_answered: "heartbeat_on ops internal_s msg_id now_us s = Inr s' \<Longrightarrow>
    hb_step ops view api user_id internal_s (s, n, True) (SendAnswered msg_id now_us) (s', n, False)"

inductive_cases hb_stepE: "hb_step ops view api user_id internal_s x l y"

section \<open>Counting the timers\<close>

definition pending_timers :: "('tm \<Rightarrow> nat \<Rightarrow> timer_view) \<Rightarrow> 'tm heartbeat \<Rightarrow> nat set" where
  "pending_timers view s = {i. pend view (hb_timers s) i \<noteq> None}"

text \<open>
  A chain of heartbeats is a timer that waits, a handler that runs, or the main thread while
  it sends, which will arm the timer when it is answered.
\<close>

definition chains :: "('tm \<Rightarrow> nat \<Rightarrow> timer_view) \<Rightarrow> 'tm hb_config \<Rightarrow> nat" where
  "chains view x = (case x of (s, n, b) \<Rightarrow> card (pending_timers view s) + n + (if b then 1 else 0))"

fun missed :: "hb_label \<Rightarrow> bool" where
  "missed (SendBegins r) = (r \<noteq> 0)"
| "missed _ = False"

lemma pend_simps: "pend view t i = Some a \<longleftrightarrow> view t i = Pending a"
  by (simp add: pend_def split: timer_view.split)

lemma pending_upd:
  "view (hb_timers s') = (view (hb_timers s))(i := Pending a) \<Longrightarrow>
     pending_timers view s' = insert i (pending_timers view s)"
  "view (hb_timers s') = (view (hb_timers s))(i := Gone) \<Longrightarrow>
     pending_timers view s' = pending_timers view s - {i}"
  "view (hb_timers s') = view (hb_timers s) \<Longrightarrow> pending_timers view s' = pending_timers view s"
  by (auto simp: pending_timers_def pend_def split: if_splits)

lemma hb_arm_pending:
  assumes "timer_ok ops view"
  obtains i where "i \<notin> pending_timers view s"
    and "pending_timers view (hb_arm ops at s) = insert i (pending_timers view s)"
proof -
  obtain i tm where a: "tm_add ops (hb_timers s) at 0 = (i, tm)" by fastforce
  with assms have v: "view (hb_timers s) i = Unused" "view tm = (view (hb_timers s))(i := Pending 0)"
    unfolding timer_ok_def by blast+
  show ?thesis
  proof (rule that)
    show "i \<notin> pending_timers view s" using v(1) by (simp add: pending_timers_def pend_def)
    show "pending_timers view (hb_arm ops at s) = insert i (pending_timers view s)"
      by (rule pending_upd(1) [where a = 0]) (simp add: hb_arm_def a v(2))
  qed
qed

lemma hb_arm_card:
  assumes "timer_ok ops view" "finite (pending_timers view s)"
  shows "finite (pending_timers view (hb_arm ops at s))"
    "card (pending_timers view (hb_arm ops at s)) = Suc (card (pending_timers view s))"
  using hb_arm_pending [OF assms(1), of s at] assms(2) by (metis finite_insert, metis card_insert_disjoint)

lemma hb_del_card:
  assumes "timer_ok ops view" "finite (pending_timers view s)" "hb_del ops s = (r, s')"
  shows "finite (pending_timers view s')"
    "card (pending_timers view s') + (if r = 0 then 1 else 0) = card (pending_timers view s)"
proof -
  let ?i = "hb_timeout_id s"
  from assms(3) obtain tm where d: "tm_del ops (hb_timers s) ?i = (r, tm)" and s': "s' = s\<lparr>hb_timers := tm\<rparr>"
    by (auto simp: hb_del_def split: prod.splits)
  from assms(1) d have D: "if pend view (hb_timers s) ?i = None then r \<noteq> 0 \<and> view tm = view (hb_timers s)
      else r = 0 \<and> view tm = (view (hb_timers s))(?i := Gone)"
    unfolding timer_ok_def by blast
  have "finite (pending_timers view s') \<and>
    card (pending_timers view s') + (if r = 0 then 1 else 0) = card (pending_timers view s)"
  proof (cases "pend view (hb_timers s) ?i = None")
    case True
    with D have "r \<noteq> 0" "pending_timers view s' = pending_timers view s"
      by (auto intro!: pending_upd(3) simp: s')
    with assms(2) show ?thesis by simp
  next
    case False
    with D have "r = 0" "pending_timers view s' = pending_timers view s - {?i}"
      by (auto intro!: pending_upd(2) simp: s')
    moreover have "?i \<in> pending_timers view s" using False by (simp add: pending_timers_def)
    ultimately show ?thesis using assms(2) card.remove [OF assms(2), of ?i] by simp
  qed
  then show "finite (pending_timers view s')"
    "card (pending_timers view s') + (if r = 0 then 1 else 0) = card (pending_timers view s)" by auto
qed

text \<open>One step: only a deletion that comes too late changes the number of chains.\<close>

lemma hb_step_chains:
  assumes ok: "timer_ok ops view" and step: "hb_step ops view api user_id internal_s x l y"
    and fin: "finite (pending_timers view (fst x))"
  shows "finite (pending_timers view (fst y)) \<and> chains view y = chains view x + (if missed l then 1 else 0)"
  using step
proof (cases rule: hb_step.cases)
  case (hb_fire s i a tm n b)
  have p: "pending_timers view (s\<lparr>hb_timers := tm\<rparr>) = pending_timers view s - {i}"
    by (rule pending_upd(2)) (simp add: hb_fire(5))
  have "i \<in> pending_timers view s" using hb_fire(4) by (simp add: pending_timers_def pend_def)
  then have "card (pending_timers view s) = Suc (card (pending_timers view s - {i}))"
    using fin hb_fire(1) by (intro card.remove) auto
  with hb_fire(1-3) fin p show ?thesis by (auto simp: chains_def)
next
  case (hb_handled now_us s w s' w' n b)
  then obtain at where "s' = hb_arm ops at s"
    by (auto simp: HeartBeatTimeOutHeadler_def fbind_Inr split: prod.splits)
  with hb_arm_card [OF ok, of s at] hb_handled fin show ?thesis by (simp add: chains_def)
next
  case (hb_begins s r s' n)
  with hb_del_card [OF ok _ hb_begins(4)] fin show ?thesis by (auto simp: chains_def split: if_splits)
next
  case (hb_answered msg_id now_us s s' n)
  then obtain at where s': "s' = hb_arm ops at (s\<lparr>hb_cur_user_id := msg_id\<rparr>)"
    by (auto simp: heartbeat_on_def fbind_Inr)
  have "pending_timers view (s\<lparr>hb_cur_user_id := msg_id\<rparr>) = pending_timers view s"
    by (simp add: pending_timers_def)
  with hb_arm_card [OF ok, of "s\<lparr>hb_cur_user_id := msg_id\<rparr>" at] hb_answered fin s' show ?thesis
    by (simp add: chains_def)
qed

lemma hb_path_chains:
  assumes "path (hb_step ops view api user_id internal_s) x ls y" "timer_ok ops view" "finite (pending_timers view (fst x))"
  shows "finite (pending_timers view (fst y)) \<and> chains view y = chains view x + length (filter missed ls)"
  using assms(1,3)
proof (induction rule: path.induct)
  case (path_Cons s l s1 ls s')
  from hb_step_chains [OF assms(2) path_Cons.hyps(1) path_Cons.prems] path_Cons.IH
  show ?case by auto
qed simp

text \<open>The client at the beginning of its loop.\<close>

definition heartbeat0 :: "'tm timer_ops \<Rightarrow> int \<Rightarrow> 'tm \<Rightarrow> 'tm heartbeat" where
  "heartbeat0 ops at tm = hb_arm ops at \<lparr>hb_timers = tm, hb_timeout_id = 0, hb_cur_user_id = 0\<rparr>"

section \<open>The chains of a run\<close>

text \<open>
  C25: over any interleaving of the main thread, the timer and its handlers: pending timers, handlers
  that are running and the message that the main thread is sending (it has deleted the timer and will
  arm one after the answer) are together one more than the messages whose deletion of the timer
  came too late, when the handler had started. So the heartbeats never stop while the client
  is idle, and every late deletion adds a chain for good: from then on the client sends
  one more heartbeat per interval, and no later deletion removes it.
\<close>

theorem heartbeat_chains_are_counted:
  assumes "timer_ok ops view" "\<forall>i. view tm i = Unused"
    and "path (hb_step ops view api user_id internal_s) (heartbeat0 ops at tm, 0, False) ls (s, n, sending)"
  shows "card (pending_timers view s) + n + (if sending then 1 else 0) = 1 + length (filter missed ls)"
proof -
  let ?s = "\<lparr>hb_timers = tm, hb_timeout_id = 0, hb_cur_user_id = 0\<rparr>"
  have "pending_timers view ?s = {}" using assms(2) by (simp add: pending_timers_def pend_def)
  with hb_arm_card [OF assms(1), of ?s at]
  have "finite (pending_timers view (heartbeat0 ops at tm))" "chains view (heartbeat0 ops at tm, 0, False) = 1"
    by (simp_all add: heartbeat0_def chains_def)
  with hb_path_chains [OF assms(3,1)] show ?thesis by (simp add: chains_def)
qed

section \<open>A witness\<close>

definition hb_idle :: "mem_timers heartbeat" where
  "hb_idle = heartbeat0 mem_timers_ops 300000000 no_timers"

text \<open>The timer fires, a message is sent while its handler runs, and both arm the timer.\<close>

definition hb_fired :: "mem_timers heartbeat" where
  "hb_fired = hb_idle\<lparr>hb_timers := (fst (hb_timers hb_idle), (snd (hb_timers hb_idle))(1 := Gone))\<rparr>"

definition hb_off :: "mem_timers heartbeat" where
  "hb_off = snd (hb_del mem_timers_ops hb_fired)"

definition hb_on :: "mem_timers heartbeat" where
  "hb_on = projr (heartbeat_on mem_timers_ops 300 7 600000000 hb_off)"

definition silent_api :: "unit access_api" where
  "silent_api = \<lparr>api_SignIn = (\<lambda>_ w. (w, Inr 0)), api_GetFriends = (\<lambda>_ w. (w, Inr [])),
     api_GetGroups = (\<lambda>_ w. (w, Inr [])), api_GetGroupMembers = (\<lambda>_ w. (w, Inr [])),
     api_GetMsgs = (\<lambda>_ w. (w, Inr [])),
     api_SendMsg = (\<lambda>_ _ w. (w, Inr \<lparr>mr_msg_id = 7, mr_last_msg_id = 7, mr_msg_time = 1\<rparr>)),
     api_HeartBeat = (\<lambda>_ w. (w, Inr 0)), api_PullData = (\<lambda>_ w. (w, Inr []))\<rparr>"

definition hb_twice :: "mem_timers heartbeat" where
  "hb_twice = fst (projr (HeartBeatTimeOutHeadler mem_timers_ops silent_api 300 1 700000000 hb_on ()))"

theorem heartbeat_chains_are_counted_witness:
  "card (pending_timers mem_view hb_twice) = 2"
proof -
  let ?ls = "[HbFire 1, SendBegins 1, SendAnswered 7 600000000, HbHandled 700000000]"
  have v: "mem_view (hb_timers hb_idle) 1 = Pending 0" "fst (hb_timers hb_idle) = 1" by code_simp+
  have 1: "hb_step mem_timers_ops mem_view silent_api 1 300 (hb_idle, 0, False) (HbFire 1) (hb_fired, Suc 0, False)"
    unfolding hb_fired_def by (rule hb_fire, rule v(1)) (auto simp: mem_view_def fun_eq_iff v(2))
  have "fst (hb_del mem_timers_ops hb_fired) = 1" by code_simp
  then have "hb_del mem_timers_ops hb_fired = (1, hb_off)" unfolding hb_off_def by (metis prod.collapse)
  then have 2: "hb_step mem_timers_ops mem_view silent_api 1 300 (hb_fired, Suc 0, False) (SendBegins 1) (hb_off, Suc 0, True)"
    by (rule hb_begins)
  have "\<not> isl (heartbeat_on mem_timers_ops 300 7 600000000 hb_off)" by code_simp
  then have "heartbeat_on mem_timers_ops 300 7 600000000 hb_off = Inr hb_on" unfolding hb_on_def by simp
  then have 3: "hb_step mem_timers_ops mem_view silent_api 1 300 (hb_off, Suc 0, True) (SendAnswered 7 600000000) (hb_on, Suc 0, False)"
    by (rule hb_answered)
  let ?h = "HeartBeatTimeOutHeadler mem_timers_ops silent_api 300 1 700000000 hb_on ()"
  have "\<not> isl ?h" by code_simp
  then have "?h = Inr (hb_twice, ())" unfolding hb_twice_def by (cases ?h) auto
  then have 4: "hb_step mem_timers_ops mem_view silent_api 1 300 (hb_on, Suc 0, False) (HbHandled 700000000) (hb_twice, 0, False)"
    by (rule hb_handled)
  have p: "path (hb_step mem_timers_ops mem_view silent_api 1 300)
      (heartbeat0 mem_timers_ops 300000000 no_timers, 0, False) ?ls (hb_twice, 0, False)"
    unfolding hb_idle_def [symmetric]
    by (rule path_Cons, rule 1, rule path_Cons, rule 2, rule path_Cons, rule 3, rule path1, rule 4)
  from heartbeat_chains_are_counted [OF mem_timers_ok no_timers_unused p] show ?thesis by simp
qed

end
