(* ===== verification/Spec2Isabelle.thy ===== *)
theory Spec2Isabelle
  imports Mailboxes Whole_Claims Access_Clock Access_Shutdown Logic_Memory Logic_Progress Logic_Channels Delivery
    System_Statements IdGen_Clients DbProxy_Test ConsistentHash_Claims Client_Heartbeat
begin

text \<open>
  A model of the instant messenger tinyim and the theorems that make it correct, or that show
  where it is not.

  \<^bold>\<open>The program.\<close> A client (\<^verbatim>\<open>cmd_client/client.cc\<close>) talks to an access server
  (\<^verbatim>\<open>server/access\<close>), which keeps its connection and its waiting calls and forwards its
  requests to a logic server (\<^verbatim>\<open>server/logic\<close>). To send a message the logic server asks the
  database proxy (\<^verbatim>\<open>server/dbproxy\<close>) whether it has seen the message, asks the id generator
  (\<^verbatim>\<open>server/idgen\<close>) for one message id per receiver, lets the proxy store one row per receiver
  and answers; a background thread then asks the proxy where the receivers are signed in and
  pushes the message to their access servers, which answer the receivers' waiting calls.

  \<^bold>\<open>The theories.\<close> Each component has a theory with its state and operations, named as in
  the code, one with its lemmas and contract, and one with its properties and their witnesses.
  \<^item> \<open>Prelude\<close>: failures (\<open>fault\<close> ends the process or leaves C++, \<open>Failed\<close> is an error answer),
    C++ integers with overflow as a branch, early returns (\<open>and_then\<close>), the fate of a remote
    call (\<open>rpc\<close>), the runs of a step relation (\<open>path\<close>). \<open>Decimal\<close>: \<^verbatim>\<open>std::to_string\<close>,
    \<^verbatim>\<open>std::stoll\<close>, \<^verbatim>\<open>sscanf\<close> and their round trips. \<open>Messages\<close>: the records of
    \<^verbatim>\<open>server/common/messages.proto\<close> and the rows of \<^verbatim>\<open>db.sql\<close>. \<open>Timers\<close>: brpc's timers, for the
    access server and the client.
  \<^item> \<open>IdGen\<close>, \<open>IdGen_Correct\<close>, \<open>IdGen_Service\<close>: \<^verbatim>\<open>LevelDbIdGen\<close> (\<^verbatim>\<open>idgen.cc\<close>) and its service
    (\<^verbatim>\<open>idgen_server.cc\<close>). The locale \<open>id_allocator\<close> states what callers rely on; its
    interpretations \<open>idg\<close> (one process) and \<open>idb\<close> (across restarts) are the code. Shown: ids
    increase within a process, what is reserved for a restart and what is not.
    \<open>IdGen_Clients\<close>: the two test clients (\<^verbatim>\<open>idgen_client.cc\<close>, \<^verbatim>\<open>idgen_client2.cc\<close>) over the
    service, from their flags to their exit codes.
  \<^item> \<open>DbProxy\<close>, \<open>DbProxy_Correct\<close>, \<open>Mem_Backends\<close>, \<open>DbProxy_Claims\<close>: every handler of
    \<^verbatim>\<open>dbproxy_service.cc\<close>. The locale \<open>message_store\<close> (interpretation \<open>store\<close>) is the contract of
    the saves. \<open>Mem_Backends\<close> is a database and a redis in memory, for the witnesses.
    \<open>DbProxy_Threads\<close>: the saves and the look-up of the last message cut between their statements
    and commands (\<open>advance_proxy\<close>), any number of them interleaved (\<open>proxy_step\<close>).
  \<^item> \<open>Access\<close>, \<open>Access_Correct\<close>, \<open>Access_Timers\<close>, \<open>Access_Claims\<close>: the table of waiting calls
    and the heartbeat timers of \<^verbatim>\<open>access_service.cc\<close>. \<open>access_step\<close> interleaves the handlers with
    the timers; the locale \<open>reply_table\<close> (interpretation \<open>table\<close>) says that a slot is handed over or
    left alone; \<open>guarded\<close> is the invariant of timers and their arguments. \<open>Access_Clock\<close> adds the
    clock and the times that timers are armed with (\<open>timed_step\<close>): who is timed out, and when.
    \<open>Access_Shutdown\<close>: how the server ends (\<open>main_step\<close>, \<^verbatim>\<open>access.cc\<close> after \<^verbatim>\<open>server.Start\<close>), with
    requests and timers between the clean-up, the stop and the return of \<^verbatim>\<open>main\<close>. The clean-up
    takes no lock in the code and is one step there, so that what races with it is not covered.
  \<^item> \<open>Logic\<close>, \<open>Logic_Correct\<close>: \<^verbatim>\<open>logic_service.cc\<close> over a record of the servers it calls. The
    locale \<open>logic_backend\<close> states what it relies on. \<open>Logic_Threads\<close> cuts \<open>SendMsg\<close> at its remote
    calls (\<open>advance\<close>) and interleaves any number of them (\<open>logic_step\<close>); the locale \<open>logic_ids\<close>
    adds the source of ids, and under it ids stay different and a message is accepted once.
    \<open>Logic_Send\<close>: what one \<open>SendMsg\<close>, and one step of a thread, leaves in the table on every path.
    \<open>Logic_Memory\<close>: the heap objects of the asynchronous pushes and the closure that frees them.
    \<open>Logic_Channels\<close>: the channels in \<^verbatim>\<open>access_map_\<close> and what \<^verbatim>\<open>Init\<close> left in them (\<open>push_thread\<close>); over
    channels that were initialised a background thread is \<open>SendtoPeers\<close>, which has only addresses.
    \<open>Logic_Progress\<close>: a process that ends with the first fault of a thread (\<open>process_step\<close>), and
    that while it lives every message is answered, in a bounded number of steps.
  \<^item> \<open>System\<close>: the logic server's stubs lead to the models of the generator and the proxy, over a
    network that decides the fate of every call (\<open>deployed\<close>, the interpretation of
    \<open>logic_backend\<close>). \<open>System_Threads\<close>: the threads over it (\<open>threads\<close>, the interpretation of
    \<open>logic_ids\<close>). \<open>Proxy_Values\<close>: what redis may hold under the key of a user's last message, and
    what is read from it. \<open>System_Restarts\<close>: the generator restarted under the threads
    (\<open>restart_step\<close>): when ids stay different, and a run in which they repeat. \<open>Mailboxes\<close>: the
    abstract specification of the service, a mailbox per user, groups with members, and atomic posting
    to all receivers of a message, of which nobody is left out (\<open>mail_step\<close>), and the refinement
    mapping from the servers to it. \<open>Answers\<close>: with all threads at work, an
    answer names the row of its message. \<open>System_Statements\<close>: the threads over the handlers of the
    proxy, both cut (\<open>statement_step\<close>). A thread waits for a handler that others interleave with, or
    gives up and leaves it behind; brpc may send a request twice. \<open>advance_is_call\<close> and \<open>call_alone\<close> say
    that a call that nothing comes between does what the step of \<open>logic_step\<close> does. Shown: unique
    keys, different ids, one acceptance a message, with a row for each of its receivers. \<open>Mem_World\<close>: a deployed system to evaluate on.
  \<^item> \<open>Client\<close>, \<open>Client_Claims\<close>: the command line client, its input loop and its retry loop;
    \<open>Client_Heartbeat\<close>: its heartbeat timer, shared by two threads without a lock (\<open>hb_step\<close>).
  \<^item> \<open>Deployment\<close>: the models of the access, logic and database servers one behind the other as the
    client's \<open>access_api\<close>. \<open>Delivery\<close>: sending from end to end, through the client's retry loop:
    what an answer promises, what is never confirmed, what is made up for, the calls of the
    background thread for an accepted message, and how a message answers a waiting pull.
  \<^item> \<open>Whole_System\<close>: all servers at once. A state has the logic server with its threads, the
    arguments of the background threads that have not run, the pushes under way, and an access
    server per address; \<open>whole_step\<close> lets a client sign in, a thread go on, a background thread
    run, a push arrive (any number of times, or never), or an access server act. The invariant
    \<open>whole_ok\<close> joins those of the parts. \<open>whole_run\<close> executes a schedule, for the witnesses.
    \<open>Whole_Claims\<close>: accepted messages stay readable, and pushes may overtake each other.
  \<^item> \<open>Startup\<close>: the \<^verbatim>\<open>main\<close> functions of the servers, with the constructor of the
    proxy and the creation of the generator, and what they exit with; the channel and the exit codes of the client; the
    flags with the values they are defined with. \<open>DbProxy_Test\<close>: the test program of the proxy
    (\<^verbatim>\<open>dbproxy/test.cc\<close>) runs the statements of two handlers.
  \<^item> \<open>ConsistentHash\<close>, \<open>ConsistentHash_Claims\<close>: the hash ring of \<^verbatim>\<open>util/consistent_hash.h\<close>, whose
    operations answer like those of a finite map (\<open>map_does\<close>), in a build with assertions, where a
    look-up never answers, and in one without (\<open>ndebug\<close>).
  \<^item> This theory: the properties that span the servers.

  \<^bold>\<open>State and steps.\<close> A handler is a function from the state to the state and a result, because
  a handler that fails half-way keeps what it has done. A handler that runs under a mutex is one
  step; where the code can be interrupted between two steps (a timer that has fired and whose
  handler waits for the mutex, a thread that waits for a remote call), the steps are separate.
  \<open>logic_step\<close> takes a remote call, with all that the server behind it does, as one step. For the
  proxy \<open>DbProxy_Threads\<close> takes that apart: there a statement is a step, and the unique key and
  what look-ups answer are shown to be independent of how saves and look-ups interleave.
  \<open>System_Statements\<close> has both, the threads of the logic server over these statements. In these
  relations a fault of one thread is a label like an answer, and the others may go on: they have all
  runs of the process, and more. \<open>Access_Clock\<close> takes the time of a heartbeat when it updates the
  table; the code reads the clock just before it takes the mutex.

  \<^bold>\<open>What is not in the repository\<close> is a parameter with its documented behaviour as a
  hypothesis: leveldb (\<open>leveldb_ok\<close>: a failed write may have happened), MySQL (\<open>mysql_ok\<close>: a
  statement is atomic and keeps the unique key, a failed one may have been carried out), redis
  (\<open>redis_ok\<close>: keys may expire between commands, commands and answers may be lost; \<open>redis_steady\<close>,
  where a theorem is about a redis that keeps its keys), \<^verbatim>\<open>cjson\<close> (\<open>cjson_ok\<close>), brpc's timers
  (\<open>timer_ok\<close>) and channels (\<open>brpc\<close>), the checksum \<open>crc32c\<close>, the clock. brpc asks for a controller
  to be reset before it is used again, which the client does not do: whether such a call is made
  is the parameter \<open>si_reuse\<close>. Each hypothesis is met by a concrete instance that the witnesses use.

  \<^bold>\<open>Bounds.\<close> The loops of the servers go over the entries of a message and are recursive on
  them. The loops of the clients go on until the user quits; their fuel is the number of rounds
  before that, and the theorems hold for every number of rounds. A thread of \<open>SendMsg\<close> makes at
  most four remote calls, so four steps end it (\<open>run_alone\<close>): one that nothing comes between is \<open>SendMsg\<close>.

  \<^bold>\<open>Not modelled.\<close> Logging and printing, \<^verbatim>\<open>readline\<close> and its history, the parsing of flags, glog;
  the handlers \<^verbatim>\<open>Test\<close>, which only log; flags and error codes that nothing reads. In
  \<open>Whole_System\<close> a process that ends with a fault makes no step: its theorems are about what the
  system does before. The retries that brpc makes on its own when a connection breaks are steps
  of \<open>System_Statements\<close> (\<open>again\<close>, \<open>again_new\<close>, \<open>stray\<close>), and a message that brpc brings to the
  logic server twice is one that arrives twice (\<open>arrives\<close>). The other theories have them only in
  that last form, and those on the retry loop of one client not at all. In \<open>Deployment\<close> a fault of a server behind the
  access server is an error of the call, and that server is there again for the next one.
\<close>

section \<open>An accepted message\<close>

text \<open>
  C8: when the logic server answers a private message without NUL in its text as new, the table has gained
  exactly the sender's row, under the id of the answer, and the receiver's row, over any
  behaviour of the network and the servers; and whatever the background thread then pushes
  is, field by field, what the receiver reads back from the receiver's row.
\<close>

theorem accepted_private_message_is_stored_and_pushed:
  assumes ok: "mysql_ok (be_mysql be) view"
    and s: "SendMsg (deployed be ops N) now nm w = (w', Inr (reply, Some args))"
    and t: "nm_msg_type nm = PRIVATE"
    and c: "in_i32 (nm_client_time nm)" "c_str (nm_message nm) = nm_message nm"
    and p: "SendtoPeers (deployed be ops N) args wp m = (w2, m2, Inr calls)"
  shows "\<exists>srow rrow. wd_messages view w' = wd_messages view w @ [srow, rrow] \<and>
    r_user_id srow = nm_user_id nm \<and> r_msg_id srow = mr_msg_id reply \<and> r_message srow = nm_message nm \<and>
    r_client_time srow = nm_client_time nm \<and>
    r_user_id rrow = nm_peer_id nm \<and> list_all (\<lambda>(addr, msg). msg = row_msg (nm_peer_id nm) rrow) calls"
proof -
  note fit = deployed.args_fit [where view = view and w = w, OF ok s]
  from deployed.private_accepted [where view = view and w = w, OF ok s t] obtain sid rid where
    ids: "pa_id_reply args = [sid, rid]" and
    rows: "wd_messages view w' = wd_messages view w @
      [sender_row (new_private_msg nm (to_i32 now) (mi_start_msg_id sid) (mi_start_msg_id rid)),
       receiver_row (new_private_msg nm (to_i32 now) (mi_start_msg_id sid) (mi_start_msg_id rid))]" and
    reply: "reply = \<lparr>mr_msg_id = mi_start_msg_id sid, mr_last_msg_id = mi_start_msg_id sid, mr_msg_time = to_i32 now\<rparr>"
    by blast
  let ?m = "new_private_msg nm (to_i32 now) (mi_start_msg_id sid) (mi_start_msg_id rid)"
  from s t have req: "map un_user_id (drop 1 (pa_id_request args)) = [nm_peer_id nm]"
    by (auto simp: SendMsg_def id_request_of_def one_id_def Let_def elim!: and_then_InrE split: if_splits)
  have "\<forall>(addr, msg) \<in> set calls. msg = row_msg (nm_peer_id nm) (receiver_row ?m)"
    using deployed_push [OF p fit(1,2)] t c fit(4,5)
    unfolding req ids
    by (auto simp: peer_calls_def peer_msg_def row_msg_def receiver_row_def new_private_msg_def split: if_splits)
  then show ?thesis
    using rows reply
    by (intro exI [of _ "sender_row ?m"] exI [of _ "receiver_row ?m"])
      (auto simp: sender_row_def receiver_row_def new_private_msg_def list_all_iff)
qed

text \<open>
  C18: when the logic server answers a group message as new, the sender and every member of
  the group have a row of it, the sender's under the id of the answer, and nobody else has
  gained one.
\<close>

theorem accepted_group_message_reaches_every_member:
  assumes ok: "mysql_ok (be_mysql be) view"
    and s: "SendMsg (deployed be ops N) now nm w = (w', Inr (reply, Some args))"
    and t: "nm_msg_type nm = GROUP"
  shows "\<exists>new. wd_messages view w' = wd_messages view w @ new \<and>
    r_user_id ` set new = insert (nm_user_id nm) (wd_members view w (nm_peer_id nm)) \<and>
    list_all (\<lambda>r. r_group_id r = nm_peer_id nm \<and> r_sender r = nm_user_id nm \<and>
      r_message r = nm_message nm \<and> r_client_time r = nm_client_time nm) new \<and>
    r_user_id (hd new) = nm_user_id nm \<and> r_msg_id (hd new) = mr_msg_id reply"
proof -
  let ?gm = "new_group_msg nm (to_i32 now) (pa_id_reply args)"
  let ?new = "map (group_row ?gm) (ngm_user_and_msgids ?gm)"
  from deployed.group_accepted [where view = view and w = w, OF ok s t] obtain sid rest where
    rows: "wd_messages view w' = wd_messages view w @ ?new" and
    users: "mi_user_id ` set (pa_id_reply args) = insert (nm_user_id nm) (wd_members view w (nm_peer_id nm))" and
    ids: "pa_id_reply args = sid # rest" "mi_user_id sid = nm_user_id nm" and
    reply: "reply = \<lparr>mr_msg_id = mi_start_msg_id sid, mr_last_msg_id = mi_start_msg_id sid, mr_msg_time = to_i32 now\<rparr>"
    by blast
  have "r_user_id ` set ?new = mi_user_id ` set (pa_id_reply args)"
    by (auto simp: new_group_msg_def group_row_def image_iff)
  moreover have "list_all (\<lambda>r. r_group_id r = nm_peer_id nm \<and> r_sender r = nm_user_id nm \<and>
      r_message r = nm_message nm \<and> r_client_time r = nm_client_time nm) ?new"
    by (auto simp: list_all_iff new_group_msg_def group_row_def)
  moreover have "r_user_id (hd ?new) = nm_user_id nm \<and> r_msg_id (hd ?new) = mr_msg_id reply"
    by (simp add: ids reply new_group_msg_def group_row_def)
  ultimately show ?thesis using rows users by (intro exI [of _ ?new]) blast
qed

text \<open>
  The background thread makes one call per receiver that has a session, and it makes
  it to the address of that receiver's session, with that receiver's own message id: the two
  indices of its loops do not get out of step.
\<close>

lemma push_reaches_each_session:
  assumes "st_GetSessions st (map un_user_id (drop 1 (pa_id_request args))) w = (w1, Inr ss)"
    and "length ss = length (pa_id_request args) - 1"
    and "length (pa_id_reply args) = length (pa_id_request args)" "pa_id_request args \<noteq> []"
    and "i < length ss" "se_has_session (ss ! i)"
  shows "\<exists>w2 m2 calls. SendtoPeers st args w m = (w2, m2, Inr calls) \<and>
    length calls = length (filter se_has_session ss) \<and>
    (se_addr (ss ! i), peer_msg (pa_new_msg args) (pa_sender args) (un_user_id (pa_id_request args ! Suc i))
       (mi_start_msg_id (pa_id_reply args ! Suc i))) \<in> set calls"
proof -
  let ?us = "map un_user_id (drop 1 (pa_id_request args))" and ?ids = "drop 1 (pa_id_reply args)"
  let ?z = "zip ?us (zip ss ?ids)"
  have z: "length ?z = length ss" using assms(2,3) by simp
  then have "?z ! i = (un_user_id (pa_id_request args ! Suc i), ss ! i, pa_id_reply args ! Suc i)"
    using assms(2,3,5) by simp
  with z assms(5) have "(un_user_id (pa_id_request args ! Suc i), ss ! i, pa_id_reply args ! Suc i) \<in> set ?z"
    by (metis nth_mem)
  then have "(se_addr (ss ! i), peer_msg (pa_new_msg args) (pa_sender args) (un_user_id (pa_id_request args ! Suc i))
       (mi_start_msg_id (pa_id_reply args ! Suc i))) \<in> set (peer_calls args ?us ss ?ids)"
    using assms(6) unfolding peer_calls_def by (force simp: image_iff)
  moreover have "length (peer_calls args ?us ss ?ids) = length (filter se_has_session ss)"
  proof -
    have "map (fst \<circ> snd) ?z = ss" using assms(2,3) by (simp add: map_fst_zip map_snd_zip flip: map_map)
    then have "length (filter se_has_session ss) = length (filter (se_has_session \<circ> (fst \<circ> snd)) ?z)"
      by (metis filter_map length_map)
    then show ?thesis by (simp add: peer_calls_def comp_def split_def)
  qed
  ultimately show ?thesis using SendtoPeers_eq [OF assms(1-4)] by blast
qed

text \<open>
  C34: the arguments that an accepted message leaves for the background thread are well formed:
  one block of ids per entry of the request, for the same users in the same order, the sender
  first; and with them the thread never reads past the end of a list.
\<close>

theorem thread_arguments_are_well_formed:
  assumes ok: "mysql_ok (be_mysql be) view"
    and s: "SendMsg (deployed be ops N) now nm w = (w', Inr (reply, Some args))"
  shows "map mi_user_id (pa_id_reply args) = map un_user_id (pa_id_request args) \<and>
    pa_id_request args \<noteq> [] \<and> un_user_id (hd (pa_id_request args)) = nm_user_id nm \<and>
    snd (snd (SendtoPeers (deployed be ops N) args wp m)) \<noteq> Inl OutOfBounds"
proof -
  note fit = deployed.args_fit [where view = view and w = w, OF ok s]
  have "un_user_id (hd (pa_id_request args)) = nm_user_id nm"
    using s by (auto simp: SendMsg_def Let_def elim!: and_then_InrE split: if_splits dest!: request_of_for
        simp: request_for_def one_id_def)
  moreover have "snd (snd (SendtoPeers (deployed be ops N) args wp m)) \<noteq> Inl OutOfBounds"
  proof -
    let ?us = "map un_user_id (drop 1 (pa_id_request args))"
    obtain w1 r where g: "st_GetSessions (deployed be ops N) ?us wp = (w1, r)" by fastforce
    show ?thesis
    proof (cases r)
      case (Inl e)
      have "e \<noteq> Fault OutOfBounds" using g Inl sessions_fault by blast
      with g Inl show ?thesis by (cases e) (auto simp: SendtoPeers_def Let_def)
    next
      case (Inr ss)
      with g have "GetSessions be ?us (wd_db wp) = (wd_db w1, Inr ss)"
        by (auto simp: deployed_def dest: to_db_Inr)
      from arg_cong [OF sessions_users [OF this], of length]
      have "length ss = length (pa_id_request args) - 1" by simp
      from SendtoPeers_eq [OF g [unfolded Inr] this fit(1,2), of m] show ?thesis by simp
    qed
  qed
  ultimately show ?thesis using fit(2,3) by blast
qed

section \<open>Retransmission\<close>

text \<open>
  While redis has nothing for the sender, a retransmission of the newest message that
  the sender has stored is recognised: it is answered with the id under which the message
  was stored, and stores and pushes nothing.
\<close>

lemma retransmission_is_recognised:
  assumes ok: "mysql_ok (be_mysql be) view" and u: "unique_rows (wd_messages view w)"
    and red: "answers be (wd_db w) r"
      "rd_get (be_redis be) r (last_send_key (nm_user_id nm)) = None"
    and row: "row \<in> set (wd_messages view w)" "unique_key row = (nm_user_id nm, nm_user_id nm, nm_client_time nm)"
    and new: "\<forall>y \<in> set (wd_messages view w). r_user_id y = nm_user_id nm \<longrightarrow> r_sender y = nm_user_id nm \<longrightarrow>
      r_client_time y \<le> nm_client_time nm"
    and s: "SendMsg (deployed be ops N) now nm w = (w', Inr (reply, push))"
  shows "push = None \<and> mr_msg_id reply = r_msg_id row \<and> wd_messages view w' = wd_messages view w"
  by (rule newest_is_recognised [OF ok u red row new s])

text \<open>
  While redis does hold what the proxy itself stored for the sender, a retransmission is
  not recognised: the value reads as zeros, new ids are asked for, and the save is refused
  because the rows are there. The sender of a message that was stored, but whose answer
  was lost, is never told so: every retransmission is answered with an error.
\<close>

lemma retransmission_fails_while_cached:
  assumes ok: "mysql_ok (be_mysql be) view" "cjson_ok (be_cjson be)" and u: "unique_rows (wd_messages view w)"
    and red: "answers be (wd_db w) r"
      "rd_get (be_redis be) r (last_send_key (nm_user_id nm)) =
       Some (cj_encode (be_cjson be) [to_string i, to_string c, to_string t])"
    and row: "(nm_user_id nm, nm_user_id nm, nm_client_time nm) \<in> unique_key ` set (wd_messages view w)"
    and nz: "nm_client_time nm \<noteq> 0"
    and s: "SendMsg (deployed be ops N) now nm w = (w', res)"
  shows "isl res \<and> wd_messages view w' = wd_messages view w"
proof -
  have unseen: "ul_client_time d \<noteq> nm_client_time nm"
    if "st_GetUserLastSendData (deployed be ops N) (nm_user_id nm) w = (w1, Inr d)" for w1 d
  proof -
    from that have g: "GetUserLastSendData be (nm_user_id nm) (wd_db w) = (wd_db w1, Inr d)"
      by (auto simp: deployed_def dest: to_db_Inr)
    have "snd (GetUserLastSendData be (nm_user_id nm) (wd_db w)) = Inr (last_answer (0, 0, 0))"
      by (rule get_last_hit [OF red encoded_reads_zero [OF ok(2)]])
    with g nz show ?thesis by (simp add: last_answer_def)
  qed
  have "wd_messages view w' = wd_messages view w \<and> isl res"
    by (rule deployed.unseen_refused [where view = view and w = w, OF ok(1) u row _ s]) (rule unseen)
  then show ?thesis by blast
qed

text \<open>
  A message whose client time is 0 is taken for a retransmission while nothing is known
  of its sender: it is answered as sent, under the id 0, and is neither stored nor pushed.
\<close>

lemma zero_time_message_is_dropped:
  assumes ok: "mysql_ok (be_mysql be) view"
    and red: "answers be (wd_db w) r" "rd_get (be_redis be) r (last_send_key (nm_user_id nm)) = None"
    and none: "filter (\<lambda>x. r_user_id x = nm_user_id nm \<and> r_sender x = nm_user_id nm) (wd_messages view w) = []"
    and z: "nm_client_time nm = 0"
    and s: "SendMsg (deployed be ops N) now nm w = (w', Inr (reply, push))"
  shows "reply = \<lparr>mr_msg_id = 0, mr_last_msg_id = 0, mr_msg_time = 0\<rparr> \<and> push = None \<and>
    wd_messages view w' = wd_messages view w"
proof -
  from s obtain w1 d where d: "st_GetUserLastSendData (deployed be ops N) (nm_user_id nm) w = (w1, Inr d)"
    by (auto simp: SendMsg_def elim!: and_then_InrE)
  then have "GetUserLastSendData be (nm_user_id nm) (wd_db w) = (wd_db w1, Inr d)"
    by (auto simp: deployed_def dest: to_db_Inr)
  note l = last_from_table [OF ok red this, unfolded newest_sent_def]
  have no: "\<not> (\<exists>x \<in> set (wd_messages view w). r_user_id x = nm_user_id nm \<and> r_sender x = nm_user_id nm)"
    using none by (auto simp: filter_empty_conv)
  have "d = last_answer (0, 0, 0)" using l unfolding if_not_P [OF no] by blast
  with s d z have r: "reply = \<lparr>mr_msg_id = 0, mr_last_msg_id = 0, mr_msg_time = 0\<rparr>" "push = None"
    by (auto simp: SendMsg_def last_answer_def)
  with deployed.duplicate_keeps [where view = view and w = w, OF ok] s show ?thesis by simp
qed

section \<open>Errors\<close>

text \<open>
  When saving a group message fails, the answer carries the error of the call before,
  which succeeded: whatever the failure was, the code 0 and an empty text.
\<close>

lemma group_save_failure_is_reported_as_code_0:
  assumes "nm_msg_type nm = GROUP"
    and "st_GetUserLastSendData st (nm_user_id nm) w = (w1, Inr d)" "ul_client_time d \<noteq> nm_client_time nm"
    and "st_GetGroupMembers st (nm_peer_id nm) w1 = (w2, Inr us)"
    and "st_IdGenerate st (one_id (nm_user_id nm) # map (one_id \<circ> ui_user_id)
           (filter (\<lambda>i. ui_user_id i \<noteq> nm_user_id nm) us)) w2 = (w3, Inr ids)"
    and "st_SaveGroupMsg st (new_group_msg nm (to_i32 now) ids) w3 = (w4, Inl (Failed code text))"
  shows "SendMsg st now nm w = (w4, Inl (Failed 0 []))"
  using assms by (simp add: SendMsg_def id_request_of_def save_group_def Let_def)
section \<open>Witnesses\<close>

definition sent :: "mem_world \<times> (MsgReply \<times> SendtoPeersArgs option) result" where
  "sent = SendMsg mem_stubs 100 hi_to_2 (mem_world empty_tables signed_in)"

definition sent_args :: SendtoPeersArgs where
  "sent_args = the (snd (projr (snd sent)))"

definition pushed :: "mem_world \<times> string set \<times> (fault + (string \<times> Msg) list)" where
  "pushed = SendtoPeers mem_stubs sent_args (fst sent) {}"

lemma sent_eq: "SendMsg mem_stubs 100 hi_to_2 (mem_world empty_tables signed_in) =
    (fst sent, Inr (fst (projr (snd sent)), Some sent_args))"
proof -
  have "\<not> isl (snd sent)" "snd (projr (snd sent)) \<noteq> None" by code_simp+
  from accepted_eq [OF this] show ?thesis unfolding sent_def [symmetric] sent_args_def .
qed

lemma pushed_eq: "SendtoPeers mem_stubs sent_args (fst sent) {} =
    (fst pushed, fst (snd pushed), Inr (projr (snd (snd pushed))))"
proof -
  have "\<not> isl (snd (snd pushed))" by code_simp
  then show ?thesis unfolding pushed_def [symmetric] by (cases pushed) auto
qed

theorem accepted_private_message_is_stored_and_pushed_witness:
  "\<exists>srow rrow. wd_messages fst (fst sent) = [srow, rrow] \<and> r_user_id srow = 1 \<and> r_user_id rrow = 2 \<and>
    length (projr (snd (snd pushed))) = 1 \<and>
    list_all (\<lambda>(addr, msg). msg = row_msg 2 rrow) (projr (snd (snd pushed)))"
proof -
  have n: "length (projr (snd (snd pushed))) = 1" by code_simp
  have c: "in_i32 (nm_client_time hi_to_2)" "c_str (nm_message hi_to_2) = nm_message hi_to_2"
    by (simp_all add: in_i32_def c_str_def)
  from accepted_private_message_is_stored_and_pushed [OF mem_ok(1) sent_eq _ c pushed_eq] n
  show ?thesis by (auto simp: empty_tables_def)
qed

abbreviation hi_to_group :: NewMsg where
  "hi_to_group \<equiv> hi_to_2\<lparr>nm_peer_id := 7, nm_msg_type := GROUP\<rparr>"

definition member :: "user_id_t \<Rightarrow> member_row" where
  "member u = \<lparr>g_group_id = 7, g_group_name = ''g'', g_user_id = u, g_user_name = ''u''\<rparr>"

abbreviation group_tables :: tables where
  "group_tables \<equiv> empty_tables\<lparr>t_members := [member 1, member 2, member 3]\<rparr>"

definition group_sent :: "mem_world \<times> (MsgReply \<times> SendtoPeersArgs option) result" where
  "group_sent = SendMsg mem_stubs 100 hi_to_group (mem_world group_tables signed_in)"

lemma group_sent_eq: "SendMsg mem_stubs 100 hi_to_group (mem_world group_tables signed_in) =
    (fst group_sent, Inr (fst (projr (snd group_sent)), Some (the (snd (projr (snd group_sent))))))"
proof -
  have "\<not> isl (snd group_sent)" "snd (projr (snd group_sent)) \<noteq> None" by code_simp+
  from accepted_eq [OF this] show ?thesis unfolding group_sent_def [symmetric] .
qed

theorem accepted_group_message_reaches_every_member_witness:
  "r_user_id ` set (wd_messages fst (fst group_sent)) = {1, 2, 3}"
proof -
  have "wd_members fst (mem_world group_tables signed_in) 7 = {1, 2, 3}"
    by (auto simp: member_def)
  with accepted_group_message_reaches_every_member [OF mem_ok(1) group_sent_eq]
  show ?thesis by (auto simp: empty_tables_def)
qed

definition two_peers :: SendtoPeersArgs where
  "two_peers = \<lparr>pa_id_request = map one_id [1, 3, 2],
     pa_id_reply = map (\<lambda>u. \<lparr>mi_user_id = u, mi_start_msg_id = 10 + u, mi_msg_id_num = 1\<rparr>) [1, 3, 2],
     pa_new_msg = hi_to_group, pa_sender = 1\<rparr>"

definition two_sessions :: "Session list" where
  "two_sessions = projr (snd (st_GetSessions mem_stubs [3, 2] (mem_world empty_tables signed_in)))"

lemma push_reaches_each_session_witness:
  "\<exists>w2 m2 calls. SendtoPeers mem_stubs two_peers (mem_world empty_tables signed_in) {} = (w2, m2, Inr calls) \<and>
    length calls = 1 \<and> (''h:1'', peer_msg hi_to_group 1 2 12) \<in> set calls"
proof -
  let ?w = "mem_world empty_tables signed_in"
  have "\<not> isl (snd (st_GetSessions mem_stubs [3, 2] ?w))" by code_simp
  then have g: "st_GetSessions mem_stubs (map un_user_id (drop 1 (pa_id_request two_peers))) ?w =
      (fst (st_GetSessions mem_stubs [3, 2] ?w), Inr two_sessions)"
    unfolding two_sessions_def by (simp add: two_peers_def one_id_def prod_eq_iff)
  have s: "length two_sessions = length (pa_id_request two_peers) - 1" "1 < length two_sessions"
    "se_has_session (two_sessions ! 1)" "se_addr (two_sessions ! 1) = ''h:1''"
    "length (filter se_has_session two_sessions) = 1"
    by code_simp+
  have a: "length (pa_id_reply two_peers) = length (pa_id_request two_peers)" "pa_id_request two_peers \<noteq> []"
    by (simp_all add: two_peers_def)
  have v: "pa_new_msg two_peers = hi_to_group" "pa_sender two_peers = 1"
    "un_user_id (pa_id_request two_peers ! Suc 1) = 2" "mi_start_msg_id (pa_id_reply two_peers ! Suc 1) = 12"
    by (simp_all add: two_peers_def one_id_def)
  from push_reaches_each_session [OF g s(1) a s(2,3), of "{}"] show ?thesis
    unfolding s(4,5) v .
qed

theorem thread_arguments_are_well_formed_witness:
  "map mi_user_id (pa_id_reply sent_args) = map un_user_id (pa_id_request sent_args) \<and>
    un_user_id (hd (pa_id_request sent_args)) = 1 \<and>
    snd (snd (SendtoPeers mem_stubs sent_args (fst sent) {})) \<noteq> Inl OutOfBounds"
  using thread_arguments_are_well_formed [OF mem_ok(1) sent_eq] by simp

abbreviation first_row :: msg_row where
  "first_row \<equiv> sender_row hello"

definition resent :: "mem_world \<times> (MsgReply \<times> SendtoPeersArgs option) result" where
  "resent = SendMsg mem_stubs 101 hi_to_2 (mem_world (empty_tables\<lparr>t_messages := [first_row]\<rparr>) (\<lambda>_. None))"

lemma retransmission_is_recognised_witness:
  "mr_msg_id (fst (projr (snd resent))) = 10 \<and> wd_messages fst (fst resent) = [first_row]"
proof -
  have "\<not> isl (snd resent)" by code_simp
  then have s: "SendMsg mem_stubs 101 hi_to_2 (mem_world (empty_tables\<lparr>t_messages := [first_row]\<rparr>) (\<lambda>_. None)) =
      (fst resent, Inr (fst (projr (snd resent)), snd (projr (snd resent))))"
    unfolding resent_def [symmetric] by (simp add: prod_eq_iff)
  have k: "unique_key first_row = (nm_user_id hi_to_2, nm_user_id hi_to_2, nm_client_time hi_to_2)"
    by (simp add: eval_keys)
  have u: "unique_rows (wd_messages fst (mem_world (empty_tables\<lparr>t_messages := [first_row]\<rparr>) (\<lambda>_. None)))"
    by (simp add: unique_rows_def)
  have n: "rd_get (be_redis mem_backends) (\<lambda>_. None, []) (last_send_key (nm_user_id hi_to_2)) = None"
    by simp
  have "snd (projr (snd resent)) = None \<and> mr_msg_id (fst (projr (snd resent))) = r_msg_id first_row \<and>
      wd_messages fst (fst resent) = wd_messages fst (mem_world (empty_tables\<lparr>t_messages := [first_row]\<rparr>) (\<lambda>_. None))"
    by (rule retransmission_is_recognised [OF mem_ok(1) u mem_answered n _ k _ s])
      (simp_all add: sender_row_def)
  then show ?thesis by (simp add: sender_row_def)
qed

definition cached_99 :: "string \<Rightarrow> string option" where
  "cached_99 = [last_send_key 1 \<mapsto> mem_encode [to_string 10, to_string 99, to_string 100]]"

definition refused :: "mem_world \<times> (MsgReply \<times> SendtoPeersArgs option) result" where
  "refused = SendMsg mem_stubs 101 hi_to_2 (mem_world (empty_tables\<lparr>t_messages := [first_row]\<rparr>) cached_99)"

lemma retransmission_fails_while_cached_witness:
  "isl (snd refused) \<and> wd_messages fst (fst refused) = [first_row]"
proof -
  let ?w = "mem_world (empty_tables\<lparr>t_messages := [first_row]\<rparr>) cached_99"
  have s: "SendMsg mem_stubs 101 hi_to_2 ?w = (fst refused, snd refused)"
    unfolding refused_def [symmetric] by simp
  have k: "(nm_user_id hi_to_2, nm_user_id hi_to_2, nm_client_time hi_to_2) \<in> unique_key ` set (wd_messages fst ?w)"
    by (simp add: eval_keys)
  have u: "unique_rows (wd_messages fst ?w)" by (simp add: unique_rows_def)
  have n: "rd_get (be_redis mem_backends) (cached_99, []) (last_send_key (nm_user_id hi_to_2)) =
      Some (cj_encode (be_cjson mem_backends) [to_string 10, to_string 99, to_string 100])"
    by (simp add: cached_99_def mem_cjson_def)
  have "isl (snd refused) \<and> wd_messages fst (fst refused) = wd_messages fst ?w"
    by (rule retransmission_fails_while_cached [OF mem_ok u mem_answered n k _ s]) simp
  then show ?thesis by simp
qed

definition dropped :: "mem_world \<times> (MsgReply \<times> SendtoPeersArgs option) result" where
  "dropped = SendMsg mem_stubs 101 (hi_to_2\<lparr>nm_client_time := 0\<rparr>) (mem_world empty_tables (\<lambda>_. None))"

lemma zero_time_message_is_dropped_witness:
  "mr_msg_id (fst (projr (snd dropped))) = 0 \<and> wd_messages fst (fst dropped) = []"
proof -
  have "\<not> isl (snd dropped)" by code_simp
  then have s: "SendMsg mem_stubs 101 (hi_to_2\<lparr>nm_client_time := 0\<rparr>) (mem_world empty_tables (\<lambda>_. None)) =
      (fst dropped, Inr (fst (projr (snd dropped)), snd (projr (snd dropped))))"
    unfolding dropped_def [symmetric] by (simp add: prod_eq_iff)
  have n: "rd_get (be_redis mem_backends) (\<lambda>_. None, []) (last_send_key (nm_user_id (hi_to_2\<lparr>nm_client_time := 0\<rparr>))) = None"
    by simp
  from zero_time_message_is_dropped [OF mem_ok(1) mem_answered n _ _ s] show ?thesis
    by (simp add: empty_tables_def)
qed

definition failing_stubs :: "unit stubs" where
  "failing_stubs = \<lparr>
     st_GetUserLastSendData = (\<lambda>u w. (w, Inr (last_answer (0, 0, 0)))),
     st_IdGenerate = (\<lambda>q w. (w, Inr [\<lparr>mi_user_id = 1, mi_start_msg_id = 5, mi_msg_id_num = 1\<rparr>])),
     st_GetGroupMembers = (\<lambda>g w. (w, Inr [])),
     st_SavePrivateMsg = (\<lambda>m w. (w, Inr ())),
     st_SaveGroupMsg = (\<lambda>m w. (w, Inl (Failed 22 ''Fail to insert into messages.''))),
     st_GetSessions = (\<lambda>us w. (w, Inr [])), st_GetMsgs = (\<lambda>r w. (w, Inr [])),
     st_GetFriends = (\<lambda>u w. (w, Inr [])), st_GetGroups = (\<lambda>u w. (w, Inr []))\<rparr>"

lemma group_save_failure_is_reported_as_code_0_witness:
  "SendMsg failing_stubs 100 hi_to_group () = ((), Inl (Failed 0 []))"
  by (rule group_save_failure_is_reported_as_code_0 [where d = "last_answer (0, 0, 0)" and us = "[]"
        and ids = "[\<lparr>mi_user_id = 1, mi_start_msg_id = 5, mi_msg_id_num = 1\<rparr>]"])
    (simp_all add: failing_stubs_def last_answer_def)

end
